(* ===== verification/Prelude.thy ===== *)
theory Prelude
  imports Main "HOL-Library.Char_ord" "HOL-Library.List_Lexorder"
begin

text \<open>
  Shared vocabulary of the development: results that may be an error (the Python
  exceptions become the left side of a sum), sequencing of such results, and the
  facts about lists that the component theories use: keyed updates of tables, stable
  sorting under updates that keep the key, positions in lists of distinct keys.
\<close>

named_theorems op_defs \<open>the storage operations as transactions around their bodies\<close>
named_theorems body_defs \<open>what the bodies of the storage operations check and change\<close>

section \<open>Results\<close>

text \<open>Sequencing: the first error wins, as a raised exception does.\<close>

definition rbind :: "'e + 'a \<Rightarrow> ('a \<Rightarrow> 'e + 'b) \<Rightarrow> 'e + 'b" where
  "rbind m f = (case m of Inl e \<Rightarrow> Inl e | Inr x \<Rightarrow> f x)"

definition guard :: "bool \<Rightarrow> 'e \<Rightarrow> 'e + unit" where
  "guard b e = (if b then Inr () else Inl e)"

lemma rbind_simps [simp]:
  "rbind (Inl e) f = Inl e"
  "rbind (Inr x) f = f x"
  by (simp_all add: rbind_def)

lemma rbind_Inr_iff: "rbind m f = Inr y \<longleftrightarrow> (\<exists>x. m = Inr x \<and> f x = Inr y)"
  by (cases m) simp_all

lemma rbind_Inl_iff: "rbind m f = Inl e \<longleftrightarrow> m = Inl e \<or> (\<exists>x. m = Inr x \<and> f x = Inl e)"
  by (cases m) simp_all

lemma rbind_assoc: "rbind (rbind m f) g = rbind m (\<lambda>x. rbind (f x) g)"
  by (cases m) simp_all

lemma guard_Inr [simp]: "guard b e = Inr x \<longleftrightarrow> b"
  by (simp add: guard_def)

lemma guard_Inl [simp]: "guard b e = Inl e' \<longleftrightarrow> \<not> b \<and> e' = e"
  by (auto simp: guard_def)

lemma rbind_guard [simp]: "rbind (guard b e) f = (if b then f () else Inl e)"
  by (simp add: guard_def)

section \<open>Keyed tables\<close>

text \<open>\<open>UPDATE \<dots> WHERE\<close>: every row that satisfies the condition is rewritten in place.\<close>

definition update_where :: "('a \<Rightarrow> bool) \<Rightarrow> ('a \<Rightarrow> 'a) \<Rightarrow> 'a list \<Rightarrow> 'a list" where
  "update_where p f xs = map (\<lambda>x. if p x then f x else x) xs"

lemma length_update_where [simp]: "length (update_where p f xs) = length xs"
  by (simp add: update_where_def)

lemma update_where_Nil [simp]: "update_where p f [] = []"
  by (simp add: update_where_def)

lemma update_where_Cons [simp]:
  "update_where p f (x # xs) = (if p x then f x else x) # update_where p f xs"
  by (simp add: update_where_def)

lemma map_update_where:
  assumes "\<And>x. p x \<Longrightarrow> g (f x) = g x"
  shows "map g (update_where p f xs) = map g xs"
  using assms by (simp add: update_where_def)

lemma filter_update_where:
  assumes "\<And>x. p x \<Longrightarrow> q (f x) = q x"
  shows "filter q (update_where p f xs) = update_where p f (filter q xs)"
  using assms by (induction xs) auto

lemma update_where_id:
  assumes "\<And>x. x \<in> set xs \<Longrightarrow> \<not> p x"
  shows "update_where p f xs = xs"
  using assms by (induction xs) auto

lemma update_where_cong:
  assumes "\<And>x. x \<in> set xs \<Longrightarrow> p x = p' x" and "\<And>x. x \<in> set xs \<Longrightarrow> p x \<Longrightarrow> f x = f' x"
  shows "update_where p f xs = update_where p' f' xs"
  using assms by (simp add: update_where_def)

lemma set_update_where:
  "set (update_where p f xs) = {x \<in> set xs. \<not> p x} \<union> f ` {x \<in> set xs. p x}"
  by (auto simp: update_where_def)

text \<open>\<open>ORDER BY\<close> is a stable sort; an update that keeps the sort key keeps the order.\<close>

lemma insort_key_map:
  assumes "\<And>y. y \<in> insert x (set xs) \<Longrightarrow> k (g y) = k y"
  shows "insort_key k (g x) (map g xs) = map g (insort_key k x xs)"
  using assms by (induction xs) auto

lemma sort_key_map:
  assumes "\<And>y. y \<in> set xs \<Longrightarrow> k (g y) = k y"
  shows "sort_key k (map g xs) = map g (sort_key k xs)"
  using assms
proof (induction xs)
  case Nil
  then show ?case by simp
next
  case (Cons x xs)
  then have "sort_key k (map g (x # xs)) = insort_key k (g x) (map g (sort_key k xs))"
    by simp
  also have "\<dots> = map g (insort_key k x (sort_key k xs))"
    using Cons.prems by (intro insort_key_map) auto
  finally show ?case by simp
qed

lemma sort_key_update_where:
  assumes "\<And>x. p x \<Longrightarrow> k (f x) = k x"
  shows "sort_key k (update_where p f xs) = update_where p f (sort_key k xs)"
  unfolding update_where_def using assms by (intro sort_key_map) auto

lemma sort_key_id: "sorted (map k xs) \<Longrightarrow> sort_key k xs = xs"
  by (rule sort_key_id_if_sorted)

section \<open>Distinct keys\<close>

text \<open>The first element with a given key, with its index, as a \<open>for \<dots> enumerate\<close> loop finds it.\<close>

fun find_index :: "('a \<Rightarrow> bool) \<Rightarrow> 'a list \<Rightarrow> (nat \<times> 'a) option" where
  "find_index p [] = None"
| "find_index p (x # xs) =
     (if p x then Some (0, x)
      else (case find_index p xs of None \<Rightarrow> None | Some (i, y) \<Rightarrow> Some (Suc i, y)))"

lemma find_index_None: "find_index p xs = None \<longleftrightarrow> (\<forall>x \<in> set xs. \<not> p x)"
  by (induction xs) (auto split: option.splits)

lemma find_index_Some:
  "find_index p xs = Some (i, y) \<Longrightarrow> i < length xs \<and> xs ! i = y \<and> p y \<and> y \<in> set xs"
  by (induction xs arbitrary: i) (auto split: if_splits option.splits)

lemma find_index_snd: "map_option snd (find_index p xs) = find p xs"
  by (induction xs) (auto split: option.splits)

lemma find_map: "find p (map f xs) = map_option f (find (\<lambda>x. p (f x)) xs)"
  by (induction xs) auto

text \<open>Writing the updated element back at its index is the keyed update.\<close>

lemma list_update_find_index:
  assumes "find_index (\<lambda>x. k x = a) xs = Some (i, y)" and "distinct (map k xs)"
  shows "xs[i := f y] = update_where (\<lambda>x. k x = a) f xs"
  using assms
proof (induction xs arbitrary: i)
  case Nil
  then show ?case by simp
next
  case (Cons x xs)
  show ?case
  proof (cases "k x = a")
    case True
    with Cons.prems(2) have "update_where (\<lambda>x. k x = a) f xs = xs"
      by (intro update_where_id) (auto simp: image_iff)
    with True Cons.prems show ?thesis by auto
  next
    case False
    with Cons.prems obtain j where "find_index (\<lambda>x. k x = a) xs = Some (j, y)" and "i = Suc j"
      by (auto split: option.splits)
    with False Cons show ?thesis by simp
  qed
qed

lemma find_distinct_eq:
  assumes "distinct (map k xs)" and "x \<in> set xs"
  shows "find (\<lambda>y. k y = k x) xs = Some x"
  using assms by (induction xs) (auto simp: image_iff)

lemma filter_distinct_key:
  assumes "distinct (map k xs)" and "x \<in> set xs"
  shows "filter (\<lambda>y. k y = k x) xs = [x]"
  using assms
proof (induction xs)
  case Nil
  then show ?case by simp
next
  case (Cons z zs)
  then show ?case
    by (auto simp: image_iff filter_empty_conv)
qed

lemma find_Some_set: "find p xs = Some x \<Longrightarrow> x \<in> set xs \<and> p x"
  by (auto simp: find_Some_iff)

lemma find_filter: "find p (filter q xs) = find (\<lambda>x. q x \<and> p x) xs"
  by (induction xs) auto

lemma list_ex_filter: "list_ex p (filter q xs) = list_ex (\<lambda>x. q x \<and> p x) xs"
  by (induction xs) auto

section \<open>Largest element of a column\<close>

text \<open>\<open>COALESCE(MAX(column), 0)\<close>.\<close>

definition max_or_zero :: "int list \<Rightarrow> int" where
  "max_or_zero xs = (if xs = [] then 0 else Max (set xs))"

lemma max_or_zero_upto:
  assumes "xs = map int [1..<Suc n]"
  shows "max_or_zero xs = int n"
proof (cases n)
  case 0
  with assms show ?thesis by (simp add: max_or_zero_def)
next
  case (Suc m)
  have "Max (set (map int [1..<Suc n])) = int n"
    by (rule Max_eqI) (use Suc in \<open>auto simp: image_iff\<close>)
  with Suc assms show ?thesis by (simp add: max_or_zero_def)
qed

end
