(* ===== verification/Models.thy ===== *)
theory Models
  imports Prelude
begin

text \<open>
  The contracts of \<open>crashsafe/models.py\<close>: enumerations, submitted definitions with
  their declared field constraints, the graph validation of \<open>WorkflowDefinition\<close>, the
  typed event payloads and the records of the engine.

  A JSON value is a \<open>json\<close>; an object lists its fields in key order, which is the form
  \<open>json.dumps(\<dots>, sort_keys=True)\<close> writes to every JSON column, so equality of
  dictionaries (which ignores field order) is equality of values. The numbers the program
  puts into requests and outputs are integers. Instants are microseconds (see
  \<open>Timestamps\<close>), Python integers are \<open>int\<close>.
\<close>

type_synonym timestamp = int

section \<open>Enumerations\<close>

datatype workflow_run_status = RUNNING | COMPLETED | FAILED

datatype step_status = STEP_PENDING | STEP_INTENT_RECORDED | STEP_RETRY_WAIT | STEP_COMPLETED
  | STEP_FAILED

datatype step_name = CHARGE | PROVISION | NOTIFY

datatype event_type = WORKFLOW_RUN_CREATED | STEP_ATTEMPT_STARTED | STEP_RETRY_SCHEDULED
  | STEP_COMPLETED_EVENT | STEP_FAILED_EVENT | WORKFLOW_RUN_COMPLETED | WORKFLOW_RUN_FAILED

text \<open>Python's enumerations list their members; so do these.\<close>

instantiation workflow_run_status :: enum
begin

definition enum_workflow_run_status :: "workflow_run_status list" where
  "enum_workflow_run_status = [RUNNING, COMPLETED, FAILED]"

definition enum_all_workflow_run_status :: "(workflow_run_status \<Rightarrow> bool) \<Rightarrow> bool" where
  "enum_all_workflow_run_status P \<longleftrightarrow> list_all P (Enum.enum :: workflow_run_status list)"

definition enum_ex_workflow_run_status :: "(workflow_run_status \<Rightarrow> bool) \<Rightarrow> bool" where
  "enum_ex_workflow_run_status P \<longleftrightarrow> list_ex P (Enum.enum :: workflow_run_status list)"

instance
proof
  have mem: "x \<in> set Enum.enum" for x :: workflow_run_status by (cases x) (simp_all add: enum_workflow_run_status_def)
  then show "UNIV = set (Enum.enum :: workflow_run_status list)" by blast
  show "distinct (Enum.enum :: workflow_run_status list)" by (simp add: enum_workflow_run_status_def)
  fix P :: "workflow_run_status \<Rightarrow> bool"
  show "Enum.enum_all P = Ball UNIV P" "Enum.enum_ex P = Bex UNIV P"
    using mem by (auto simp: enum_all_workflow_run_status_def enum_ex_workflow_run_status_def list_all_iff list_ex_iff)
qed

end

instantiation step_name :: enum
begin

definition enum_step_name :: "step_name list" where
  "enum_step_name = [CHARGE, PROVISION, NOTIFY]"

definition enum_all_step_name :: "(step_name \<Rightarrow> bool) \<Rightarrow> bool" where
  "enum_all_step_name P \<longleftrightarrow> list_all P (Enum.enum :: step_name list)"

definition enum_ex_step_name :: "(step_name \<Rightarrow> bool) \<Rightarrow> bool" where
  "enum_ex_step_name P \<longleftrightarrow> list_ex P (Enum.enum :: step_name list)"

instance
proof
  have mem: "x \<in> set Enum.enum" for x :: step_name by (cases x) (simp_all add: enum_step_name_def)
  then show "UNIV = set (Enum.enum :: step_name list)" by blast
  show "distinct (Enum.enum :: step_name list)" by (simp add: enum_step_name_def)
  fix P :: "step_name \<Rightarrow> bool"
  show "Enum.enum_all P = Ball UNIV P" "Enum.enum_ex P = Bex UNIV P"
    using mem by (auto simp: enum_all_step_name_def enum_ex_step_name_def list_all_iff list_ex_iff)
qed

end

instantiation event_type :: enum
begin

definition enum_event_type :: "event_type list" where
  "enum_event_type = [WORKFLOW_RUN_CREATED, STEP_ATTEMPT_STARTED, STEP_RETRY_SCHEDULED, STEP_COMPLETED_EVENT, STEP_FAILED_EVENT, WORKFLOW_RUN_COMPLETED, WORKFLOW_RUN_FAILED]"

definition enum_all_event_type :: "(event_type \<Rightarrow> bool) \<Rightarrow> bool" where
  "enum_all_event_type P \<longleftrightarrow> list_all P (Enum.enum :: event_type list)"

definition enum_ex_event_type :: "(event_type \<Rightarrow> bool) \<Rightarrow> bool" where
  "enum_ex_event_type P \<longleftrightarrow> list_ex P (Enum.enum :: event_type list)"

instance
proof
  have mem: "x \<in> set Enum.enum" for x :: event_type by (cases x) (simp_all add: enum_event_type_def)
  then show "UNIV = set (Enum.enum :: event_type list)" by blast
  show "distinct (Enum.enum :: event_type list)" by (simp add: enum_event_type_def)
  fix P :: "event_type \<Rightarrow> bool"
  show "Enum.enum_all P = Ball UNIV P" "Enum.enum_ex P = Bex UNIV P"
    using mem by (auto simp: enum_all_event_type_def enum_ex_event_type_def list_all_iff list_ex_iff)
qed

end

fun step_name_value :: "step_name \<Rightarrow> string" where
  "step_name_value CHARGE = ''charge''"
| "step_name_value PROVISION = ''provision''"
| "step_name_value NOTIFY = ''notify''"

fun event_type_value :: "event_type \<Rightarrow> string" where
  "event_type_value WORKFLOW_RUN_CREATED = ''WorkflowRunCreated''"
| "event_type_value STEP_ATTEMPT_STARTED = ''StepAttemptStarted''"
| "event_type_value STEP_RETRY_SCHEDULED = ''StepRetryScheduled''"
| "event_type_value STEP_COMPLETED_EVENT = ''StepCompleted''"
| "event_type_value STEP_FAILED_EVENT = ''StepFailed''"
| "event_type_value WORKFLOW_RUN_COMPLETED = ''WorkflowRunCompleted''"
| "event_type_value WORKFLOW_RUN_FAILED = ''WorkflowRunFailed''"

lemma step_name_value_inj: "step_name_value a = step_name_value b \<longleftrightarrow> a = b"
  by (cases a; cases b) simp_all

section \<open>JSON values\<close>

datatype json = JNull | JBool bool | JInt int | JStr string | JArr "json list"
  | JObj "(string \<times> json) list"

text \<open>\<open>value.get(key)\<close> of a dictionary; values that are not dictionaries have no fields.\<close>

fun json_get :: "json \<Rightarrow> string \<Rightarrow> json option" where
  "json_get (JObj fs) k = map_of fs k"
| "json_get _ k = None"

section \<open>Submitted requests and steps\<close>

record charge_request =
  ch_customer_id :: string
  ch_amount_cents :: int

record provision_request =
  pr_customer_id :: string
  pr_plan :: string

record notify_request =
  no_customer_id :: string
  no_email :: string
  no_message :: string

datatype workflow_step =
    ChargeStep (ws_id: string) (ws_depends_on: "string list") charge_request
  | ProvisionStep (ws_id: string) (ws_depends_on: "string list") provision_request
  | NotifyStep (ws_id: string) (ws_depends_on: "string list") notify_request

fun ws_operation :: "workflow_step \<Rightarrow> step_name" where
  "ws_operation (ChargeStep _ _ _) = CHARGE"
| "ws_operation (ProvisionStep _ _ _) = PROVISION"
| "ws_operation (NotifyStep _ _ _) = NOTIFY"

text \<open>\<open>step.request.model_dump(mode="json")\<close>.\<close>

fun ws_request :: "workflow_step \<Rightarrow> json" where
  "ws_request (ChargeStep _ _ r) =
     JObj [(''amount_cents'', JInt (ch_amount_cents r)), (''customer_id'', JStr (ch_customer_id r))]"
| "ws_request (ProvisionStep _ _ r) =
     JObj [(''customer_id'', JStr (pr_customer_id r)), (''plan'', JStr (pr_plan r))]"
| "ws_request (NotifyStep _ _ r) =
     JObj [(''customer_id'', JStr (no_customer_id r)), (''email'', JStr (no_email r)),
           (''message'', JStr (no_message r))]"

text \<open>The declared field constraints: lengths, the positive amount, the identifier pattern.\<close>

definition str_len :: "nat \<Rightarrow> nat \<Rightarrow> string \<Rightarrow> bool" where
  "str_len lo hi s \<longleftrightarrow> lo \<le> length s \<and> length s \<le> hi"

definition id_char :: "char \<Rightarrow> bool" where
  "id_char c \<longleftrightarrow> CHR ''A'' \<le> c \<and> c \<le> CHR ''Z'' \<or> CHR ''a'' \<le> c \<and> c \<le> CHR ''z'' \<or>
     CHR ''0'' \<le> c \<and> c \<le> CHR ''9'' \<or> c = CHR ''_'' \<or> c = CHR ''-''"

definition step_id_ok :: "string \<Rightarrow> bool" where
  "step_id_ok s \<longleftrightarrow> str_len 1 64 s \<and> list_all id_char s"

fun request_ok :: "workflow_step \<Rightarrow> bool" where
  "request_ok (ChargeStep _ _ r) \<longleftrightarrow> str_len 1 128 (ch_customer_id r) \<and> 0 < ch_amount_cents r"
| "request_ok (ProvisionStep _ _ r) \<longleftrightarrow> str_len 1 128 (pr_customer_id r) \<and> str_len 1 128 (pr_plan r)"
| "request_ok (NotifyStep _ _ r) \<longleftrightarrow> str_len 1 128 (no_customer_id r) \<and>
     str_len 3 320 (no_email r) \<and> str_len 1 1000 (no_message r)"

definition step_fields_ok :: "workflow_step \<Rightarrow> bool" where
  "step_fields_ok s \<longleftrightarrow> step_id_ok (ws_id s) \<and> length (ws_depends_on s) \<le> 32 \<and> request_ok s"

record workflow_definition =
  wd_name :: string
  wd_steps :: "workflow_step list"

definition definition_fields_ok :: "workflow_definition \<Rightarrow> bool" where
  "definition_fields_ok d \<longleftrightarrow> str_len 1 128 (wd_name d) \<and>
     1 \<le> length (wd_steps d) \<and> length (wd_steps d) \<le> 32 \<and> list_all step_fields_ok (wd_steps d)"

section \<open>Graph validation\<close>

datatype definition_error = StepIdsNotUnique | DuplicateDependencies string
  | DependsOnItself string | UnknownDependencies string "string list" | Cyclic

text \<open>The checks of the first loop, in the order in which they raise.\<close>

fun check_steps :: "string list \<Rightarrow> workflow_step list \<Rightarrow> definition_error option" where
  "check_steps known [] = None"
| "check_steps known (s # ss) =
     (if \<not> distinct (ws_depends_on s) then Some (DuplicateDependencies (ws_id s))
      else if ws_id s \<in> set (ws_depends_on s) then Some (DependsOnItself (ws_id s))
      else (case filter (\<lambda>d. d \<notin> set known) (ws_depends_on s) of
              [] \<Rightarrow> check_steps known ss
            | missing \<Rightarrow> Some (UnknownDependencies (ws_id s) (sort missing))))"

text \<open>\<open>dependencies = {step.id: set(step.depends_on)}\<close>: the sets as duplicate-free lists.\<close>

definition dependency_sets :: "workflow_step list \<Rightarrow> string \<Rightarrow> string list" where
  "dependency_sets ss i = (case map_of (map (\<lambda>s. (ws_id s, ws_depends_on s)) ss) i of
     None \<Rightarrow> [] | Some ds \<Rightarrow> ds)"

text \<open>
  The inner \<open>for candidate in ids\<close> loop: \<open>current\<close> is removed from every dependency set
  that holds it; a candidate whose set became empty joins the queue, unless it was
  visited or is queued already.
\<close>

fun relax :: "string \<Rightarrow> string list \<Rightarrow> string list \<Rightarrow> (string \<Rightarrow> string list) \<Rightarrow> string list
    \<Rightarrow> (string \<Rightarrow> string list) \<times> string list" where
  "relax current visited [] deps ready = (deps, ready)"
| "relax current visited (c # cs) deps ready =
     (if current \<in> set (deps c)
      then let deps' = deps(c := filter (\<lambda>d. d \<noteq> current) (deps c)) in
           if deps' c = [] \<and> c \<notin> set visited \<and> c \<notin> set ready
           then relax current visited cs deps' (ready @ [c])
           else relax current visited cs deps' ready
      else relax current visited cs deps ready)"

text \<open>Bookkeeping for the termination of the queue loop: what one pass changes.\<close>

definition open_ids :: "string list \<Rightarrow> (string \<Rightarrow> string list) \<Rightarrow> nat" where
  "open_ids ids deps = card {c \<in> set ids. deps c \<noteq> []}"

lemma open_ids_fun_upd:
  assumes "c \<in> set ids" and "deps c \<noteq> []"
  shows "open_ids ids (deps(c := ds)) = (if ds = [] then open_ids ids deps - 1 else open_ids ids deps)"
    and "0 < open_ids ids deps"
proof -
  have fin: "finite {c \<in> set ids. deps c \<noteq> []}" by simp
  have mem: "c \<in> {c \<in> set ids. deps c \<noteq> []}" using assms by simp
  from fin mem show "0 < open_ids ids deps" by (auto simp: open_ids_def card_gt_0_iff)
  show "open_ids ids (deps(c := ds)) =
      (if ds = [] then open_ids ids deps - 1 else open_ids ids deps)"
  proof (cases "ds = []")
    case True
    have "{x \<in> set ids. (deps(c := ds)) x \<noteq> []} = {c \<in> set ids. deps c \<noteq> []} - {c}"
      using True by auto
    with True fin mem show ?thesis by (simp add: open_ids_def)
  next
    case False
    have "{x \<in> set ids. (deps(c := ds)) x \<noteq> []} = {c \<in> set ids. deps c \<noteq> []}"
      using False assms by auto
    with False show ?thesis by (simp add: open_ids_def)
  qed
qed

lemma relax_measure:
  assumes "relax current visited cs deps ready = (deps', ready')" and "set cs \<subseteq> set ids"
  shows "length ready' + open_ids ids deps' \<le> length ready + open_ids ids deps"
  using assms
proof (induction current visited cs deps ready rule: relax.induct)
  case (1 current visited deps ready)
  then show ?case by simp
next
  case (2 current visited c cs deps ready)
  show ?case
  proof (cases "current \<in> set (deps c)")
    case False
    with 2 show ?thesis by simp
  next
    case True
    then have ne: "c \<in> set ids" "deps c \<noteq> []" using 2 by auto
    show ?thesis
      using True 2 open_ids_fun_upd [where deps = deps and c = c, OF ne]
      by (fastforce simp: Let_def split: if_splits)
  qed
qed

text \<open>The \<open>while ready\<close> loop; the result is the list of visited identifiers.\<close>

function visit_ready :: "string list \<Rightarrow> (string \<Rightarrow> string list) \<Rightarrow> string list \<Rightarrow> string list
    \<Rightarrow> string list" where
  "visit_ready ids deps [] visited = visited"
| "visit_ready ids deps (current # ready) visited =
     (case relax current (visited @ [current]) ids deps ready of
        (deps', ready') \<Rightarrow> visit_ready ids deps' ready' (visited @ [current]))"
  by pat_completeness auto
termination
proof (relation "measure (\<lambda>(ids, deps, ready, visited). length ready + open_ids ids deps)",
    goal_cases)
  case 1
  show ?case by simp
next
  case (2 ids deps current ready visited x y)
  then show ?case
    using relax_measure [of current "visited @ [current]" ids deps ready x y ids] by simp
qed

definition validate_graph :: "workflow_definition \<Rightarrow> definition_error option" where
  "validate_graph d =
     (let ids = map ws_id (wd_steps d) in
      if \<not> distinct ids then Some StepIdsNotUnique
      else case check_steps ids (wd_steps d) of
        Some e \<Rightarrow> Some e
      | None \<Rightarrow>
          (let deps = dependency_sets (wd_steps d);
               visited = visit_ready ids deps (filter (\<lambda>i. deps i = []) ids) []
           in if length visited \<noteq> length ids then Some Cyclic else None))"

text \<open>A definition the API accepts.\<close>

definition accepted :: "workflow_definition \<Rightarrow> bool" where
  "accepted d \<longleftrightarrow> definition_fields_ok d \<and> validate_graph d = None"

section \<open>Persisted records and events\<close>

record step_definition =
  sd_id :: string
  sd_position :: int
  sd_operation :: step_name
  sd_depends_on :: "string list"
  sd_request :: json
  sd_operation_key :: string
  sd_tool_key :: string

text \<open>
  A stored payload. The seven payload models forbid extra fields and have different
  required fields, so a dictionary validates under at most one of them: a payload is the
  typed value, or \<open>MalformedPayload\<close> for a dictionary that no model accepts.
\<close>

datatype payload =
    WorkflowRunCreatedPayload string "step_definition list"
  | StepAttemptStartedPayload step_name json string "string option" "int option"
  | StepRetryScheduledPayload string timestamp
  | StepCompletedPayload json
  | StepFailedPayload string
  | WorkflowRunCompletedPayload
  | WorkflowRunFailedPayload string string
  | MalformedPayload json

record step_record =
  st_id :: string
  st_run_id :: string
  st_position :: int
  st_operation :: step_name
  st_depends_on :: "string list"
  st_status :: step_status
  st_request :: json
  st_operation_key :: string
  st_tool_key :: string
  st_output :: "json option"
  st_attempts :: int
  st_next_attempt_at :: "timestamp option"
  st_last_error :: "string option"
  st_created_at :: timestamp
  st_updated_at :: timestamp
  st_completed_at :: "timestamp option"

record workflow_run =
  wr_run_id :: string
  wr_name :: string
  wr_status :: workflow_run_status
  wr_steps :: "step_record list"
  wr_created_at :: timestamp
  wr_updated_at :: timestamp
  wr_completed_at :: "timestamp option"

record workflow_run_event =
  ev_id :: int
  ev_run_id :: string
  ev_sequence :: int
  ev_event_type :: event_type
  ev_schema_version :: int
  ev_step_id :: "string option"
  ev_attempt :: "int option"
  ev_payload :: payload
  ev_occurred_at :: timestamp

record workflow_run_lease =
  le_run_id :: string
  le_owner_id :: string
  le_fence_token :: int
  le_expires_at :: timestamp
  le_updated_at :: timestamp

record claimed_step =
  cl_step :: step_record
  cl_lease :: workflow_run_lease

record tool_throttle =
  th_tool_key :: string
  th_blocked_until :: timestamp
  th_reason :: string
  th_updated_at :: timestamp

record tool_result =
  tr_operation :: step_name
  tr_reference_id :: string
  tr_deduplicated :: bool

record ledger_summary =
  lg_charges :: nat
  lg_provisions :: nat
  lg_notifications :: nat

end
