(* ===== verification/History.thy ===== *)
theory History
  imports Models
begin

text \<open>
  The strict reducer of \<open>crashsafe/history.py\<close>: the fold that rebuilds a run from its
  events and rejects gaps, illegal transitions, mutated step intents and events after a
  terminal outcome. Every \<open>raise HistoryIntegrityError(\<dots>)\<close> is a constructor of
  \<open>history_error\<close>, in the order of the source's checks.
\<close>

section \<open>Definitions\<close>

abbreviation (input) EVENT_SCHEMA_VERSION :: int where "EVENT_SCHEMA_VERSION \<equiv> 1"
abbreviation (input) ATTEMPT_EVENT_SCHEMA_VERSION :: int where "ATTEMPT_EVENT_SCHEMA_VERSION \<equiv> 2"
abbreviation (input) WORKFLOW_RUN_CREATED_SCHEMA_VERSION :: int where
  "WORKFLOW_RUN_CREATED_SCHEMA_VERSION \<equiv> 3"

definition supported_schema_version :: "int \<Rightarrow> bool" where
  "supported_schema_version v \<longleftrightarrow>
     v \<in> {EVENT_SCHEMA_VERSION, ATTEMPT_EVENT_SCHEMA_VERSION, WORKFLOW_RUN_CREATED_SCHEMA_VERSION}"

datatype history_error =
    EmptyHistory | MultipleRunIds | SequenceGap int int | UnsupportedSchema int
  | InvalidPayload event_type int
  | CreationNotFirst | CreationNotV3 | CreationHasStep
  | NoStepDefinitions | PositionsNotContiguous | DuplicateStepIds | OperationKeyMismatch
  | DependenciesNotUnique | InvalidDependency | DefinitionCycle
  | NoCreation | EventAfterTerminal
  | CompletedHasStep | StepsNotCompleted
  | FailedMetadataMismatch | StepNotFailed
  | MissingStepOrAttempt | UnknownStep string
  | AttemptWithoutLease | NotRunnable | AttemptNumberGap | DependenciesNotCompleted
  | IntentChanged | NotCurrentAttempt | UnsupportedEventType
  | MissingRunFailed | MissingRunCompleted

text \<open>\<open>PAYLOAD_MODELS\<close>: the payload model of each event type.\<close>

fun payload_model :: "payload \<Rightarrow> event_type option" where
  "payload_model (WorkflowRunCreatedPayload _ _) = Some WORKFLOW_RUN_CREATED"
| "payload_model (StepAttemptStartedPayload _ _ _ _ _) = Some STEP_ATTEMPT_STARTED"
| "payload_model (StepRetryScheduledPayload _ _) = Some STEP_RETRY_SCHEDULED"
| "payload_model (StepCompletedPayload _) = Some STEP_COMPLETED_EVENT"
| "payload_model (StepFailedPayload _) = Some STEP_FAILED_EVENT"
| "payload_model WorkflowRunCompletedPayload = Some WORKFLOW_RUN_COMPLETED"
| "payload_model (WorkflowRunFailedPayload _ _) = Some WORKFLOW_RUN_FAILED"
| "payload_model (MalformedPayload _) = None"

definition parse_payload :: "event_type \<Rightarrow> payload \<Rightarrow> payload option" where
  "parse_payload et p = (if payload_model p = Some et then Some p else None)"

text \<open>\<open>_validate_definitions\<close>: the cycle check grows \<open>visited\<close> by the first ready step.\<close>

definition ready_ids :: "step_definition list \<Rightarrow> string list \<Rightarrow> string list" where
  "ready_ids defs visited =
     map sd_id (filter (\<lambda>d. sd_id d \<notin> set visited \<and> set (sd_depends_on d) \<subseteq> set visited) defs)"

function visit_definitions :: "step_definition list \<Rightarrow> string list \<Rightarrow> history_error + string list" where
  "visit_definitions defs visited =
     (if length visited < length defs
      then (case ready_ids defs visited of
              [] \<Rightarrow> Inl DefinitionCycle
            | i # _ \<Rightarrow> visit_definitions defs (i # visited))
      else Inr visited)"
  by pat_completeness auto
termination
  by (relation "measure (\<lambda>(defs, visited). length defs - length visited)") auto

declare visit_definitions.simps [simp del]

fun check_definitions :: "string \<Rightarrow> string list \<Rightarrow> step_definition list \<Rightarrow> history_error + unit" where
  "check_definitions run_id known [] = Inr ()"
| "check_definitions run_id known (d # ds) =
     (if sd_operation_key d \<noteq> run_id @ '':'' @ sd_id d then Inl OperationKeyMismatch
      else if \<not> distinct (sd_depends_on d) then Inl DependenciesNotUnique
      else if sd_id d \<in> set (sd_depends_on d) \<or> \<not> set (sd_depends_on d) \<subseteq> set known
      then Inl InvalidDependency
      else check_definitions run_id known ds)"

definition validate_definitions :: "string \<Rightarrow> step_definition list \<Rightarrow> history_error + unit" where
  "validate_definitions run_id defs =
     (if defs = [] then Inl NoStepDefinitions
      else if map sd_position defs \<noteq> map int [0..<length defs] then Inl PositionsNotContiguous
      else if \<not> distinct (map sd_id defs) then Inl DuplicateStepIds
      else rbind (check_definitions run_id (map sd_id defs) defs) (\<lambda>_.
           rbind (visit_definitions defs []) (\<lambda>_. Inr ())))"

text \<open>\<open>_find_step_with_index\<close>, \<open>_find_step\<close> and \<open>_require_current_attempt\<close>.\<close>

definition find_step_with_index :: "workflow_run \<Rightarrow> string \<Rightarrow> history_error + (nat \<times> step_record)" where
  "find_step_with_index run i =
     (case find_index (\<lambda>s. st_id s = i) (wr_steps run) of
        None \<Rightarrow> Inl (UnknownStep i) | Some r \<Rightarrow> Inr r)"

definition find_step :: "workflow_run \<Rightarrow> string \<Rightarrow> history_error + step_record" where
  "find_step run i = rbind (find_step_with_index run i) (\<lambda>r. Inr (snd r))"

definition require_current_attempt :: "step_record \<Rightarrow> int \<Rightarrow> step_status \<Rightarrow> history_error + unit" where
  "require_current_attempt step attempt expected =
     guard (st_status step = expected \<and> st_attempts step = attempt) NotCurrentAttempt"

definition runnable_status :: "step_status \<Rightarrow> bool" where
  "runnable_status s \<longleftrightarrow> s = STEP_PENDING \<or> s = STEP_INTENT_RECORDED \<or> s = STEP_RETRY_WAIT"

definition completed_ids :: "step_record list \<Rightarrow> string list" where
  "completed_ids ss = map st_id (filter (\<lambda>s. st_status s = STEP_COMPLETED) ss)"

text \<open>The branch of \<open>WorkflowRunCreated\<close>.\<close>

definition new_step :: "string \<Rightarrow> timestamp \<Rightarrow> step_definition \<Rightarrow> step_record" where
  "new_step run_id at d =
     \<lparr>st_id = sd_id d, st_run_id = run_id, st_position = sd_position d,
      st_operation = sd_operation d, st_depends_on = sd_depends_on d,
      st_status = STEP_PENDING, st_request = sd_request d,
      st_operation_key = sd_operation_key d, st_tool_key = sd_tool_key d,
      st_output = None, st_attempts = 0, st_next_attempt_at = None, st_last_error = None,
      st_created_at = at, st_updated_at = at, st_completed_at = None\<rparr>"

definition new_run :: "string \<Rightarrow> timestamp \<Rightarrow> string \<Rightarrow> step_definition list \<Rightarrow> workflow_run" where
  "new_run run_id at name defs =
     \<lparr>wr_run_id = run_id, wr_name = name, wr_status = RUNNING,
      wr_steps = map (new_step run_id at) defs,
      wr_created_at = at, wr_updated_at = at, wr_completed_at = None\<rparr>"

definition apply_created :: "string \<Rightarrow> workflow_run option \<Rightarrow> workflow_run_event \<Rightarrow> string
    \<Rightarrow> step_definition list \<Rightarrow> history_error + workflow_run" where
  "apply_created run_id run e name defs =
     (if run \<noteq> None \<or> ev_sequence e \<noteq> 1 then Inl CreationNotFirst
      else if ev_schema_version e \<noteq> WORKFLOW_RUN_CREATED_SCHEMA_VERSION then Inl CreationNotV3
      else if ev_step_id e \<noteq> None \<or> ev_attempt e \<noteq> None then Inl CreationHasStep
      else rbind (validate_definitions run_id defs) (\<lambda>_.
           Inr (new_run run_id (ev_occurred_at e) name defs)))"

text \<open>The branches of the two terminal run events.\<close>

definition apply_run_completed :: "workflow_run \<Rightarrow> workflow_run_event \<Rightarrow> history_error + workflow_run" where
  "apply_run_completed run e =
     (if ev_step_id e \<noteq> None \<or> ev_attempt e \<noteq> None then Inl CompletedHasStep
      else if list_ex (\<lambda>s. st_status s \<noteq> STEP_COMPLETED) (wr_steps run) then Inl StepsNotCompleted
      else Inr (run\<lparr>wr_status := COMPLETED, wr_updated_at := ev_occurred_at e,
                    wr_completed_at := Some (ev_occurred_at e)\<rparr>))"

definition apply_run_failed :: "workflow_run \<Rightarrow> workflow_run_event \<Rightarrow> string \<Rightarrow> string
    \<Rightarrow> history_error + workflow_run" where
  "apply_run_failed run e step_id error =
     (if ev_step_id e \<noteq> Some step_id \<or> ev_attempt e \<noteq> None then Inl FailedMetadataMismatch
      else rbind (find_step run step_id) (\<lambda>step.
        if st_status step \<noteq> STEP_FAILED \<or> st_last_error step \<noteq> Some error then Inl StepNotFailed
        else Inr (run\<lparr>wr_status := FAILED, wr_updated_at := ev_occurred_at e\<rparr>)))"

text \<open>The branches of the four step events: the new value of the step.\<close>

definition start_attempt :: "timestamp \<Rightarrow> int \<Rightarrow> step_record \<Rightarrow> step_record" where
  "start_attempt at n s = s\<lparr>st_status := STEP_INTENT_RECORDED, st_attempts := n,
     st_next_attempt_at := None, st_last_error := None, st_updated_at := at\<rparr>"

definition schedule_step_retry :: "timestamp \<Rightarrow> string \<Rightarrow> timestamp \<Rightarrow> step_record \<Rightarrow> step_record" where
  "schedule_step_retry at error next s = s\<lparr>st_status := STEP_RETRY_WAIT,
     st_last_error := Some error, st_next_attempt_at := Some next, st_updated_at := at\<rparr>"

definition finish_step :: "timestamp \<Rightarrow> json \<Rightarrow> step_record \<Rightarrow> step_record" where
  "finish_step at out s = s\<lparr>st_status := STEP_COMPLETED, st_output := Some out,
     st_next_attempt_at := None, st_last_error := None, st_updated_at := at,
     st_completed_at := Some at\<rparr>"

definition mark_step_failed :: "timestamp \<Rightarrow> string \<Rightarrow> step_record \<Rightarrow> step_record" where
  "mark_step_failed at error s = s\<lparr>st_status := STEP_FAILED, st_last_error := Some error,
     st_next_attempt_at := None, st_updated_at := at\<rparr>"

fun apply_step_event :: "workflow_run \<Rightarrow> step_record \<Rightarrow> workflow_run_event \<Rightarrow> int \<Rightarrow> payload
    \<Rightarrow> history_error + step_record" where
  "apply_step_event run step e attempt (StepAttemptStartedPayload operation request key worker fence) =
     (if ev_schema_version e = ATTEMPT_EVENT_SCHEMA_VERSION \<and> (worker = None \<or> fence = None)
      then Inl AttemptWithoutLease
      else if \<not> runnable_status (st_status step) then Inl NotRunnable
      else if attempt \<noteq> st_attempts step + 1 then Inl AttemptNumberGap
      else if \<not> set (st_depends_on step) \<subseteq> set (completed_ids (wr_steps run))
      then Inl DependenciesNotCompleted
      else if operation \<noteq> st_operation step \<or> request \<noteq> st_request step \<or>
              key \<noteq> st_operation_key step
      then Inl IntentChanged
      else Inr (start_attempt (ev_occurred_at e) attempt step))"
| "apply_step_event run step e attempt (StepRetryScheduledPayload error next) =
     rbind (require_current_attempt step attempt STEP_INTENT_RECORDED) (\<lambda>_.
       Inr (schedule_step_retry (ev_occurred_at e) error next step))"
| "apply_step_event run step e attempt (StepCompletedPayload out) =
     rbind (require_current_attempt step attempt STEP_INTENT_RECORDED) (\<lambda>_.
       Inr (finish_step (ev_occurred_at e) out step))"
| "apply_step_event run step e attempt (StepFailedPayload error) =
     rbind (require_current_attempt step attempt STEP_INTENT_RECORDED) (\<lambda>_.
       Inr (mark_step_failed (ev_occurred_at e) error step))"
| "apply_step_event run step e attempt _ = Inl UnsupportedEventType"

text \<open>
  One round of the loop. \<open>apply_payload\<close> is the part after the payload was parsed;
  \<open>apply_event\<close> the whole body, with the checks of the event's header.
\<close>

definition apply_step_payload :: "workflow_run \<Rightarrow> workflow_run_event \<Rightarrow> payload
    \<Rightarrow> history_error + workflow_run" where
  "apply_step_payload run e p =
     (case (ev_step_id e, ev_attempt e) of
        (Some i, Some attempt) \<Rightarrow>
          rbind (find_step_with_index run i) (\<lambda>(index, step).
          rbind (apply_step_event run step e attempt p) (\<lambda>step'.
            Inr (run\<lparr>wr_steps := (wr_steps run)[index := step']\<rparr>)))
      | _ \<Rightarrow> Inl MissingStepOrAttempt)"

definition apply_payload :: "string \<Rightarrow> workflow_run option \<Rightarrow> workflow_run_event \<Rightarrow> payload
    \<Rightarrow> history_error + workflow_run" where
  "apply_payload run_id run e p =
     (case p of
        WorkflowRunCreatedPayload name defs \<Rightarrow> apply_created run_id run e name defs
      | _ \<Rightarrow>
        (case run of
           None \<Rightarrow> Inl NoCreation
         | Some r \<Rightarrow>
             if wr_status r \<noteq> RUNNING then Inl EventAfterTerminal
             else (case p of
                WorkflowRunCompletedPayload \<Rightarrow> apply_run_completed r e
              | WorkflowRunFailedPayload step_id error \<Rightarrow> apply_run_failed r e step_id error
              | _ \<Rightarrow> apply_step_payload r e p)))"

definition apply_event :: "string \<Rightarrow> workflow_run option \<Rightarrow> int \<Rightarrow> workflow_run_event
    \<Rightarrow> history_error + workflow_run" where
  "apply_event run_id run expected e =
     (if ev_run_id e \<noteq> run_id then Inl MultipleRunIds
      else if ev_sequence e \<noteq> expected then Inl (SequenceGap expected (ev_sequence e))
      else if \<not> supported_schema_version (ev_schema_version e)
      then Inl (UnsupportedSchema (ev_schema_version e))
      else (case parse_payload (ev_event_type e) (ev_payload e) of
              None \<Rightarrow> Inl (InvalidPayload (ev_event_type e) (ev_sequence e))
            | Some p \<Rightarrow> apply_payload run_id run e p))"

fun fold_events :: "string \<Rightarrow> workflow_run option \<Rightarrow> int \<Rightarrow> workflow_run_event list
    \<Rightarrow> history_error + workflow_run option" where
  "fold_events run_id run expected [] = Inr run"
| "fold_events run_id run expected (e # es) =
     rbind (apply_event run_id run expected e) (\<lambda>r.
       fold_events run_id (Some r) (expected + 1) es)"

text \<open>The checks after the loop: a failed or a finished run must say so.\<close>

definition check_outcome :: "workflow_run \<Rightarrow> history_error + workflow_run" where
  "check_outcome run =
     (if wr_status run = RUNNING \<and> list_ex (\<lambda>s. st_status s = STEP_FAILED) (wr_steps run)
      then Inl MissingRunFailed
      else if wr_status run = RUNNING \<and> list_all (\<lambda>s. st_status s = STEP_COMPLETED) (wr_steps run)
      then Inl MissingRunCompleted
      else Inr run)"

definition reduce_workflow_run_history :: "workflow_run_event list \<Rightarrow> history_error + workflow_run" where
  "reduce_workflow_run_history events =
     (case events of
        [] \<Rightarrow> Inl EmptyHistory
      | e # _ \<Rightarrow>
          rbind (fold_events (ev_run_id e) None 1 events) (\<lambda>run.
            (case run of None \<Rightarrow> Inl NoCreation | Some r \<Rightarrow> check_outcome r)))"

section \<open>The fold, event by event\<close>

lemma fold_events_append:
  "fold_events run_id run n (es @ fs) =
     rbind (fold_events run_id run n es) (\<lambda>r. fold_events run_id r (n + int (length es)) fs)"
  by (induction es arbitrary: run n) (auto simp: rbind_def algebra_simps split: sum.splits)

lemma fold_events_snoc:
  "fold_events run_id run n (es @ [e]) =
     rbind (fold_events run_id run n es) (\<lambda>r.
       rbind (apply_event run_id r (n + int (length es)) e) (\<lambda>r'. Inr (Some r')))"
  by (simp add: fold_events_append rbind_def split: sum.splits)

lemma fold_events_nonempty:
  "fold_events run_id run n es = Inr r \<Longrightarrow> es \<noteq> [] \<Longrightarrow> \<exists>s. r = Some s"
  by (induction es arbitrary: run n) (auto simp: rbind_Inr_iff, metis fold_events.simps(1) sum.inject(2))

lemma fold_events_header:
  assumes "fold_events run_id run n es = Inr r"
  shows "map ev_sequence es = map (\<lambda>k. n + int k) [0..<length es]"
    and "\<forall>e \<in> set es. ev_run_id e = run_id"
  using assms
proof (induction es arbitrary: run n)
  case Nil
  { case 1 then show ?case by simp }
  { case 2 then show ?case by simp }
next
  case (Cons e es)
  { case 1
    then obtain s where a: "apply_event run_id run n e = Inr s"
      and f: "fold_events run_id (Some s) (n + 1) es = Inr r"
      by (auto simp: rbind_Inr_iff)
    from a have "ev_sequence e = n" by (auto simp: apply_event_def split: if_splits)
    with Cons.IH(1) [OF f] show ?case
      by (simp add: upt_conv_Cons map_Suc_upt [symmetric] comp_def algebra_simps del: upt_Suc) }
  { case 2
    then obtain s where a: "apply_event run_id run n e = Inr s"
      and f: "fold_events run_id (Some s) (n + 1) es = Inr r"
      by (auto simp: rbind_Inr_iff)
    from a have "ev_run_id e = run_id" by (auto simp: apply_event_def split: if_splits)
    with Cons.IH(2) [OF f] show ?case by simp }
qed

end
