(* ===== verification/Graph.thy ===== *)
theory Graph
  imports History
begin

text \<open>
  The two cycle checks. \<open>models.py\<close> validates a submitted definition with a queue
  (Kahn's algorithm on mutable dependency sets); \<open>history.py\<close> revalidates the recorded
  definition by repeatedly taking the first ready step. Both are shown to decide the
  same thing: the dependency relation is acyclic.
\<close>

section \<open>Acyclic dependencies and stuck sets\<close>

definition dependency_relation :: "string list \<Rightarrow> (string \<Rightarrow> string list) \<Rightarrow> (string \<times> string) set" where
  "dependency_relation ids deps = {(d, s). s \<in> set ids \<and> d \<in> set (deps s)}"

text \<open>A set of steps none of which can ever become ready.\<close>

definition stuck :: "(string \<Rightarrow> string list) \<Rightarrow> string set \<Rightarrow> bool" where
  "stuck deps S \<longleftrightarrow> S \<noteq> {} \<and> (\<forall>s \<in> S. set (deps s) \<inter> S \<noteq> {})"

lemma stuckD: "stuck deps S \<Longrightarrow> z \<in> S \<Longrightarrow> \<exists>y. y \<in> set (deps z) \<and> y \<in> S"
  by (auto simp: stuck_def)

lemma stuckI: "S \<noteq> {} \<Longrightarrow> (\<And>z. z \<in> S \<Longrightarrow> \<exists>y. y \<in> set (deps z) \<and> y \<in> S) \<Longrightarrow> stuck deps S"
  by (fastforce simp: stuck_def)

lemma stuck_nonempty: "stuck deps S \<Longrightarrow> S \<noteq> {}"
  by (simp add: stuck_def)

definition no_stuck :: "string list \<Rightarrow> (string \<Rightarrow> string list) \<Rightarrow> bool" where
  "no_stuck ids deps \<longleftrightarrow> \<not> (\<exists>S \<subseteq> set ids. stuck deps S)"

lemma finite_dependency_relation: "finite (dependency_relation ids deps)"
proof -
  have "dependency_relation ids deps = (\<Union>s \<in> set ids. (\<lambda>d. (d, s)) ` set (deps s))"
    by (auto simp: dependency_relation_def)
  then show ?thesis by simp
qed

lemma acyclic_iff_no_stuck: "acyclic (dependency_relation ids deps) \<longleftrightarrow> no_stuck ids deps"
proof
  assume "acyclic (dependency_relation ids deps)"
  then have wf: "wf (dependency_relation ids deps)"
    by (intro finite_acyclic_wf finite_dependency_relation)
  show "no_stuck ids deps"
    unfolding no_stuck_def
  proof
    assume "\<exists>S \<subseteq> set ids. stuck deps S"
    then obtain S where S: "S \<subseteq> set ids" "stuck deps S" by blast
    then obtain z where "z \<in> S" "\<forall>y. (y, z) \<in> dependency_relation ids deps \<longrightarrow> y \<notin> S"
      using wf unfolding wf_eq_minimal stuck_def by (metis all_not_in_conv)
    moreover from this S obtain y where "y \<in> set (deps z)" "y \<in> S" by (blast dest: stuckD)
    ultimately show False using S by (auto simp: dependency_relation_def)
  qed
next
  assume ns: "no_stuck ids deps"
  have "wf (dependency_relation ids deps)"
    unfolding wf_eq_minimal
  proof (intro allI impI)
    fix Q :: "string set" and x assume x: "x \<in> Q"
    show "\<exists>z \<in> Q. \<forall>y. (y, z) \<in> dependency_relation ids deps \<longrightarrow> y \<notin> Q"
    proof (cases "Q \<inter> set ids = {}")
      case True
      with x show ?thesis by (auto simp: dependency_relation_def)
    next
      case False
      with ns obtain z where z: "z \<in> Q" "z \<in> set ids" "set (deps z) \<inter> (Q \<inter> set ids) = {}"
        unfolding no_stuck_def stuck_def by (metis IntD1 IntD2 inf_le2)
      show ?thesis
      proof (cases "set (deps z) \<inter> Q = {}")
        case True
        with z show ?thesis by (auto simp: dependency_relation_def)
      next
        case False
        then obtain y where y: "y \<in> set (deps z)" "y \<in> Q" by auto
        with z have "y \<notin> set ids" by auto
        then have "\<forall>w. (w, y) \<notin> dependency_relation ids deps"
          by (auto simp: dependency_relation_def)
        with y show ?thesis by blast
      qed
    qed
  qed
  then show "acyclic (dependency_relation ids deps)" by (rule wf_acyclic)
qed

section \<open>The queue of \<open>validate_graph\<close>\<close>

lemma relax_eq:
  assumes "distinct cs"
  shows "relax current visited cs deps ready =
    (\<lambda>c. if c \<in> set cs then filter (\<lambda>d. d \<noteq> current) (deps c) else deps c,
     ready @ filter (\<lambda>c. current \<in> set (deps c) \<and> filter (\<lambda>d. d \<noteq> current) (deps c) = [] \<and>
                         c \<notin> set visited \<and> c \<notin> set ready) cs)"
  using assms
proof (induction cs arbitrary: deps ready)
  case Nil
  then show ?case by simp
next
  case (Cons c cs)
  let ?d = "deps(c := filter (\<lambda>d. d \<noteq> current) (deps c))"
  have c: "c \<notin> set cs" and dist: "distinct cs" using Cons.prems by auto
  have same: "current \<notin> set (deps c) \<Longrightarrow> filter (\<lambda>d. d \<noteq> current) (deps c) = deps c"
    by (auto simp: filter_id_conv)
  have fun_eq: "(\<lambda>x. if x \<in> set cs then filter (\<lambda>d. d \<noteq> current) (?d x) else ?d x) =
      (\<lambda>x. if x \<in> set (c # cs) then filter (\<lambda>d. d \<noteq> current) (deps x) else deps x)"
    using c by auto
  have f: "filter (\<lambda>x. current \<in> set (?d x) \<and> filter (\<lambda>d. d \<noteq> current) (?d x) = [] \<and>
        x \<notin> set visited \<and> x \<notin> set r) cs =
      filter (\<lambda>x. current \<in> set (deps x) \<and> filter (\<lambda>d. d \<noteq> current) (deps x) = [] \<and>
        x \<notin> set visited \<and> x \<notin> set ready) cs"
    if "r = ready \<or> r = ready @ [c]" for r
    using that c by (intro filter_cong) auto
  show ?case
  proof (cases "current \<in> set (deps c)")
    case False
    then have "deps = ?d" using same by auto
    with False Cons.IH [OF dist, of deps ready] show ?thesis by (auto simp: same)
  next
    case True
    define r where "r = (if filter (\<lambda>d. d \<noteq> current) (deps c) = [] \<and> c \<notin> set visited \<and> c \<notin> set ready
      then ready @ [c] else ready)"
    then have r: "r = ready \<or> r = ready @ [c]" by simp
    have "relax current visited (c # cs) deps ready = relax current visited cs ?d r"
      using True by (auto simp: Let_def r_def simp del: fun_upd_apply) (simp_all add: fun_upd_same)
    with True show ?thesis
      unfolding Cons.IH [OF dist, of ?d r] fun_eq f [OF r] by (simp add: r_def)
  qed
qed

text \<open>
  What holds at the head of the \<open>while ready\<close> loop: the current sets are the original
  ones without the visited steps; exactly the visited and queued steps have empty sets.
\<close>

definition queue_inv :: "string list \<Rightarrow> (string \<Rightarrow> string list) \<Rightarrow> (string \<Rightarrow> string list)
    \<Rightarrow> string list \<Rightarrow> string list \<Rightarrow> bool" where
  "queue_inv ids deps0 deps ready visited \<longleftrightarrow>
     distinct (visited @ ready) \<and> set (visited @ ready) \<subseteq> set ids \<and>
     (\<forall>c \<in> set ids. set (deps c) = set (deps0 c) - set visited) \<and>
     (\<forall>c \<in> set ids. deps c = [] \<longleftrightarrow> c \<in> set visited \<union> set ready)"

lemma queue_inv_init:
  assumes "distinct ids"
  shows "queue_inv ids deps deps (filter (\<lambda>i. deps i = []) ids) []"
  using assms by (auto simp: queue_inv_def)

lemma queue_inv_step:
  assumes inv: "queue_inv ids deps0 deps (current # ready) visited" and dist: "distinct ids"
    and relax: "relax current (visited @ [current]) ids deps ready = (deps', ready')"
  shows "queue_inv ids deps0 deps' ready' (visited @ [current])"
proof -
  let ?new = "filter (\<lambda>c. current \<in> set (deps c) \<and> filter (\<lambda>d. d \<noteq> current) (deps c) = [] \<and>
      c \<notin> set (visited @ [current]) \<and> c \<notin> set ready) ids"
  have deps': "deps' c = filter (\<lambda>d. d \<noteq> current) (deps c)" if "c \<in> set ids" for c
    using relax that by (auto simp: relax_eq [OF dist])
  have ready': "ready' = ready @ ?new"
    using relax by (auto simp: relax_eq [OF dist])
  have emp: "deps c = [] \<longleftrightarrow> c \<in> set visited \<union> set (current # ready)" if "c \<in> set ids" for c
    using inv that by (simp add: queue_inv_def)
  have "distinct ((visited @ [current]) @ ready')"
    using inv dist by (auto simp: queue_inv_def ready')
  moreover have "set ((visited @ [current]) @ ready') \<subseteq> set ids"
    using inv by (auto simp: queue_inv_def ready')
  moreover have "\<forall>c \<in> set ids. set (deps' c) = set (deps0 c) - set (visited @ [current])"
    using inv by (auto simp: queue_inv_def deps')
  moreover have "deps' c = [] \<longleftrightarrow> c \<in> set (visited @ [current]) \<union> set ready'"
    if c: "c \<in> set ids" for c
  proof (cases "current \<in> set (deps c)")
    case True
    then have "deps c \<noteq> []" by auto
    with emp [OF c] have "c \<notin> set visited \<union> set (current # ready)" by blast
    with True c show ?thesis by (auto simp: deps' ready')
  next
    case False
    then have "deps' c = deps c" using c by (auto simp: deps' filter_id_conv)
    with False emp [OF c] show ?thesis by (auto simp: ready')
  qed
  ultimately show ?thesis by (simp add: queue_inv_def)
qed

lemma visit_ready_inv:
  assumes "queue_inv ids deps0 deps ready visited" and "distinct ids"
  shows "\<exists>deps'. queue_inv ids deps0 deps' [] (visit_ready ids deps ready visited)"
  using assms
proof (induction ids deps ready visited rule: visit_ready.induct)
  case (1 ids deps visited)
  then show ?case by auto
next
  case (2 ids deps current ready visited)
  then show ?case
    by (cases "relax current (visited @ [current]) ids deps ready")
      (use queue_inv_step in \<open>auto simp del: append_assoc\<close>)
qed

lemma visit_ready_avoids_stuck:
  assumes "queue_inv ids deps0 deps ready visited" and "distinct ids"
    and "stuck deps0 S" and "S \<inter> set visited = {}"
  shows "S \<inter> set (visit_ready ids deps ready visited) = {}"
  using assms
proof (induction ids deps ready visited rule: visit_ready.induct)
  case (1 ids deps visited)
  then show ?case by simp
next
  case (2 ids deps current ready visited)
  obtain deps' ready' where r: "relax current (visited @ [current]) ids deps ready = (deps', ready')"
    by force
  have cur: "current \<in> set ids" "deps current = []"
    using "2.prems"(1) by (auto simp: queue_inv_def)
  then have "set (deps0 current) \<subseteq> set visited"
    using "2.prems"(1) by (fastforce simp: queue_inv_def)
  with "2.prems"(3,4) have "current \<notin> S" by (blast dest: stuckD)
  with "2.prems"(4) have "S \<inter> set (visited @ [current]) = {}" by auto
  with "2.IH" [OF r [symmetric]] r "2.prems" queue_inv_step [OF "2.prems"(1,2) r]
  show ?case by simp
qed

theorem visit_ready_complete:
  assumes dist: "distinct ids" and closed: "\<forall>c \<in> set ids. set (deps c) \<subseteq> set ids"
  shows "length (visit_ready ids deps (filter (\<lambda>i. deps i = []) ids) []) = length ids
    \<longleftrightarrow> no_stuck ids deps"
proof -
  let ?v = "visit_ready ids deps (filter (\<lambda>i. deps i = []) ids) []"
  have init: "queue_inv ids deps deps (filter (\<lambda>i. deps i = []) ids) []"
    using dist by (rule queue_inv_init)
  from visit_ready_inv [OF init dist] obtain deps' where q: "queue_inv ids deps deps' [] ?v" by auto
  then have v: "distinct ?v" "set ?v \<subseteq> set ids" by (auto simp: queue_inv_def)
  have len: "length ?v = length ids \<longleftrightarrow> set ?v = set ids"
    using v dist by (metis card_subset_eq distinct_card finite_set)
  show ?thesis
  proof
    assume "length ?v = length ids"
    then have all: "set ?v = set ids" by (simp add: len)
    show "no_stuck ids deps"
      using visit_ready_avoids_stuck [OF init dist] all stuck_nonempty
      unfolding no_stuck_def by (metis inf.absorb_iff1 inf_bot_right list.set(1))
  next
    assume ns: "no_stuck ids deps"
    show "length ?v = length ids"
    proof (rule ccontr)
      assume "length ?v \<noteq> length ids"
      then have ne: "set ids - set ?v \<noteq> {}" using v by (auto simp: len)
      have "\<exists>y. y \<in> set (deps s) \<and> y \<in> set ids - set ?v" if s: "s \<in> set ids - set ?v" for s
      proof -
        from q s have "set (deps' s) = set (deps s) - set ?v" "deps' s \<noteq> []"
          by (auto simp: queue_inv_def)
        then have "set (deps s) - set ?v \<noteq> {}" by (metis set_empty)
        with s closed show ?thesis by blast
      qed
      with ne have "stuck deps (set ids - set ?v)" by (rule stuckI)
      with ns show False unfolding no_stuck_def by blast
    qed
  qed
qed

section \<open>The ready-step loop of \<open>_validate_definitions\<close>\<close>

text \<open>The loop's sets, read off the recorded definitions.\<close>

definition recorded_deps :: "step_definition list \<Rightarrow> string \<Rightarrow> string list" where
  "recorded_deps defs i = (case find (\<lambda>d. sd_id d = i) defs of
     None \<Rightarrow> [] | Some d \<Rightarrow> sd_depends_on d)"

lemma recorded_deps_eq:
  "distinct (map sd_id defs) \<Longrightarrow> d \<in> set defs \<Longrightarrow> recorded_deps defs (sd_id d) = sd_depends_on d"
  by (simp add: recorded_deps_def find_distinct_eq)

lemma ready_ids_iff:
  "i \<in> set (ready_ids defs visited) \<longleftrightarrow>
    (\<exists>d \<in> set defs. sd_id d = i \<and> i \<notin> set visited \<and> set (sd_depends_on d) \<subseteq> set visited)"
  by (auto simp: ready_ids_def)

lemma visit_definitions_step:
  "length visited < length defs \<Longrightarrow> ready_ids defs visited = i # rest \<Longrightarrow>
     visit_definitions defs visited = visit_definitions defs (i # visited)"
  by (subst visit_definitions.simps) simp

lemma unready_stuck:
  assumes dist: "distinct (map sd_id defs)"
    and closed: "\<forall>d \<in> set defs. set (sd_depends_on d) \<subseteq> set (map sd_id defs)"
    and "distinct visited" and "length visited < length defs" and none: "ready_ids defs visited = []"
  shows "stuck (recorded_deps defs) (set (map sd_id defs) - set visited)"
proof (rule stuckI)
  let ?ids = "map sd_id defs"
  show "set ?ids - set visited \<noteq> {}"
  proof
    assume "set ?ids - set visited = {}"
    then have "card (set ?ids) \<le> card (set visited)" by (intro card_mono) auto
    then show False using assms by (simp add: distinct_card del: set_map)
  qed
  show "\<exists>y. y \<in> set (recorded_deps defs s) \<and> y \<in> set ?ids - set visited" if s: "s \<in> set ?ids - set visited" for s
  proof -
    from s obtain d where d: "d \<in> set defs" "sd_id d = s" by auto
    with none ready_ids_iff [of s defs visited] s have "\<not> set (sd_depends_on d) \<subseteq> set visited" by auto
    moreover have "set (sd_depends_on d) \<subseteq> set ?ids" using d(1) closed by blast
    ultimately show ?thesis using recorded_deps_eq [OF dist d(1)] d(2) by auto
  qed
qed

lemma visit_definitions_iff:
  assumes dist: "distinct (map sd_id defs)"
    and closed: "\<forall>d \<in> set defs. set (sd_depends_on d) \<subseteq> set (map sd_id defs)"
    and "distinct visited" and "set visited \<subseteq> set (map sd_id defs)"
    and "\<forall>S \<subseteq> set (map sd_id defs). stuck (recorded_deps defs) S \<longrightarrow> S \<inter> set visited = {}"
  shows "(\<exists>v. visit_definitions defs visited = Inr v) \<longleftrightarrow>
    no_stuck (map sd_id defs) (recorded_deps defs)"
  using assms
proof (induction defs visited rule: visit_definitions.induct)
  case (1 defs visited)
  let ?ids = "map sd_id defs"
  show ?case
  proof (cases "length visited < length defs")
    case False
    then have "card (set ?ids) \<le> card (set visited)"
      using "1.prems" by (simp add: distinct_card del: set_map)
    then have "set visited = set ?ids"
      using "1.prems"(4) by (intro card_seteq) auto
    then have "no_stuck ?ids (recorded_deps defs)"
      using "1.prems"(5) stuck_nonempty unfolding no_stuck_def
      by (metis inf.absorb_iff1)
    with False show ?thesis by (simp add: visit_definitions.simps)
  next
    case True
    show ?thesis
    proof (cases "ready_ids defs visited")
      case Nil
      then have "\<not> no_stuck ?ids (recorded_deps defs)"
        using unready_stuck [OF "1.prems"(1-3) True] unfolding no_stuck_def by blast
      with True Nil show ?thesis by (simp add: visit_definitions.simps)
    next
      case (Cons i rest)
      then have "i \<in> set (ready_ids defs visited)" by simp
      then obtain d where d: "d \<in> set defs" "sd_id d = i" "i \<notin> set visited"
        "set (sd_depends_on d) \<subseteq> set visited" by (auto simp: ready_ids_iff)
      have "S \<inter> set (i # visited) = {}"
        if S: "S \<subseteq> set ?ids" "stuck (recorded_deps defs) S" for S
      proof -
        have disj: "S \<inter> set visited = {}" using S "1.prems"(5) by blast
        have "set (recorded_deps defs i) \<subseteq> set visited"
          using d recorded_deps_eq [OF "1.prems"(1) d(1)] by simp
        with disj S(2) have "i \<notin> S" by (blast dest: stuckD)
        with disj show ?thesis by simp
      qed
      then show ?thesis
        using "1.IH" [OF True Cons] "1.prems" d visit_definitions_step [OF True Cons] by auto
    qed
  qed
qed

corollary visit_definitions_complete:
  assumes "distinct (map sd_id defs)"
    and "\<forall>d \<in> set defs. set (sd_depends_on d) \<subseteq> set (map sd_id defs)"
  shows "(\<exists>v. visit_definitions defs [] = Inr v) \<longleftrightarrow>
    acyclic (dependency_relation (map sd_id defs) (recorded_deps defs))"
  using visit_definitions_iff [OF assms] by (simp add: acyclic_iff_no_stuck)

section \<open>What acceptance means\<close>

lemma dependency_sets_eq:
  "distinct (map ws_id ss) \<Longrightarrow> s \<in> set ss \<Longrightarrow> dependency_sets ss (ws_id s) = ws_depends_on s"
  unfolding dependency_sets_def
  by (subst map_of_is_SomeI [of _ _ "ws_depends_on s"]) (auto simp: comp_def)

lemma check_steps_None:
  "check_steps known ss = None \<longleftrightarrow>
    (\<forall>s \<in> set ss. distinct (ws_depends_on s) \<and> ws_id s \<notin> set (ws_depends_on s) \<and>
       set (ws_depends_on s) \<subseteq> set known)"
  by (induction ss) (auto split: list.splits simp: filter_empty_conv, auto simp: filter_eq_Cons_iff)

text \<open>A well-formed graph: unique ids, duplicate-free dependencies on other known steps, no cycle.\<close>

definition sound_graph :: "workflow_step list \<Rightarrow> bool" where
  "sound_graph ss \<longleftrightarrow> distinct (map ws_id ss) \<and>
     (\<forall>s \<in> set ss. distinct (ws_depends_on s) \<and> ws_id s \<notin> set (ws_depends_on s) \<and>
        set (ws_depends_on s) \<subseteq> set (map ws_id ss)) \<and>
     acyclic (dependency_relation (map ws_id ss) (dependency_sets ss))"

lemma validate_graph_sound: "validate_graph d = None \<longleftrightarrow> sound_graph (wd_steps d)"
proof -
  let ?ss = "wd_steps d" and ?ids = "map ws_id (wd_steps d)"
  have complete: "length (visit_ready ?ids (dependency_sets ?ss)
        (filter (\<lambda>i. dependency_sets ?ss i = []) ?ids) []) = length ?ids \<longleftrightarrow>
      acyclic (dependency_relation ?ids (dependency_sets ?ss))"
    if "distinct ?ids" and "check_steps ?ids ?ss = None"
  proof -
    have "\<forall>c \<in> set ?ids. set (dependency_sets ?ss c) \<subseteq> set ?ids"
      using that by (auto simp: check_steps_None dependency_sets_eq)
    from visit_ready_complete [OF that(1) this] show ?thesis
      by (simp add: acyclic_iff_no_stuck)
  qed
  show ?thesis
    using complete check_steps_None [of ?ids ?ss]
    by (auto simp: validate_graph_def sound_graph_def Let_def split: option.splits)
qed

text \<open>C23: \<open>WorkflowDefinition.validate_graph\<close> accepts exactly the definitions with unique
  step ids, duplicate-free dependencies on other, known steps, and an acyclic dependency
  relation: the queue loop misses no cycle and reports none that is not there.\<close>

theorem validate_graph_iff: "validate_graph d = None \<longleftrightarrow> sound_graph (wd_steps d)"
  by (rule validate_graph_sound)

end
