(* ===== verification/History_Facts.thy ===== *)
theory History_Facts
  imports Graph
begin

text \<open>
  What the reducer guarantees of every run it returns: well-formedness (unique ids,
  contiguous positions, stable keys, legal combinations of status and fields, dependencies
  completed before a step leaves \<open>pending\<close>), immutability of the recorded definition,
  finality of completed steps and of terminal runs.
\<close>

section \<open>Well-formed runs\<close>

definition step_ids :: "workflow_run \<Rightarrow> string list" where
  "step_ids run = map st_id (wr_steps run)"

text \<open>The fields of a step that no event may change.\<close>

definition immutable :: "step_record \<Rightarrow> string \<times> string \<times> int \<times> step_name \<times> string list \<times> json
    \<times> string \<times> string \<times> timestamp" where
  "immutable s = (st_id s, st_run_id s, st_position s, st_operation s, st_depends_on s,
     st_request s, st_operation_key s, st_tool_key s, st_created_at s)"

text \<open>Legal combinations of the mutable fields.\<close>

definition fields_ok :: "step_record \<Rightarrow> bool" where
  "fields_ok s \<longleftrightarrow>
     0 \<le> st_attempts s \<and> (st_status s = STEP_PENDING \<longleftrightarrow> st_attempts s = 0) \<and>
     (st_next_attempt_at s \<noteq> None \<longleftrightarrow> st_status s = STEP_RETRY_WAIT) \<and>
     (st_last_error s \<noteq> None \<longleftrightarrow> st_status s = STEP_RETRY_WAIT \<or> st_status s = STEP_FAILED) \<and>
     (st_output s \<noteq> None \<longleftrightarrow> st_status s = STEP_COMPLETED) \<and>
     (st_completed_at s \<noteq> None \<longleftrightarrow> st_status s = STEP_COMPLETED)"

definition identity_ok :: "workflow_run \<Rightarrow> step_record \<Rightarrow> bool" where
  "identity_ok run s \<longleftrightarrow> st_run_id s = wr_run_id run \<and>
     st_operation_key s = wr_run_id run @ '':'' @ st_id s \<and>
     distinct (st_depends_on s) \<and> st_id s \<notin> set (st_depends_on s) \<and>
     set (st_depends_on s) \<subseteq> set (step_ids run)"

definition run_deps :: "workflow_run \<Rightarrow> string \<Rightarrow> string list" where
  "run_deps run i = (case find (\<lambda>s. st_id s = i) (wr_steps run) of
     None \<Rightarrow> [] | Some s \<Rightarrow> st_depends_on s)"

definition wf_run :: "workflow_run \<Rightarrow> bool" where
  "wf_run run \<longleftrightarrow>
     wr_steps run \<noteq> [] \<and> distinct (step_ids run) \<and>
     map st_position (wr_steps run) = map int [0..<length (wr_steps run)] \<and>
     acyclic (dependency_relation (step_ids run) (run_deps run)) \<and>
     (\<forall>s \<in> set (wr_steps run). identity_ok run s \<and> fields_ok s \<and>
        (st_status s \<noteq> STEP_PENDING \<longrightarrow>
           set (st_depends_on s) \<subseteq> set (completed_ids (wr_steps run)))) \<and>
     (wr_status run = COMPLETED \<longrightarrow> (\<forall>s \<in> set (wr_steps run). st_status s = STEP_COMPLETED)) \<and>
     (wr_status run = FAILED \<longrightarrow> (\<exists>s \<in> set (wr_steps run). st_status s = STEP_FAILED)) \<and>
     (wr_completed_at run \<noteq> None \<longleftrightarrow> wr_status run = COMPLETED)"

section \<open>One step event\<close>

lemma runnable_status_iff:
  "runnable_status s \<longleftrightarrow> s \<noteq> STEP_COMPLETED \<and> s \<noteq> STEP_FAILED"
  by (cases s) (auto simp: runnable_status_def)

lemmas step_updates = start_attempt_def schedule_step_retry_def finish_step_def mark_step_failed_def

lemma immutable_eqD:
  assumes "immutable x = immutable y"
  shows "st_id x = st_id y" and "st_depends_on x = st_depends_on y"
    and "st_run_id x = st_run_id y" and "st_operation_key x = st_operation_key y"
    and "st_position x = st_position y" and "st_request x = st_request y"
    and "st_operation x = st_operation y" and "st_tool_key x = st_tool_key y"
  using assms by (simp_all add: immutable_def)

lemma immutable_updates [simp]:
  "immutable (start_attempt at n s) = immutable s"
  "immutable (schedule_step_retry at er nx s) = immutable s"
  "immutable (finish_step at out s) = immutable s"
  "immutable (mark_step_failed at er s) = immutable s"
  by (simp_all add: immutable_def step_updates)

text \<open>A step event that is accepted applies one of the four updates, under its guard.\<close>

lemma apply_step_event_cases:
  assumes "apply_step_event run s e n p = Inr s'"
  obtains (start) "s' = start_attempt (ev_occurred_at e) n s" "runnable_status (st_status s)"
      "n = st_attempts s + 1" "set (st_depends_on s) \<subseteq> set (completed_ids (wr_steps run))"
      "\<exists>w f. p = StepAttemptStartedPayload (st_operation s) (st_request s) (st_operation_key s) w f"
  | (retry) er nx where "s' = schedule_step_retry (ev_occurred_at e) er nx s"
      "p = StepRetryScheduledPayload er nx" "st_status s = STEP_INTENT_RECORDED" "n = st_attempts s"
  | (completed) out where "s' = finish_step (ev_occurred_at e) out s"
      "p = StepCompletedPayload out" "st_status s = STEP_INTENT_RECORDED" "n = st_attempts s"
  | (failed) er where "s' = mark_step_failed (ev_occurred_at e) er s"
      "p = StepFailedPayload er" "st_status s = STEP_INTENT_RECORDED" "n = st_attempts s"
  using assms by (cases p) (auto simp: require_current_attempt_def split: if_splits)

lemma fields_ok_updates:
  assumes "fields_ok s"
  shows "runnable_status (st_status s) \<Longrightarrow> fields_ok (start_attempt at (st_attempts s + 1) s)"
    and "st_status s = STEP_INTENT_RECORDED \<Longrightarrow> fields_ok (schedule_step_retry at er nx s)"
    and "st_status s = STEP_INTENT_RECORDED \<Longrightarrow> fields_ok (finish_step at out s)"
    and "st_status s = STEP_INTENT_RECORDED \<Longrightarrow> fields_ok (mark_step_failed at er s)"
  using assms by (auto simp: fields_ok_def step_updates runnable_status_iff)

lemma apply_step_event_facts:
  assumes "apply_step_event run s e n p = Inr s'"
  shows "immutable s' = immutable s" and "runnable_status (st_status s)"
    and "st_status s = STEP_PENDING \<Longrightarrow> set (st_depends_on s) \<subseteq> set (completed_ids (wr_steps run))"
    and "fields_ok s \<Longrightarrow> runnable_status (st_status s) \<Longrightarrow> fields_ok s'"
  using assms by (cases rule: apply_step_event_cases; simp add: runnable_status_def fields_ok_updates)+

lemma apply_step_payload_elim:
  assumes "apply_step_payload run e p = Inr run'" and "distinct (step_ids run)"
  obtains i n s s' where "ev_step_id e = Some i" and "ev_attempt e = Some n"
    and "s \<in> set (wr_steps run)" and "st_id s = i" and "apply_step_event run s e n p = Inr s'"
    and "run' = run\<lparr>wr_steps := update_where (\<lambda>x. st_id x = i) (\<lambda>_. s') (wr_steps run)\<rparr>"
proof -
  from assms(1) obtain i n k s s' where *: "ev_step_id e = Some i" "ev_attempt e = Some n"
    "find_index (\<lambda>s. st_id s = i) (wr_steps run) = Some (k, s)"
    "apply_step_event run s e n p = Inr s'" "run' = run\<lparr>wr_steps := (wr_steps run)[k := s']\<rparr>"
    by (auto simp: apply_step_payload_def find_step_with_index_def rbind_Inr_iff
        split: option.splits)
  have "(wr_steps run)[k := s'] = update_where (\<lambda>x. st_id x = i) (\<lambda>_. s') (wr_steps run)"
    using list_update_find_index [OF *(3), of "\<lambda>_. s'"] assms(2) by (simp add: step_ids_def)
  with * find_index_Some [OF *(3)] that show ?thesis by auto
qed

section \<open>Preservation by a step event\<close>

lemma map_immutable_update:
  assumes "\<And>x. x \<in> set ss \<Longrightarrow> st_id x = i \<Longrightarrow> immutable (f x) = immutable x"
  shows "map immutable (update_where (\<lambda>x. st_id x = i) f ss) = map immutable ss"
  using assms by (auto simp: update_where_def)

lemma immutable_fields:
  assumes "map immutable ss' = map immutable ss"
  shows "map st_id ss' = map st_id ss" and "map st_position ss' = map st_position ss"
    and "map st_depends_on ss' = map st_depends_on ss"
proof -
  have "map (f \<circ> immutable) ss' = map (f \<circ> immutable) ss" for f :: "_ \<Rightarrow> 'b"
    using assms by (simp flip: map_map)
  from this [of fst] this [of "\<lambda>(_, _, p, _). p"] this [of "\<lambda>(_, _, _, _, d, _). d"]
  show "map st_id ss' = map st_id ss" and "map st_position ss' = map st_position ss"
    and "map st_depends_on ss' = map st_depends_on ss"
    by (simp_all add: comp_def immutable_def)
qed

lemma find_deps_cong:
  assumes "map immutable ss' = map immutable ss"
  shows "map_option st_depends_on (find (\<lambda>s. st_id s = i) ss') =
    map_option st_depends_on (find (\<lambda>s. st_id s = i) ss)"
  using assms
proof (induction ss' arbitrary: ss)
  case Nil
  then show ?case by simp
next
  case (Cons x xs)
  then obtain y ys where "ss = y # ys" "immutable x = immutable y" "map immutable xs = map immutable ys"
    by (cases ss) auto
  with Cons.IH [of ys] show ?case by (auto dest: immutable_eqD)
qed

lemma run_deps_cong:
  assumes "map immutable (wr_steps run') = map immutable (wr_steps run)"
  shows "run_deps run' = run_deps run"
proof
  fix i
  show "run_deps run' i = run_deps run i"
    using find_deps_cong [OF assms, of i]
    by (auto simp: run_deps_def split: option.splits)
qed

lemma completed_ids_mono:
  assumes "\<And>x. x \<in> set ss \<Longrightarrow> st_id x = i \<Longrightarrow> st_status x \<noteq> STEP_COMPLETED"
  shows "set (completed_ids ss) \<subseteq> set (completed_ids (update_where (\<lambda>x. st_id x = i) f ss))"
  using assms by (induction ss) (auto simp: completed_ids_def)

lemma in_completed_ids:
  "x \<in> set (completed_ids ss) \<longleftrightarrow> (\<exists>s \<in> set ss. st_id s = x \<and> st_status s = STEP_COMPLETED)"
  by (auto simp: completed_ids_def)

lemma distinct_id_eq:
  "distinct (map st_id ss) \<Longrightarrow> s \<in> set ss \<Longrightarrow> x \<in> set ss \<Longrightarrow> st_id x = st_id s \<Longrightarrow> x = s"
  by (induction ss) (auto simp: image_iff)

lemma wf_run_step_update:
  assumes wf: "wf_run run" and running: "wr_status run = RUNNING"
    and s: "s \<in> set (wr_steps run)" "runnable_status (st_status s)"
    and s': "immutable s' = immutable s" "fields_ok s'"
    and deps: "set (st_depends_on s) \<subseteq> set (completed_ids (wr_steps run))"
  shows "wf_run (run\<lparr>wr_steps := update_where (\<lambda>x. st_id x = st_id s) (\<lambda>_. s') (wr_steps run)\<rparr>)"
    (is "wf_run ?run'")
proof -
  let ?ss = "wr_steps run" and ?ss' = "update_where (\<lambda>x. st_id x = st_id s) (\<lambda>_. s') (wr_steps run)"
  have dist: "distinct (map st_id ?ss)" using wf by (simp add: wf_run_def step_ids_def)
  have only: "x = s" if "x \<in> set ?ss" "st_id x = st_id s" for x
    using distinct_id_eq [OF dist s(1) that] .
  have imm: "map immutable ?ss' = map immutable ?ss"
    by (rule map_immutable_update) (use only s' in auto)
  note flds = immutable_fields [OF imm]
  have mono: "set (completed_ids ?ss) \<subseteq> set (completed_ids ?ss')"
    by (rule completed_ids_mono) (use only s in \<open>auto simp: runnable_status_iff\<close>)
  have rd: "run_deps ?run' = run_deps run" by (rule run_deps_cong) (simp add: imm)
  have ids: "step_ids ?run' = step_ids run" by (simp add: step_ids_def flds)
  have mem: "x \<in> set ?ss \<and> st_id x \<noteq> st_id s \<or> x = s'" if "x \<in> set ?ss'" for x
    using that by (auto simp: set_update_where)
  have old: "identity_ok run x \<and> fields_ok x \<and> (st_status x \<noteq> STEP_PENDING \<longrightarrow>
      set (st_depends_on x) \<subseteq> set (completed_ids ?ss))" if "x \<in> set ?ss" for x
    using wf that by (simp add: wf_run_def)
  have new: "identity_ok run s'"
    using old [OF s(1)] immutable_eqD [OF s'(1)] by (simp add: identity_ok_def)
  have all: "identity_ok ?run' x \<and> fields_ok x \<and> (st_status x \<noteq> STEP_PENDING \<longrightarrow>
      set (st_depends_on x) \<subseteq> set (completed_ids ?ss'))" if "x \<in> set ?ss'" for x
    using mem [OF that]
  proof
    assume "x \<in> set ?ss \<and> st_id x \<noteq> st_id s"
    with old [of x] mono show ?thesis by (auto simp: identity_ok_def ids)
  next
    assume x: "x = s'"
    have "set (st_depends_on s') \<subseteq> set (completed_ids ?ss')"
      using immutable_eqD [OF s'(1)] deps mono by auto
    with x new s'(2) show ?thesis by (simp add: identity_ok_def ids)
  qed
  have ne: "?ss' \<noteq> []" using s(1) by (auto simp: update_where_def)
  show ?thesis
    using wf running all ne by (simp add: wf_run_def ids rd flds)
qed

lemma wf_run_status_update:
  assumes "wf_run r" and "wr_run_id r' = wr_run_id r" and "wr_steps r' = wr_steps r"
    and "wr_status r' = COMPLETED \<Longrightarrow> \<forall>s \<in> set (wr_steps r). st_status s = STEP_COMPLETED"
    and "wr_status r' = FAILED \<Longrightarrow> \<exists>s \<in> set (wr_steps r). st_status s = STEP_FAILED"
    and "wr_completed_at r' \<noteq> None \<longleftrightarrow> wr_status r' = COMPLETED"
  shows "wf_run r'"
proof -
  have "step_ids r' = step_ids r" "run_deps r' = run_deps r"
    using assms(3) by (simp_all add: step_ids_def run_deps_def fun_eq_iff)
  moreover from this have "identity_ok r' s = identity_ok r s" for s
    using assms(2) by (simp add: identity_ok_def)
  ultimately show ?thesis using assms by (simp add: wf_run_def)
qed

section \<open>The whole fold\<close>

lemma apply_payload_cases:
  assumes "apply_payload run_id run e p = Inr run'"
  obtains (created) name defs where "p = WorkflowRunCreatedPayload name defs"
      "apply_created run_id run e name defs = Inr run'"
  | (completed) r where "p = WorkflowRunCompletedPayload" "run = Some r" "wr_status r = RUNNING"
      "apply_run_completed r e = Inr run'"
  | (failed) r i er where "p = WorkflowRunFailedPayload i er" "run = Some r" "wr_status r = RUNNING"
      "apply_run_failed r e i er = Inr run'"
  | (step) r where "run = Some r" "wr_status r = RUNNING" "apply_step_payload r e p = Inr run'"
  using assms unfolding apply_payload_def
  by (cases p; cases run; simp split: if_splits; blast)

lemma apply_event_payload:
  assumes "apply_event run_id run n e = Inr run'"
  shows "ev_run_id e = run_id" and "ev_sequence e = n"
    and "payload_model (ev_payload e) = Some (ev_event_type e)"
    and "apply_payload run_id run e (ev_payload e) = Inr run'"
  using assms by (auto simp: apply_event_def parse_payload_def split: if_splits)

lemma check_definitions_Inr:
  "check_definitions run_id known defs = Inr u \<longleftrightarrow>
    (\<forall>d \<in> set defs. sd_operation_key d = run_id @ '':'' @ sd_id d \<and> distinct (sd_depends_on d) \<and>
       sd_id d \<notin> set (sd_depends_on d) \<and> set (sd_depends_on d) \<subseteq> set known)"
  by (induction defs) auto

lemma validate_definitions_Inr:
  "validate_definitions run_id defs = Inr u \<longleftrightarrow>
    defs \<noteq> [] \<and> map sd_position defs = map int [0..<length defs] \<and> distinct (map sd_id defs) \<and>
    (\<forall>d \<in> set defs. sd_operation_key d = run_id @ '':'' @ sd_id d \<and> distinct (sd_depends_on d) \<and>
       sd_id d \<notin> set (sd_depends_on d) \<and> set (sd_depends_on d) \<subseteq> set (map sd_id defs)) \<and>
    acyclic (dependency_relation (map sd_id defs) (recorded_deps defs))"
proof -
  have "(\<exists>v. visit_definitions defs [] = Inr v) \<longleftrightarrow>
      acyclic (dependency_relation (map sd_id defs) (recorded_deps defs))"
    if "distinct (map sd_id defs)" "\<forall>d \<in> set defs. set (sd_depends_on d) \<subseteq> set (map sd_id defs)"
    using that by (rule visit_definitions_complete)
  then show ?thesis
    by (auto simp: validate_definitions_def rbind_Inr_iff check_definitions_Inr)
qed

lemma new_step_simps [simp]:
  "st_id (new_step r at d) = sd_id d" "st_run_id (new_step r at d) = r"
  "st_position (new_step r at d) = sd_position d"
  "st_depends_on (new_step r at d) = sd_depends_on d"
  "st_status (new_step r at d) = STEP_PENDING"
  "st_operation_key (new_step r at d) = sd_operation_key d"
  "fields_ok (new_step r at d)"
  by (simp_all add: new_step_def fields_ok_def)

lemma run_deps_new_run: "run_deps (new_run r at nm defs) = recorded_deps defs"
  by (auto simp: run_deps_def recorded_deps_def new_run_def find_map fun_eq_iff split: option.splits)

lemma step_ids_new_run [simp]: "step_ids (new_run r at nm defs) = map sd_id defs"
  by (simp add: step_ids_def new_run_def)

lemma wf_new_run:
  assumes "validate_definitions run_id defs = Inr u"
  shows "wf_run (new_run run_id at nm defs)"
proof -
  let ?r = "new_run run_id at nm defs"
  have steps: "wr_steps ?r = map (new_step run_id at) defs" "wr_status ?r = RUNNING"
    "wr_run_id ?r = run_id" "wr_completed_at ?r = None"
    by (simp_all add: new_run_def)
  have v: "defs \<noteq> []" "map sd_position defs = map int [0..<length defs]" "distinct (map sd_id defs)"
    "acyclic (dependency_relation (map sd_id defs) (recorded_deps defs))"
    and ids: "\<forall>d \<in> set defs. sd_operation_key d = run_id @ '':'' @ sd_id d \<and>
       distinct (sd_depends_on d) \<and> sd_id d \<notin> set (sd_depends_on d) \<and>
       set (sd_depends_on d) \<subseteq> set (map sd_id defs)"
    using assms [unfolded validate_definitions_Inr] by blast+
  have "\<forall>s \<in> set (wr_steps ?r). identity_ok ?r s \<and> fields_ok s \<and> st_status s = STEP_PENDING"
    using ids by (simp add: steps identity_ok_def)
  moreover have "map st_position (wr_steps ?r) = map int [0..<length (wr_steps ?r)]"
    using v(2) by (simp add: steps comp_def)
  ultimately show ?thesis
    using v by (simp add: wf_run_def run_deps_new_run steps)
qed

lemma wf_apply_payload:
  assumes "apply_payload run_id run e p = Inr run'" and "\<And>r. run = Some r \<Longrightarrow> wf_run r"
  shows "wf_run run'"
  using assms(1)
proof (cases rule: apply_payload_cases)
  case (created name defs)
  then show ?thesis
    by (auto simp: apply_created_def rbind_Inr_iff wf_new_run split: if_splits)
next
  case (completed r)
  then have "\<forall>s \<in> set (wr_steps r). st_status s = STEP_COMPLETED"
    and run': "run' = r\<lparr>wr_status := COMPLETED, wr_updated_at := ev_occurred_at e,
      wr_completed_at := Some (ev_occurred_at e)\<rparr>"
    by (auto simp: apply_run_completed_def list_ex_iff split: if_splits)
  moreover have "wf_run r" using completed assms(2) by simp
  ultimately show ?thesis
    unfolding run' by (auto intro: wf_run_status_update [of r])
next
  case (failed r i er)
  then obtain s where s: "s \<in> set (wr_steps r)" "st_status s = STEP_FAILED"
    and run': "run' = r\<lparr>wr_status := FAILED, wr_updated_at := ev_occurred_at e\<rparr>"
    by (auto simp: apply_run_failed_def find_step_def find_step_with_index_def rbind_Inr_iff
        dest: find_index_Some split: if_splits option.splits)
  have "wf_run r" "wr_status r = RUNNING" using failed assms(2) by auto
  moreover from this have "wr_completed_at r = None" by (simp add: wf_run_def)
  ultimately show ?thesis
    using s unfolding run' by (auto intro: wf_run_status_update [of r])
next
  case (step r)
  then have wf: "wf_run r" using assms(2) by simp
  then have "distinct (step_ids r)" by (simp add: wf_run_def)
  with step(3) obtain i n s s' where *: "s \<in> set (wr_steps r)" "st_id s = i"
    "apply_step_event r s e n p = Inr s'"
    "run' = r\<lparr>wr_steps := update_where (\<lambda>x. st_id x = i) (\<lambda>_. s') (wr_steps r)\<rparr>"
    by (elim apply_step_payload_elim)
  note facts = apply_step_event_facts [OF *(3)]
  have "fields_ok s" "st_status s \<noteq> STEP_PENDING \<longrightarrow>
      set (st_depends_on s) \<subseteq> set (completed_ids (wr_steps r))"
    using wf *(1) by (auto simp: wf_run_def)
  with wf_run_step_update [OF wf step(2) *(1) facts(2,1)] facts(2-4) *(2,4) show ?thesis by auto
qed

lemma wf_fold_events:
  assumes "fold_events run_id run n es = Inr (Some run')" and "\<And>r. run = Some r \<Longrightarrow> wf_run r"
  shows "wf_run run'"
  using assms
proof (induction es arbitrary: run n)
  case Nil
  then show ?case by simp
next
  case (Cons e es)
  then obtain r where "apply_event run_id run n e = Inr r"
    and f: "fold_events run_id (Some r) (n + 1) es = Inr (Some run')"
    by (auto simp: rbind_Inr_iff)
  then have "wf_run r" using wf_apply_payload apply_event_payload(4) Cons.prems(2) by blast
  then show ?case using Cons.IH [OF f] by simp
qed

lemma reduce_fold:
  assumes "reduce_workflow_run_history es = Inr run"
  shows "es \<noteq> []" and "fold_events (ev_run_id (hd es)) None 1 es = Inr (Some run)"
    and "check_outcome run = Inr run"
  using assms
  by (cases es; force simp: reduce_workflow_run_history_def rbind_Inr_iff check_outcome_def
      simp del: fold_events.simps split: option.splits if_splits)+

lemma reduced_run_wf: "reduce_workflow_run_history es = Inr run \<Longrightarrow> wf_run run"
  using wf_fold_events reduce_fold(2) by blast

text \<open>C22: every run the reducer returns is well-formed: ids and positions are those of a
  valid graph, each key is \<open>run_id:step_id\<close>, the fields agree with the status, no step has
  left \<open>pending\<close> before its dependencies completed, and the run's status agrees with its
  steps.\<close>

theorem reduce_wf: "reduce_workflow_run_history es = Inr run \<Longrightarrow> wf_run run"
  by (rule reduced_run_wf)

section \<open>What later events keep\<close>

text \<open>\<open>extends r r'\<close>: \<open>r'\<close> is a later state of the same run.\<close>

definition extends :: "workflow_run \<Rightarrow> workflow_run \<Rightarrow> bool" where
  "extends r r' \<longleftrightarrow>
     wr_run_id r' = wr_run_id r \<and> wr_name r' = wr_name r \<and> wr_created_at r' = wr_created_at r \<and>
     map immutable (wr_steps r') = map immutable (wr_steps r) \<and>
     {s \<in> set (wr_steps r). st_status s = STEP_COMPLETED} \<subseteq> set (wr_steps r')"

lemma extends_refl [simp]: "extends r r"
  by (auto simp: extends_def)

lemma extends_trans: "extends r r' \<Longrightarrow> extends r' r'' \<Longrightarrow> extends r r''"
  by (auto simp: extends_def)

lemma apply_payload_extends:
  assumes "apply_payload run_id (Some r) e p = Inr r'" and "wf_run r"
  shows "extends r r'" and "wr_status r = RUNNING"
proof -
  have "extends r r' \<and> wr_status r = RUNNING"
    using assms(1)
  proof (cases rule: apply_payload_cases)
    case (created name defs)
    then show ?thesis by (simp add: apply_created_def)
  next
    case (completed q)
    then show ?thesis by (auto simp: apply_run_completed_def extends_def split: if_splits)
  next
    case (failed q i er)
    then show ?thesis
      by (auto simp: apply_run_failed_def extends_def rbind_Inr_iff split: if_splits)
  next
    case (step q)
    then have q: "q = r" "wr_status r = RUNNING" by simp_all
    have dist: "distinct (step_ids r)" using assms(2) by (simp add: wf_run_def)
    with step(3) q obtain i n s s' where *: "s \<in> set (wr_steps r)" "st_id s = i"
      "apply_step_event r s e n p = Inr s'"
      "r' = r\<lparr>wr_steps := update_where (\<lambda>x. st_id x = i) (\<lambda>_. s') (wr_steps r)\<rparr>"
      by (auto elim: apply_step_payload_elim)
    note facts = apply_step_event_facts [OF *(3)]
    have only: "x = s" if "x \<in> set (wr_steps r)" "st_id x = i" for x
      using distinct_id_eq [of "wr_steps r" s x] dist that * by (simp add: step_ids_def)
    have "map immutable (wr_steps r') = map immutable (wr_steps r)"
      unfolding *(4) by (simp, rule map_immutable_update) (use only facts(1) in auto)
    moreover have "x \<in> set (wr_steps r')" if x: "x \<in> set (wr_steps r)" "st_status x = STEP_COMPLETED" for x
    proof -
      have "st_id x \<noteq> i" using only [OF x(1)] x(2) facts(2) by (auto simp: runnable_status_def)
      with x(1) show ?thesis unfolding *(4) by (simp add: set_update_where)
    qed
    ultimately show ?thesis using q *(4) by (auto simp: extends_def)
  qed
  then show "extends r r'" and "wr_status r = RUNNING" by simp_all
qed

lemma fold_events_extends:
  assumes "fold_events run_id (Some r) n es = Inr (Some r')" and "wf_run r"
  shows "extends r r'" and "es \<noteq> [] \<Longrightarrow> wr_status r = RUNNING"
proof -
  have "extends r r' \<and> (es \<noteq> [] \<longrightarrow> wr_status r = RUNNING)"
    using assms
  proof (induction es arbitrary: r n)
    case Nil
    then show ?case by simp
  next
    case (Cons e es)
    then obtain q where q: "apply_event run_id (Some r) n e = Inr q"
      and f: "fold_events run_id (Some q) (n + 1) es = Inr (Some r')"
      by (auto simp: rbind_Inr_iff)
    note p = apply_event_payload(4) [OF q]
    have "wf_run q" using wf_apply_payload [OF p] Cons.prems(2) by simp
    with Cons.IH [OF f] apply_payload_extends [OF p Cons.prems(2)] show ?case
      by (auto intro: extends_trans)
  qed
  then show "extends r r'" and "es \<noteq> [] \<Longrightarrow> wr_status r = RUNNING" by simp_all
qed

text \<open>A reduced history splits at any point into a reduced prefix and a continuation.\<close>

lemma reduce_split:
  assumes "reduce_workflow_run_history (es @ fs) = Inr run'" and "es \<noteq> []"
  obtains r where "fold_events (ev_run_id (hd es)) None 1 es = Inr (Some r)" and "wf_run r"
    and "fold_events (ev_run_id (hd es)) (Some r) (1 + int (length es)) fs = Inr (Some run')"
proof -
  have "fold_events (ev_run_id (hd es)) None 1 (es @ fs) = Inr (Some run')"
    using reduce_fold(2) [OF assms(1)] assms(2) by simp
  then obtain q where q: "fold_events (ev_run_id (hd es)) None 1 es = Inr q"
    "fold_events (ev_run_id (hd es)) q (1 + int (length es)) fs = Inr (Some run')"
    by (auto simp: fold_events_append rbind_Inr_iff)
  from fold_events_nonempty [OF q(1) assms(2)] obtain r where r: "q = Some r" by blast
  have "wf_run r" using wf_fold_events [OF q(1) [unfolded r]] by simp
  with q r show thesis by (intro that [of r]) simp_all
qed

lemma reduced_continuation:
  assumes "reduce_workflow_run_history es = Inr run"
    and "reduce_workflow_run_history (es @ fs) = Inr run'"
  shows "extends run run' \<and> (wr_status run \<noteq> RUNNING \<longrightarrow> fs = [] \<and> run' = run)"
proof -
  have ne: "es \<noteq> []" using reduce_fold(1) [OF assms(1)] .
  from reduce_split [OF assms(2) ne] obtain r where
    r: "fold_events (ev_run_id (hd es)) None 1 es = Inr (Some r)"
    "fold_events (ev_run_id (hd es)) (Some r) (1 + int (length es)) fs = Inr (Some run')"
    "wf_run r" by blast
  have "r = run" using r(1) reduce_fold(2) [OF assms(1)] by simp
  with r fold_events_extends [OF r(2,3)] show ?thesis
    by (cases "fs = []") auto
qed

text \<open>History is final where it says so. Any continuation of a history that itself
  reduces to \<open>run\<close> keeps the run's identity and the recorded definition of every step,
  keeps every completed step exactly as it is (completed steps never reopen), and if
  \<open>run\<close> is terminal there is no continuation at all.\<close>

theorem reduced_history_is_final:
  assumes "reduce_workflow_run_history es = Inr run"
    and "reduce_workflow_run_history (es @ fs) = Inr run'"
  shows "extends run run' \<and> (wr_status run \<noteq> RUNNING \<longrightarrow> fs = [] \<and> run' = run)"
  using assms by (rule reduced_continuation)

section \<open>Attempt events\<close>

definition attempt_of :: "string \<Rightarrow> workflow_run_event \<Rightarrow> bool" where
  "attempt_of i e \<longleftrightarrow> ev_event_type e = STEP_ATTEMPT_STARTED \<and> ev_step_id e = Some i"

definition attempts_of :: "workflow_run \<Rightarrow> string \<Rightarrow> int" where
  "attempts_of r i = (case find (\<lambda>s. st_id s = i) (wr_steps r) of None \<Rightarrow> 0 | Some s \<Rightarrow> st_attempts s)"

lemma attempts_of_eq:
  "distinct (step_ids r) \<Longrightarrow> s \<in> set (wr_steps r) \<Longrightarrow> attempts_of r (st_id s) = st_attempts s"
  by (simp add: attempts_of_def step_ids_def find_distinct_eq)

lemma find_update_where:
  assumes "\<And>x. x \<in> set ss \<Longrightarrow> st_id x = i \<Longrightarrow> st_id (f x) = i"
  shows "find (\<lambda>s. st_id s = j) (update_where (\<lambda>x. st_id x = i) f ss) =
    (if j = i then map_option f (find (\<lambda>s. st_id s = j) ss) else find (\<lambda>s. st_id s = j) ss)"
  using assms by (induction ss) auto

lemma payload_model_attempt:
  "payload_model p = Some STEP_ATTEMPT_STARTED \<longleftrightarrow>
    (\<exists>op req key w f. p = StepAttemptStartedPayload op req key w f)"
  by (cases p) auto

lemma apply_event_attempts:
  assumes "apply_event run_id (Some r) n e = Inr r'" and "wf_run r"
  shows "attempts_of r' i = attempts_of r i + (if attempt_of i e then 1 else 0)"
proof -
  note hd = apply_event_payload [OF assms(1)]
  from hd(4) show ?thesis
  proof (cases rule: apply_payload_cases)
    case (created name defs)
    then show ?thesis by (simp add: apply_created_def)
  next
    case (completed q)
    then show ?thesis
      using hd(3) by (auto simp: apply_run_completed_def attempts_of_def attempt_of_def split: if_splits)
  next
    case (failed q j er)
    then show ?thesis
      using hd(3) by (auto simp: apply_run_failed_def attempts_of_def attempt_of_def rbind_Inr_iff
          split: if_splits)
  next
    case (step q)
    have dist: "distinct (step_ids r)" using assms(2) by (simp add: wf_run_def)
    with step obtain j m s s' where *: "ev_step_id e = Some j" "s \<in> set (wr_steps r)" "st_id s = j"
      "apply_step_event r s e m (ev_payload e) = Inr s'"
      "r' = r\<lparr>wr_steps := update_where (\<lambda>x. st_id x = j) (\<lambda>_. s') (wr_steps r)\<rparr>"
      by (auto elim: apply_step_payload_elim)
    have fs: "find (\<lambda>x. st_id x = j) (wr_steps r) = Some s"
      using find_distinct_eq [of st_id "wr_steps r" s] dist * by (simp add: step_ids_def)
    have id': "st_id s' = j"
      using apply_step_event_facts(1) [OF *(4)] *(3) by (auto dest: immutable_eqD)
    have "st_attempts s' = st_attempts s + (if ev_event_type e = STEP_ATTEMPT_STARTED then 1 else 0)"
      using *(4) hd(3)
      by (cases rule: apply_step_event_cases) (auto simp: step_updates)
    then show ?thesis
      using fs id' *(1) unfolding *(5)
      by (auto simp: attempts_of_def attempt_of_def find_update_where)
  qed
qed

lemma fold_events_attempts:
  assumes "fold_events run_id (Some r) n es = Inr (Some r')" and "wf_run r"
  shows "attempts_of r' i = attempts_of r i + int (length (filter (attempt_of i) es))"
  using assms
proof (induction es arbitrary: r n)
  case Nil
  then show ?case by simp
next
  case (Cons e es)
  then obtain q where q: "apply_event run_id (Some r) n e = Inr q"
    and f: "fold_events run_id (Some q) (n + 1) es = Inr (Some r')"
    by (auto simp: rbind_Inr_iff)
  have "wf_run q" using wf_apply_payload [OF apply_event_payload(4) [OF q]] Cons.prems(2) by simp
  with Cons.IH [OF f] apply_event_attempts [OF q Cons.prems(2)] show ?case by simp
qed

lemma first_event_creates:
  assumes "apply_event run_id None n e = Inr r"
  shows "ev_event_type e = WORKFLOW_RUN_CREATED" and "attempts_of r i = 0"
    and "wr_run_id r = run_id" and "wr_status r = RUNNING"
proof -
  note hd = apply_event_payload [OF assms]
  from hd(4) obtain name defs where p: "ev_payload e = WorkflowRunCreatedPayload name defs"
    and r: "r = new_run run_id (ev_occurred_at e) name defs"
    by (cases rule: apply_payload_cases) (auto simp: apply_created_def rbind_Inr_iff split: if_splits)
  show "ev_event_type e = WORKFLOW_RUN_CREATED" using p hd(3) by simp
  show "wr_run_id r = run_id" and "wr_status r = RUNNING" by (simp_all add: r new_run_def)
  show "attempts_of r i = 0"
    by (simp add: attempts_of_def r new_run_def find_map comp_def new_step_def split: option.splits)
qed

lemma count_attempt_events:
  assumes "reduce_workflow_run_history es = Inr run" and "s \<in> set (wr_steps run)"
  shows "st_attempts s = int (length (filter (attempt_of (st_id s)) es))"
proof -
  from reduce_fold [OF assms(1)] obtain e es' r where es: "es = e # es'"
    and a: "apply_event (ev_run_id e) None 1 e = Inr r"
    and f: "fold_events (ev_run_id e) (Some r) 2 es' = Inr (Some run)"
    by (cases es) (auto simp: rbind_Inr_iff)
  note first = first_event_creates [OF a]
  have "wf_run r" using wf_apply_payload [OF apply_event_payload(4) [OF a]] by simp
  moreover have "distinct (step_ids run)" using reduced_run_wf [OF assms(1)] by (simp add: wf_run_def)
  ultimately show ?thesis
    using fold_events_attempts [OF f, of "st_id s"] first(1) first(2) [of "st_id s"]
      attempts_of_eq [OF _ assms(2)]
    by (simp add: es attempt_of_def)
qed

text \<open>The attempt counter of every step is the number of attempts its history records.\<close>

theorem attempts_count_attempt_events:
  assumes "reduce_workflow_run_history es = Inr run" and "s \<in> set (wr_steps run)"
  shows "st_attempts s = int (length (filter (attempt_of (st_id s)) es))"
  using assms by (rule count_attempt_events)

text \<open>The event that started an attempt restates the recorded intent.\<close>

lemma fold_events_intents:
  assumes "fold_events run_id (Some r) n es = Inr (Some r')" and "wf_run r" and "e \<in> set es"
    and "ev_payload e = StepAttemptStartedPayload op req key w f"
  shows "\<exists>s \<in> set (wr_steps r'). ev_step_id e = Some (st_id s) \<and> op = st_operation s \<and>
    req = st_request s \<and> key = st_operation_key s"
  using assms(1-3)
proof (induction es arbitrary: r n)
  case Nil
  then show ?case by simp
next
  case (Cons d es)
  then obtain q where q: "apply_event run_id (Some r) n d = Inr q"
    and f: "fold_events run_id (Some q) (n + 1) es = Inr (Some r')"
    by (auto simp: rbind_Inr_iff)
  note p = apply_event_payload(4) [OF q]
  have wq: "wf_run q" using wf_apply_payload [OF p] Cons.prems(2) by simp
  show ?case
  proof (cases "e \<in> set es")
    case True
    with Cons.IH [OF f wq] show ?thesis by simp
  next
    case False
    with Cons.prems have "d = e" by simp
    with p assms(4) have "apply_step_payload r e (ev_payload e) = Inr q"
      by (simp add: apply_payload_def split: if_splits)
    moreover have "distinct (step_ids r)" using Cons.prems(2) by (simp add: wf_run_def)
    ultimately obtain i m s s' where *: "ev_step_id e = Some i" "s \<in> set (wr_steps r)" "st_id s = i"
      "apply_step_event r s e m (ev_payload e) = Inr s'"
      by (elim apply_step_payload_elim)
    from *(4) have eq: "op = st_operation s" "req = st_request s" "key = st_operation_key s"
      using assms(4) by (cases rule: apply_step_event_cases; simp)+
    have "extends r r'"
      using extends_trans [OF apply_payload_extends(1) [OF p Cons.prems(2)]
          fold_events_extends(1) [OF f wq]] .
    then have "immutable s \<in> set (map immutable (wr_steps r'))"
      using *(2) by (simp add: extends_def)
    then obtain t where t: "t \<in> set (wr_steps r')" "immutable t = immutable s" by auto
    with eq * immutable_eqD [OF t(2)] show ?thesis by (intro bexI [of _ t]) simp_all
  qed
qed

lemma recorded_attempt:
  assumes "reduce_workflow_run_history es = Inr run" and "e \<in> set es"
    and "ev_payload e = StepAttemptStartedPayload op req key w f"
  shows "\<exists>s \<in> set (wr_steps run). ev_step_id e = Some (st_id s) \<and> op = st_operation s \<and>
    req = st_request s \<and> key = wr_run_id run @ '':'' @ st_id s"
proof -
  from reduce_fold [OF assms(1)] obtain d es' r where es: "es = d # es'"
    and a: "apply_event (ev_run_id d) None 1 d = Inr r"
    and fo: "fold_events (ev_run_id d) (Some r) 2 es' = Inr (Some run)"
    by (cases es) (auto simp: rbind_Inr_iff)
  have "wf_run r" using wf_apply_payload [OF apply_event_payload(4) [OF a]] by simp
  moreover have "e \<in> set es'"
    using assms(2,3) es first_event_creates(1) [OF a] apply_event_payload(3) [OF a] by auto
  ultimately obtain s where s: "s \<in> set (wr_steps run)" "ev_step_id e = Some (st_id s)"
    "op = st_operation s" "req = st_request s" "key = st_operation_key s"
    using fold_events_intents [OF fo _ _ assms(3)] by blast
  moreover have "st_operation_key s = wr_run_id run @ '':'' @ st_id s"
    using reduced_run_wf [OF assms(1)] s(1) by (simp add: wf_run_def identity_ok_def)
  ultimately show ?thesis by auto
qed

text \<open>Every attempt a history records, for whatever reason it was repeated, was
  authorised with the request of the recorded definition and with the one stable key
  \<open>run_id:step_id\<close>.\<close>

theorem attempts_carry_stable_key:
  assumes "reduce_workflow_run_history es = Inr run" and "e \<in> set es"
    and "ev_payload e = StepAttemptStartedPayload op req key w f"
  shows "\<exists>s \<in> set (wr_steps run). ev_step_id e = Some (st_id s) \<and> op = st_operation s \<and>
    req = st_request s \<and> key = wr_run_id run @ '':'' @ st_id s"
  using assms by (rule recorded_attempt)

end
