(* ===== verification/Storage.thy ===== *)
theory Storage
  imports History_Facts
begin

text \<open>
  \<open>crashsafe/storage.py\<close>: the engine database and its operations. A table is the list of
  its rows in insertion order; \<open>UPDATE \<dots> WHERE\<close> is \<open>update_where\<close>, \<open>INSERT\<close> checks the
  declared keys and foreign keys and appends, \<open>ORDER BY\<close> is a stable sort. Every read of the
  clock inside an operation is a parameter of its own, so nothing is assumed about how far
  apart the reads are. A transaction either returns a value with the new database, or an
  error and the database it started from.
\<close>

section \<open>Tables\<close>

record workflow_run_row =
  rr_run_id :: string
  rr_name :: string
  rr_status :: workflow_run_status
  rr_definition :: payload
  rr_created_at :: timestamp
  rr_updated_at :: timestamp
  rr_completed_at :: "timestamp option"

record step_row =
  sr_run_id :: string
  sr_id :: string
  sr_position :: int
  sr_operation :: step_name
  sr_status :: step_status
  sr_request :: json
  sr_operation_key :: string
  sr_tool_key :: string
  sr_output :: "json option"
  sr_attempts :: int
  sr_next_attempt_at :: "timestamp option"
  sr_last_error :: "string option"
  sr_created_at :: timestamp
  sr_updated_at :: timestamp
  sr_completed_at :: "timestamp option"

record dependency_row =
  dr_run_id :: string
  dr_step_id :: string
  dr_dependency_step_id :: string

record db =
  db_runs :: "workflow_run_row list"
  db_steps :: "step_row list"
  db_dependencies :: "dependency_row list"
  db_events :: "workflow_run_event list"
  db_leases :: "workflow_run_lease list"
  db_throttles :: "tool_throttle list"

definition empty_db :: db where
  "empty_db = \<lparr>db_runs = [], db_steps = [], db_dependencies = [], db_events = [],
     db_leases = [], db_throttles = []\<rparr>"

datatype storage_error =
    WorkflowRunNotFoundError string | StepNotFound string string | LeaseLostError string string
  | OwnerAndFenceTogether | NotRunnableError string | IncompleteDependencies string
  | NoActiveAttempt string | PayloadTypeError event_type | IntegrityError
  | HistoryIntegrity history_error

section \<open>Transactions\<close>

text \<open>\<open>_transaction\<close>: commit on return, roll back on any exception.\<close>

definition transaction :: "(db \<Rightarrow> storage_error + 'a \<times> db) \<Rightarrow> db \<Rightarrow> (storage_error + 'a) \<times> db" where
  "transaction body d = (case body d of Inl e \<Rightarrow> (Inl e, d) | Inr (x, d') \<Rightarrow> (Inr x, d'))"

lemma transaction_Inr: "transaction body d = (Inr x, d') \<longleftrightarrow> body d = Inr (x, d')"
  by (auto simp: transaction_def split: sum.splits)

lemma transaction_Inl: "transaction body d = (Inl e, d') \<longleftrightarrow> body d = Inl e \<and> d' = d"
  by (auto simp: transaction_def split: sum.splits)

lemma snd_transaction: "snd (transaction body d) = d' \<longleftrightarrow>
    (\<exists>e. body d = Inl e \<and> d' = d) \<or> (\<exists>x. body d = Inr (x, d'))"
  by (auto simp: transaction_def split: sum.splits)

fun insert_all :: "('a \<Rightarrow> db \<Rightarrow> storage_error + db) \<Rightarrow> 'a list \<Rightarrow> db \<Rightarrow> storage_error + db" where
  "insert_all ins [] d = Inr d"
| "insert_all ins (x # xs) d = rbind (ins x d) (insert_all ins xs)"

section \<open>Rows and views\<close>

definition run_row_of :: "db \<Rightarrow> string \<Rightarrow> workflow_run_row option" where
  "run_row_of d r = find (\<lambda>w. rr_run_id w = r) (db_runs d)"

definition get_step_row :: "db \<Rightarrow> string \<Rightarrow> string \<Rightarrow> storage_error + step_row" where
  "get_step_row d r i = (case find (\<lambda>s. sr_run_id s = r \<and> sr_id s = i) (db_steps d) of
     None \<Rightarrow> Inl (StepNotFound r i) | Some s \<Rightarrow> Inr s)"

text \<open>\<open>_dependencies\<close>: the dependencies of each step of a run, in row order.\<close>

definition dependencies :: "db \<Rightarrow> string \<Rightarrow> string \<Rightarrow> string list" where
  "dependencies d r i = map dr_dependency_step_id
     (filter (\<lambda>x. dr_run_id x = r \<and> dr_step_id x = i) (db_dependencies d))"

definition step_from_row :: "step_row \<Rightarrow> (string \<Rightarrow> string list) \<Rightarrow> step_record" where
  "step_from_row row deps =
     \<lparr>st_id = sr_id row, st_run_id = sr_run_id row, st_position = sr_position row,
      st_operation = sr_operation row, st_depends_on = deps (sr_id row),
      st_status = sr_status row, st_request = sr_request row,
      st_operation_key = sr_operation_key row, st_tool_key = sr_tool_key row,
      st_output = sr_output row, st_attempts = sr_attempts row,
      st_next_attempt_at = sr_next_attempt_at row, st_last_error = sr_last_error row,
      st_created_at = sr_created_at row, st_updated_at = sr_updated_at row,
      st_completed_at = sr_completed_at row\<rparr>"

definition workflow_run_from_rows :: "workflow_run_row \<Rightarrow> step_row list \<Rightarrow> (string \<Rightarrow> string list)
    \<Rightarrow> workflow_run" where
  "workflow_run_from_rows w rows deps =
     \<lparr>wr_run_id = rr_run_id w, wr_name = rr_name w, wr_status = rr_status w,
      wr_steps = map (\<lambda>s. step_from_row s deps) rows,
      wr_created_at = rr_created_at w, wr_updated_at = rr_updated_at w,
      wr_completed_at = rr_completed_at w\<rparr>"

definition run_step_rows :: "db \<Rightarrow> string \<Rightarrow> step_row list" where
  "run_step_rows d r = sort_key sr_position (filter (\<lambda>s. sr_run_id s = r) (db_steps d))"

definition get_workflow_run :: "string \<Rightarrow> db \<Rightarrow> storage_error + workflow_run" where
  "get_workflow_run r d = (case run_row_of d r of
     None \<Rightarrow> Inl (WorkflowRunNotFoundError r)
   | Some w \<Rightarrow> Inr (workflow_run_from_rows w (run_step_rows d r) (dependencies d r)))"

fun collect :: "('e + 'a) list \<Rightarrow> 'e + 'a list" where
  "collect [] = Inr []"
| "collect (x # xs) = rbind x (\<lambda>y. rbind (collect xs) (\<lambda>ys. Inr (y # ys)))"

text \<open>\<open>ORDER BY created_at DESC LIMIT ?\<close>, then one read per run.\<close>

definition list_workflow_runs :: "nat \<Rightarrow> db \<Rightarrow> storage_error + workflow_run list" where
  "list_workflow_runs limit d =
     collect (map (\<lambda>w. get_workflow_run (rr_run_id w) d)
       (take limit (sort_key (\<lambda>w. - rr_created_at w) (db_runs d))))"

definition list_events :: "string \<Rightarrow> db \<Rightarrow> storage_error + workflow_run_event list" where
  "list_events r d =
     (case sort_key ev_sequence (filter (\<lambda>e. ev_run_id e = r) (db_events d)) of
        [] \<Rightarrow> Inl (WorkflowRunNotFoundError r) | es \<Rightarrow> Inr es)"

definition reduce_history :: "workflow_run_event list \<Rightarrow> storage_error + workflow_run" where
  "reduce_history es = (case reduce_workflow_run_history es of
     Inl e \<Rightarrow> Inl (HistoryIntegrity e) | Inr r \<Rightarrow> Inr r)"

definition projection_matches_history :: "string \<Rightarrow> db \<Rightarrow> storage_error + bool" where
  "projection_matches_history r d =
     rbind (get_workflow_run r d) (\<lambda>run.
     rbind (list_events r d) (\<lambda>es.
     rbind (reduce_history es) (\<lambda>h. Inr (run = h))))"

section \<open>Appending an event\<close>

text \<open>\<open>canonical_payload\<close> refuses a payload of another event's model.\<close>

definition canonical_payload :: "event_type \<Rightarrow> payload \<Rightarrow> storage_error + payload" where
  "canonical_payload et p =
     (if payload_model p = Some et then Inr p else Inl (PayloadTypeError et))"

definition next_sequence :: "db \<Rightarrow> string \<Rightarrow> int" where
  "next_sequence d r =
     max_or_zero (map ev_sequence (filter (\<lambda>e. ev_run_id e = r) (db_events d))) + 1"

definition append_event :: "string \<Rightarrow> event_type \<Rightarrow> payload \<Rightarrow> timestamp \<Rightarrow> string option
    \<Rightarrow> int option \<Rightarrow> int \<Rightarrow> db \<Rightarrow> storage_error + db" where
  "append_event r et p at step attempt version d =
     rbind (canonical_payload et p) (\<lambda>p'.
       Inr (d\<lparr>db_events := db_events d @
         [\<lparr>ev_id = max_or_zero (map ev_id (db_events d)) + 1, ev_run_id = r,
           ev_sequence = next_sequence d r, ev_event_type = et, ev_schema_version = version,
           ev_step_id = step, ev_attempt = attempt, ev_payload = p', ev_occurred_at = at\<rparr>]\<rparr>))"

section \<open>Creating a run\<close>

definition insert_run :: "workflow_run_row \<Rightarrow> db \<Rightarrow> storage_error + db" where
  "insert_run w d = (if run_row_of d (rr_run_id w) \<noteq> None then Inl IntegrityError
     else Inr (d\<lparr>db_runs := db_runs d @ [w]\<rparr>))"

definition insert_step :: "step_row \<Rightarrow> db \<Rightarrow> storage_error + db" where
  "insert_step s d =
     (if run_row_of d (sr_run_id s) = None \<or>
         list_ex (\<lambda>x. sr_operation_key x = sr_operation_key s \<or>
           sr_run_id x = sr_run_id s \<and> (sr_id x = sr_id s \<or> sr_position x = sr_position s))
           (db_steps d)
      then Inl IntegrityError else Inr (d\<lparr>db_steps := db_steps d @ [s]\<rparr>))"

definition has_step :: "db \<Rightarrow> string \<Rightarrow> string \<Rightarrow> bool" where
  "has_step d r i \<longleftrightarrow> list_ex (\<lambda>s. sr_run_id s = r \<and> sr_id s = i) (db_steps d)"

definition insert_dependency :: "dependency_row \<Rightarrow> db \<Rightarrow> storage_error + db" where
  "insert_dependency x d =
     (if x \<in> set (db_dependencies d) \<or> \<not> has_step d (dr_run_id x) (dr_step_id x) \<or>
         \<not> has_step d (dr_run_id x) (dr_dependency_step_id x)
      then Inl IntegrityError else Inr (d\<lparr>db_dependencies := db_dependencies d @ [x]\<rparr>))"

text \<open>The \<open>StepDefinition\<close>s of a submitted definition.\<close>

definition materialize :: "string \<Rightarrow> string \<Rightarrow> workflow_definition \<Rightarrow> step_definition list" where
  "materialize r tool wd = map (\<lambda>(n, s).
     \<lparr>sd_id = ws_id s, sd_position = int n, sd_operation = ws_operation s,
      sd_depends_on = ws_depends_on s, sd_request = ws_request s,
      sd_operation_key = r @ '':'' @ ws_id s, sd_tool_key = tool\<rparr>)
     (enumerate 0 (wd_steps wd))"

definition new_step_row :: "string \<Rightarrow> timestamp \<Rightarrow> step_definition \<Rightarrow> step_row" where
  "new_step_row r now sd =
     \<lparr>sr_run_id = r, sr_id = sd_id sd, sr_position = sd_position sd,
      sr_operation = sd_operation sd, sr_status = STEP_PENDING, sr_request = sd_request sd,
      sr_operation_key = sd_operation_key sd, sr_tool_key = sd_tool_key sd,
      sr_output = None, sr_attempts = 0, sr_next_attempt_at = None, sr_last_error = None,
      sr_created_at = now, sr_updated_at = now, sr_completed_at = None\<rparr>"

definition dependency_rows :: "string \<Rightarrow> step_definition list \<Rightarrow> dependency_row list" where
  "dependency_rows r defs = concat (map (\<lambda>sd. map (\<lambda>x.
     \<lparr>dr_run_id = r, dr_step_id = sd_id sd, dr_dependency_step_id = x\<rparr>) (sd_depends_on sd)) defs)"

definition selected_tool :: "string option \<Rightarrow> string \<Rightarrow> string" where
  "selected_tool tool_key default_tool = (case tool_key of
     None \<Rightarrow> default_tool | Some k \<Rightarrow> if k = [] then default_tool else k)"

definition create_workflow_run_body :: "string \<Rightarrow> timestamp \<Rightarrow> string \<Rightarrow> workflow_definition
    \<Rightarrow> db \<Rightarrow> storage_error + unit \<times> db" where
  "create_workflow_run_body r now tool wd d =
     (let defs = materialize r tool wd;
          created = WorkflowRunCreatedPayload (wd_name wd) defs in
      rbind (insert_run \<lparr>rr_run_id = r, rr_name = wd_name wd, rr_status = RUNNING,
               rr_definition = created, rr_created_at = now, rr_updated_at = now,
               rr_completed_at = None\<rparr> d) (\<lambda>d.
      rbind (insert_all insert_step (map (new_step_row r now) defs) d) (\<lambda>d.
      rbind (insert_all insert_dependency (dependency_rows r defs) d) (\<lambda>d.
      rbind (append_event r WORKFLOW_RUN_CREATED created now None None
               WORKFLOW_RUN_CREATED_SCHEMA_VERSION d) (\<lambda>d. Inr ((), d))))))"

text \<open>\<open>r\<close> is the fresh \<open>uuid4\<close>; the created run is read back after the commit.\<close>

definition create_workflow_run :: "string \<Rightarrow> timestamp \<Rightarrow> workflow_definition \<Rightarrow> string option
    \<Rightarrow> string \<Rightarrow> db \<Rightarrow> (storage_error + workflow_run) \<times> db" where
  "create_workflow_run r now wd tool_key default_tool d =
     (case transaction (create_workflow_run_body r now (selected_tool tool_key default_tool) wd) d of
        (Inl e, d') \<Rightarrow> (Inl e, d')
      | (Inr _, d') \<Rightarrow> (get_workflow_run r d', d'))"

section \<open>Selecting and claiming\<close>

text \<open>The \<open>NOT EXISTS\<close> subquery, negated: some recorded dependency is not completed.\<close>

definition blocked :: "db \<Rightarrow> string \<Rightarrow> string \<Rightarrow> bool" where
  "blocked d r i \<longleftrightarrow>
     list_ex (\<lambda>x. dr_run_id x = r \<and> dr_step_id x = i \<and>
       list_ex (\<lambda>s. sr_run_id s = r \<and> sr_id s = dr_dependency_step_id x \<and>
         sr_status s \<noteq> STEP_COMPLETED) (db_steps d))
       (db_dependencies d)"

definition lease_of :: "db \<Rightarrow> string \<Rightarrow> workflow_run_lease option" where
  "lease_of d r = find (\<lambda>l. le_run_id l = r) (db_leases d)"

definition throttle_of :: "db \<Rightarrow> string \<Rightarrow> tool_throttle option" where
  "throttle_of d k = find (\<lambda>t. th_tool_key t = k) (db_throttles d)"

definition due :: "timestamp option \<Rightarrow> timestamp \<Rightarrow> bool" where
  "due t now \<longleftrightarrow> (case t of None \<Rightarrow> True | Some x \<Rightarrow> x \<le> now)"

definition eligible :: "db \<Rightarrow> timestamp \<Rightarrow> bool \<Rightarrow> step_row \<Rightarrow> bool" where
  "eligible d now include_lease s \<longleftrightarrow>
     (case run_row_of d (sr_run_id s) of None \<Rightarrow> False | Some w \<Rightarrow> rr_status w = RUNNING) \<and>
     runnable_status (sr_status s) \<and> due (sr_next_attempt_at s) now \<and>
     (include_lease \<longrightarrow>
        due (map_option th_blocked_until (throttle_of d (sr_tool_key s))) now \<and>
        due (map_option le_expires_at (lease_of d (sr_run_id s))) now) \<and>
     \<not> blocked d (sr_run_id s) (sr_id s)"

definition run_created_at :: "db \<Rightarrow> string \<Rightarrow> timestamp" where
  "run_created_at d r = (case run_row_of d r of None \<Rightarrow> 0 | Some w \<Rightarrow> rr_created_at w)"

text \<open>\<open>ORDER BY w.created_at, s.position LIMIT 1\<close>; remaining ties go to the older row.\<close>

definition select_runnable :: "db \<Rightarrow> timestamp \<Rightarrow> bool \<Rightarrow> step_row option" where
  "select_runnable d now include_lease =
     (case sort_key (\<lambda>s. run_created_at d (sr_run_id s))
             (sort_key sr_position (filter (eligible d now include_lease) (db_steps d))) of
        [] \<Rightarrow> None | s # _ \<Rightarrow> Some s)"

definition next_runnable_step :: "timestamp \<Rightarrow> db \<Rightarrow> step_record option" where
  "next_runnable_step now d = map_option
     (\<lambda>s. step_from_row s (dependencies d (sr_run_id s))) (select_runnable d now False)"

text \<open>\<open>INSERT \<dots> ON CONFLICT(run_id) DO UPDATE\<close> of the lease row.\<close>

definition upsert_lease :: "workflow_run_lease \<Rightarrow> db \<Rightarrow> db" where
  "upsert_lease l d =
     (if lease_of d (le_run_id l) = None then d\<lparr>db_leases := db_leases d @ [l]\<rparr>
      else d\<lparr>db_leases := update_where (\<lambda>x. le_run_id x = le_run_id l) (\<lambda>_. l) (db_leases d)\<rparr>)"

definition next_fence :: "db \<Rightarrow> string \<Rightarrow> int" where
  "next_fence d r = (case lease_of d r of None \<Rightarrow> 1 | Some l \<Rightarrow> le_fence_token l + 1)"

definition claim_body :: "string \<Rightarrow> int \<Rightarrow> timestamp \<Rightarrow> db \<Rightarrow> storage_error + claimed_step option \<times> db" where
  "claim_body owner ttl now d =
     (case select_runnable d now True of
        None \<Rightarrow> Inr (None, d)
      | Some row \<Rightarrow>
          (let r = sr_run_id row;
               lease = \<lparr>le_run_id = r, le_owner_id = owner, le_fence_token = next_fence d r,
                 le_expires_at = now + ttl, le_updated_at = now\<rparr>;
               d' = upsert_lease lease d
           in Inr (Some \<lparr>cl_step = step_from_row row (dependencies d' r), cl_lease = lease\<rparr>, d')))"

definition claim_runnable_step :: "string \<Rightarrow> int \<Rightarrow> timestamp \<Rightarrow> db
    \<Rightarrow> (storage_error + claimed_step option) \<times> db" where
  "claim_runnable_step owner ttl now = transaction (claim_body owner ttl now)"

section \<open>Leases\<close>

definition lease_match :: "string \<Rightarrow> string \<Rightarrow> int \<Rightarrow> workflow_run_lease \<Rightarrow> bool" where
  "lease_match r owner fence l \<longleftrightarrow>
     le_run_id l = r \<and> le_owner_id l = owner \<and> le_fence_token l = fence"

definition renew_lease :: "timestamp \<Rightarrow> string \<Rightarrow> string \<Rightarrow> int \<Rightarrow> int \<Rightarrow> db
    \<Rightarrow> (storage_error + bool) \<times> db" where
  "renew_lease now r owner fence ttl = transaction (\<lambda>d.
     let p = (\<lambda>l. lease_match r owner fence l \<and> now < le_expires_at l) in
     Inr (length (filter p (db_leases d)) = 1,
       d\<lparr>db_leases := update_where p (\<lambda>l. l\<lparr>le_expires_at := now + ttl, le_updated_at := now\<rparr>)
         (db_leases d)\<rparr>))"

definition release_lease :: "timestamp \<Rightarrow> string \<Rightarrow> string \<Rightarrow> int \<Rightarrow> db
    \<Rightarrow> (storage_error + bool) \<times> db" where
  "release_lease now r owner fence = transaction (\<lambda>d.
     let p = lease_match r owner fence in
     Inr (length (filter p (db_leases d)) = 1,
       d\<lparr>db_leases := update_where p (\<lambda>l. l\<lparr>le_expires_at := now, le_updated_at := now\<rparr>)
         (db_leases d)\<rparr>))"

definition get_lease :: "string \<Rightarrow> db \<Rightarrow> workflow_run_lease option" where
  "get_lease r d = lease_of d r"

definition get_tool_throttle :: "string \<Rightarrow> db \<Rightarrow> tool_throttle option" where
  "get_tool_throttle k d = throttle_of d k"

text \<open>\<open>_require_lease\<close> reads the clock itself (\<open>at\<close>), after the operation read it.\<close>

definition require_lease :: "db \<Rightarrow> string \<Rightarrow> timestamp \<Rightarrow> string option \<Rightarrow> int option
    \<Rightarrow> storage_error + unit" where
  "require_lease d r at owner fence =
     (case (owner, fence) of
        (None, None) \<Rightarrow> Inr ()
      | (Some o', Some f) \<Rightarrow>
          guard (list_ex (\<lambda>l. lease_match r o' f l \<and> at < le_expires_at l) (db_leases d))
            (LeaseLostError o' r)
      | _ \<Rightarrow> Inl OwnerAndFenceTogether)"

definition require_active_attempt :: "db \<Rightarrow> step_row \<Rightarrow> timestamp \<Rightarrow> string option \<Rightarrow> int option
    \<Rightarrow> storage_error + unit" where
  "require_active_attempt d row at owner fence =
     rbind (require_lease d (sr_run_id row) at owner fence) (\<lambda>_.
       guard (sr_status row = STEP_INTENT_RECORDED) (NoActiveAttempt (sr_id row)))"

section \<open>The four transitions of a step\<close>

definition update_step :: "string \<Rightarrow> string \<Rightarrow> (step_row \<Rightarrow> step_row) \<Rightarrow> db \<Rightarrow> db" where
  "update_step r i f d =
     d\<lparr>db_steps := update_where (\<lambda>s. sr_run_id s = r \<and> sr_id s = i) f (db_steps d)\<rparr>"

definition update_run :: "string \<Rightarrow> (workflow_run_row \<Rightarrow> workflow_run_row) \<Rightarrow> db \<Rightarrow> db" where
  "update_run r f d = d\<lparr>db_runs := update_where (\<lambda>w. rr_run_id w = r) f (db_runs d)\<rparr>"

definition record_attempt_body :: "timestamp \<Rightarrow> timestamp \<Rightarrow> string \<Rightarrow> string \<Rightarrow> string option
    \<Rightarrow> int option \<Rightarrow> db \<Rightarrow> storage_error + step_record \<times> db" where
  "record_attempt_body now at r i owner fence d =
     rbind (get_step_row d r i) (\<lambda>row.
     rbind (require_lease d (sr_run_id row) at owner fence) (\<lambda>_.
     rbind (guard (runnable_status (sr_status row)) (NotRunnableError i)) (\<lambda>_.
     rbind (guard (\<not> blocked d r i) (IncompleteDependencies i)) (\<lambda>_.
     let attempt = sr_attempts row + 1 in
     rbind (append_event r STEP_ATTEMPT_STARTED
              (StepAttemptStartedPayload (sr_operation row) (sr_request row)
                 (sr_operation_key row) owner fence) now (Some i) (Some attempt)
              (if owner \<noteq> None then ATTEMPT_EVENT_SCHEMA_VERSION else EVENT_SCHEMA_VERSION) d) (\<lambda>d.
     let d = update_step r i (\<lambda>s. s\<lparr>sr_status := STEP_INTENT_RECORDED, sr_attempts := attempt,
               sr_next_attempt_at := None, sr_last_error := None, sr_updated_at := now\<rparr>) d in
     rbind (get_step_row d r i) (\<lambda>updated.
       Inr (step_from_row updated (dependencies d r), d)))))))"

definition record_attempt :: "timestamp \<Rightarrow> timestamp \<Rightarrow> string \<Rightarrow> string \<Rightarrow> string option
    \<Rightarrow> int option \<Rightarrow> db \<Rightarrow> (storage_error + step_record) \<times> db" where
  "record_attempt now at r i owner fence = transaction (record_attempt_body now at r i owner fence)"

text \<open>The upsert of \<open>tool_throttles\<close>: the later deadline wins, with its reason.\<close>

definition upsert_throttle :: "string \<Rightarrow> timestamp \<Rightarrow> string \<Rightarrow> timestamp \<Rightarrow> db \<Rightarrow> db" where
  "upsert_throttle k until reason now d =
     (if throttle_of d k = None
      then d\<lparr>db_throttles := db_throttles d @ [\<lparr>th_tool_key = k, th_blocked_until = until,
             th_reason = reason, th_updated_at = now\<rparr>]\<rparr>
      else d\<lparr>db_throttles := update_where (\<lambda>t. th_tool_key t = k) (\<lambda>t.
             t\<lparr>th_blocked_until := max (th_blocked_until t) until,
               th_reason := (if th_blocked_until t \<le> until then reason else th_reason t),
               th_updated_at := now\<rparr>) (db_throttles d)\<rparr>)"

definition schedule_retry_body :: "timestamp \<Rightarrow> timestamp \<Rightarrow> string \<Rightarrow> string \<Rightarrow> string \<Rightarrow> timestamp
    \<Rightarrow> string option \<Rightarrow> int option \<Rightarrow> bool \<Rightarrow> db \<Rightarrow> storage_error + unit \<times> db" where
  "schedule_retry_body now at r i error next owner fence throttle d =
     rbind (get_step_row d r i) (\<lambda>row.
     rbind (require_active_attempt d row at owner fence) (\<lambda>_.
     rbind (append_event r STEP_RETRY_SCHEDULED (StepRetryScheduledPayload error next) now
              (Some i) (Some (sr_attempts row)) EVENT_SCHEMA_VERSION d) (\<lambda>d.
     let d = update_step r i (\<lambda>s. s\<lparr>sr_status := STEP_RETRY_WAIT, sr_last_error := Some error,
               sr_next_attempt_at := Some next, sr_updated_at := now\<rparr>) d in
     Inr ((), if throttle then upsert_throttle (sr_tool_key row) next error now d else d))))"

definition schedule_retry :: "timestamp \<Rightarrow> timestamp \<Rightarrow> string \<Rightarrow> string \<Rightarrow> string \<Rightarrow> timestamp
    \<Rightarrow> string option \<Rightarrow> int option \<Rightarrow> bool \<Rightarrow> db \<Rightarrow> (storage_error + unit) \<times> db" where
  "schedule_retry now at r i error next owner fence throttle =
     transaction (schedule_retry_body now at r i error next owner fence throttle)"

definition fail_step_body :: "timestamp \<Rightarrow> timestamp \<Rightarrow> string \<Rightarrow> string \<Rightarrow> string
    \<Rightarrow> string option \<Rightarrow> int option \<Rightarrow> db \<Rightarrow> storage_error + unit \<times> db" where
  "fail_step_body now at r i error owner fence d =
     rbind (get_step_row d r i) (\<lambda>row.
     rbind (require_active_attempt d row at owner fence) (\<lambda>_.
     rbind (append_event r STEP_FAILED_EVENT (StepFailedPayload error) now
              (Some i) (Some (sr_attempts row)) EVENT_SCHEMA_VERSION d) (\<lambda>d.
     rbind (append_event r WORKFLOW_RUN_FAILED (WorkflowRunFailedPayload i error) now
              (Some i) None EVENT_SCHEMA_VERSION d) (\<lambda>d.
     let d = update_step r i (\<lambda>s. s\<lparr>sr_status := STEP_FAILED, sr_last_error := Some error,
               sr_updated_at := now\<rparr>) d;
         d = update_run r (\<lambda>w. w\<lparr>rr_status := FAILED, rr_updated_at := now\<rparr>) d in
     Inr ((), d)))))"

definition fail_step :: "timestamp \<Rightarrow> timestamp \<Rightarrow> string \<Rightarrow> string \<Rightarrow> string
    \<Rightarrow> string option \<Rightarrow> int option \<Rightarrow> db \<Rightarrow> (storage_error + unit) \<times> db" where
  "fail_step now at r i error owner fence =
     transaction (fail_step_body now at r i error owner fence)"

definition remaining_steps :: "db \<Rightarrow> string \<Rightarrow> nat" where
  "remaining_steps d r =
     length (filter (\<lambda>s. sr_run_id s = r \<and> sr_status s \<noteq> STEP_COMPLETED) (db_steps d))"

definition complete_step_body :: "timestamp \<Rightarrow> timestamp \<Rightarrow> string \<Rightarrow> string \<Rightarrow> json
    \<Rightarrow> string option \<Rightarrow> int option \<Rightarrow> db \<Rightarrow> storage_error + unit \<times> db" where
  "complete_step_body now at r i out owner fence d =
     rbind (get_step_row d r i) (\<lambda>row.
     rbind (require_lease d (sr_run_id row) at owner fence) (\<lambda>_.
     if sr_status row \<noteq> STEP_INTENT_RECORDED then Inr ((), d)
     else
     rbind (append_event r STEP_COMPLETED_EVENT (StepCompletedPayload out) now
              (Some i) (Some (sr_attempts row)) EVENT_SCHEMA_VERSION d) (\<lambda>d.
     let d = update_step r i (\<lambda>s. s\<lparr>sr_status := STEP_COMPLETED, sr_output := Some out,
               sr_next_attempt_at := None, sr_last_error := None,
               sr_completed_at := Some now, sr_updated_at := now\<rparr>) d in
     if remaining_steps d r = 0
     then rbind (append_event r WORKFLOW_RUN_COMPLETED WorkflowRunCompletedPayload now
                   None None EVENT_SCHEMA_VERSION d) (\<lambda>d.
          Inr ((), update_run r (\<lambda>w. w\<lparr>rr_status := COMPLETED, rr_completed_at := Some now,
                      rr_updated_at := now\<rparr>) d))
     else Inr ((), d))))"

definition complete_step :: "timestamp \<Rightarrow> timestamp \<Rightarrow> string \<Rightarrow> string \<Rightarrow> json
    \<Rightarrow> string option \<Rightarrow> int option \<Rightarrow> db \<Rightarrow> (storage_error + unit) \<times> db" where
  "complete_step now at r i out owner fence =
     transaction (complete_step_body now at r i out owner fence)"

section \<open>Rebuilding a projection\<close>

text \<open>
  \<open>rebuild_projection\<close> reads and reduces the history first, on connections of its own, and
  then replaces the projection rows in one transaction. The two phases are separate
  definitions, since other workers may commit in between.
\<close>

definition rebuild_read :: "string \<Rightarrow> db \<Rightarrow> storage_error + workflow_run \<times> payload" where
  "rebuild_read r d =
     rbind (list_events r d) (\<lambda>es.
     rbind (reduce_history es) (\<lambda>run.
       (case es of [] \<Rightarrow> Inl (WorkflowRunNotFoundError r)
        | e # _ \<Rightarrow> rbind (case parse_payload WORKFLOW_RUN_CREATED (ev_payload e) of
              None \<Rightarrow> Inl (PayloadTypeError WORKFLOW_RUN_CREATED) | Some p \<Rightarrow> Inr p)
            (\<lambda>p. Inr (run, p)))))"

definition rebuilt_step_row :: "step_record \<Rightarrow> step_row" where
  "rebuilt_step_row s =
     \<lparr>sr_run_id = st_run_id s, sr_id = st_id s, sr_position = st_position s,
      sr_operation = st_operation s, sr_status = st_status s, sr_request = st_request s,
      sr_operation_key = st_operation_key s, sr_tool_key = st_tool_key s,
      sr_output = st_output s, sr_attempts = st_attempts s,
      sr_next_attempt_at = st_next_attempt_at s, sr_last_error = st_last_error s,
      sr_created_at = st_created_at s, sr_updated_at = st_updated_at s,
      sr_completed_at = st_completed_at s\<rparr>"

definition delete_projection :: "string \<Rightarrow> db \<Rightarrow> db" where
  "delete_projection r d =
     d\<lparr>db_leases := filter (\<lambda>l. le_run_id l \<noteq> r) (db_leases d),
       db_dependencies := filter (\<lambda>x. dr_run_id x \<noteq> r) (db_dependencies d),
       db_steps := filter (\<lambda>s. sr_run_id s \<noteq> r) (db_steps d),
       db_runs := filter (\<lambda>w. rr_run_id w \<noteq> r) (db_runs d)\<rparr>"

definition rebuild_write_body :: "string \<Rightarrow> workflow_run \<Rightarrow> payload \<Rightarrow> db \<Rightarrow> storage_error + unit \<times> db" where
  "rebuild_write_body r run created d =
     rbind (insert_run \<lparr>rr_run_id = wr_run_id run, rr_name = wr_name run,
              rr_status = wr_status run, rr_definition = created,
              rr_created_at = wr_created_at run, rr_updated_at = wr_updated_at run,
              rr_completed_at = wr_completed_at run\<rparr> (delete_projection r d)) (\<lambda>d.
     rbind (insert_all insert_step (map rebuilt_step_row (wr_steps run)) d) (\<lambda>d.
     rbind (insert_all insert_dependency
              (concat (map (\<lambda>s. map (\<lambda>x. \<lparr>dr_run_id = r, dr_step_id = st_id s,
                 dr_dependency_step_id = x\<rparr>) (st_depends_on s)) (wr_steps run))) d) (\<lambda>d.
       Inr ((), d))))"

definition rebuild_write :: "string \<Rightarrow> workflow_run \<Rightarrow> payload \<Rightarrow> db
    \<Rightarrow> (storage_error + workflow_run) \<times> db" where
  "rebuild_write r run created d =
     (case transaction (rebuild_write_body r run created) d of
        (Inl e, d') \<Rightarrow> (Inl e, d')
      | (Inr _, d') \<Rightarrow> (get_workflow_run r d', d'))"

definition rebuild_projection :: "string \<Rightarrow> db \<Rightarrow> (storage_error + workflow_run) \<times> db" where
  "rebuild_projection r d =
     (case rebuild_read r d of Inl e \<Rightarrow> (Inl e, d) | Inr (run, p) \<Rightarrow> rebuild_write r run p d)"

section \<open>Collections\<close>

lemmas [op_defs] = transaction_def record_attempt_def schedule_retry_def fail_step_def complete_step_def

lemmas [body_defs] = record_attempt_body_def schedule_retry_body_def fail_step_body_def complete_step_body_def
  require_active_attempt_def

end
