(* ===== verification/Projection.thy ===== *)
theory Projection
  imports Storage
begin

text \<open>
  The scheduling projection is the reduced history. A run is \<open>consistent\<close> in a database
  when reading its projection rows and reducing its events give the same run. The theory
  shows how each table operation acts on the view of one run, that a commit which appends
  events the reducer accepts and updates the rows accordingly keeps consistency, and then
  takes the storage operations one by one.
\<close>

section \<open>Views of one run\<close>

definition run_events :: "db \<Rightarrow> string \<Rightarrow> workflow_run_event list" where
  "run_events d r = filter (\<lambda>e. ev_run_id e = r) (db_events d)"

definition view :: "db \<Rightarrow> string \<Rightarrow> workflow_run option" where
  "view d r = (case get_workflow_run r d of Inl _ \<Rightarrow> None | Inr run \<Rightarrow> Some run)"

definition consistent :: "db \<Rightarrow> string \<Rightarrow> bool" where
  "consistent d r \<longleftrightarrow>
     (\<exists>run. view d r = Some run \<and> reduce_workflow_run_history (run_events d r) = Inr run)"

lemma get_workflow_run_view: "get_workflow_run r d = Inr run \<longleftrightarrow> view d r = Some run"
  by (simp add: view_def split: sum.splits)

lemma view_Some:
  "view d r = Some run \<longleftrightarrow> (\<exists>w. run_row_of d r = Some w \<and>
     run = workflow_run_from_rows w (run_step_rows d r) (dependencies d r))"
  by (auto simp: view_def get_workflow_run_def split: option.splits)

lemma view_alt: "view d r = map_option
    (\<lambda>w. workflow_run_from_rows w (run_step_rows d r) (dependencies d r)) (run_row_of d r)"
  by (simp add: view_def get_workflow_run_def split: option.splits)

lemma run_row_of_Some: "run_row_of d r = Some w \<Longrightarrow> w \<in> set (db_runs d) \<and> rr_run_id w = r"
  unfolding run_row_of_def by (rule find_Some_set)

lemma run_row_of_None: "run_row_of d r = None \<longleftrightarrow> r \<notin> rr_run_id ` set (db_runs d)"
  by (auto simp: run_row_of_def find_None_iff)

lemma view_run_id: "view d r = Some run \<Longrightarrow> wr_run_id run = r"
  by (auto simp: view_Some workflow_run_from_rows_def dest: run_row_of_Some)

lemma view_status:
  "view d r = Some run \<Longrightarrow> \<exists>w. run_row_of d r = Some w \<and> wr_status run = rr_status w"
  by (auto simp: view_Some workflow_run_from_rows_def)

lemma set_run_step_rows: "set (run_step_rows d r) = {s \<in> set (db_steps d). sr_run_id s = r}"
  by (simp add: run_step_rows_def)

lemma wr_steps_view:
  "view d r = Some run \<Longrightarrow> wr_steps run = map (\<lambda>s. step_from_row s (dependencies d r)) (run_step_rows d r)"
  by (auto simp: view_Some workflow_run_from_rows_def)

lemma get_step_row_Inr:
  "get_step_row d r i = Inr row \<Longrightarrow> row \<in> set (db_steps d) \<and> sr_run_id row = r \<and> sr_id row = i"
  by (auto simp: get_step_row_def dest: find_Some_set split: option.splits)

lemma step_from_row_simps [simp]:
  "st_id (step_from_row s deps) = sr_id s"
  "st_run_id (step_from_row s deps) = sr_run_id s"
  "st_status (step_from_row s deps) = sr_status s"
  "st_attempts (step_from_row s deps) = sr_attempts s"
  "st_depends_on (step_from_row s deps) = deps (sr_id s)"
  "st_operation (step_from_row s deps) = sr_operation s"
  "st_request (step_from_row s deps) = sr_request s"
  "st_operation_key (step_from_row s deps) = sr_operation_key s"
  "st_next_attempt_at (step_from_row s deps) = sr_next_attempt_at s"
  "st_last_error (step_from_row s deps) = sr_last_error s"
  "st_output (step_from_row s deps) = sr_output s"
  "st_tool_key (step_from_row s deps) = sr_tool_key s"
  by (simp_all add: step_from_row_def)

lemma step_in_view:
  assumes "view d r = Some run" and "get_step_row d r i = Inr row"
  shows "step_from_row row (dependencies d r) \<in> set (wr_steps run)"
  using get_step_row_Inr [OF assms(2)]
  by (auto simp: wr_steps_view [OF assms(1)] set_run_step_rows)

text \<open>Operations on one run leave the views of the others alone.\<close>

lemma view_cong:
  assumes "db_runs d' = db_runs d" and "db_steps d' = db_steps d"
    and "db_dependencies d' = db_dependencies d"
  shows "view d' r = view d r"
  using assms by (simp add: view_alt run_row_of_def run_step_rows_def dependencies_def [abs_def])

lemma view_update_step_other:
  assumes "\<And>s. sr_run_id (f s) = sr_run_id s" and "r' \<noteq> r"
  shows "view (update_step r i f d) r' = view d r'"
proof -
  have "filter (\<lambda>s. sr_run_id s = r') (db_steps (update_step r i f d)) =
      filter (\<lambda>s. sr_run_id s = r') (db_steps d)"
    using assms by (auto simp: update_step_def filter_update_where intro: update_where_id)
  then show ?thesis
    by (simp add: view_alt run_row_of_def run_step_rows_def dependencies_def [abs_def] update_step_def)
qed

lemma view_update_step:
  assumes v: "view d r = Some run"
    and f: "\<And>s. sr_run_id (f s) = sr_run_id s" "\<And>s. sr_id (f s) = sr_id s"
      "\<And>s. sr_position (f s) = sr_position s"
    and g: "\<And>s. s \<in> set (db_steps d) \<Longrightarrow> sr_run_id s = r \<Longrightarrow> sr_id s = i \<Longrightarrow>
      step_from_row (f s) (dependencies d r) = g (step_from_row s (dependencies d r))"
  shows "view (update_step r i f d) r =
    Some (run\<lparr>wr_steps := update_where (\<lambda>s. st_id s = i) g (wr_steps run)\<rparr>)"
proof -
  let ?q = "\<lambda>s. sr_run_id s = r \<and> sr_id s = i" and ?deps = "dependencies d r"
  have rows: "run_step_rows (update_step r i f d) r = update_where ?q f (run_step_rows d r)"
    unfolding run_step_rows_def update_step_def
    by (simp add: filter_update_where sort_key_update_where f)
  have deps: "dependencies (update_step r i f d) r = ?deps"
    by (simp add: dependencies_def [abs_def] update_step_def)
  have "map (\<lambda>s. step_from_row s ?deps) (update_where ?q f (run_step_rows d r)) =
      update_where (\<lambda>s. st_id s = i) g (map (\<lambda>s. step_from_row s ?deps) (run_step_rows d r))"
    by (auto simp: update_where_def set_run_step_rows g)
  with v rows deps show ?thesis
    by (auto simp: view_Some workflow_run_from_rows_def run_row_of_def update_step_def)
qed

lemma find_update_run:
  assumes "\<And>w. rr_run_id (f w) = rr_run_id w"
  shows "run_row_of (update_run r f d) r' =
    (if r' = r then map_option f (run_row_of d r') else run_row_of d r')"
proof -
  have "find (\<lambda>w. rr_run_id w = r') (update_where (\<lambda>w. rr_run_id w = r) f ws) =
      (if r' = r then map_option f (find (\<lambda>w. rr_run_id w = r') ws)
       else find (\<lambda>w. rr_run_id w = r') ws)" for ws
    using assms by (induction ws) auto
  then show ?thesis by (simp add: run_row_of_def update_run_def)
qed

lemma update_run_simps [simp]:
  "db_steps (update_run r f d) = db_steps d" "db_dependencies (update_run r f d) = db_dependencies d"
  "db_events (update_run r f d) = db_events d" "db_leases (update_run r f d) = db_leases d"
  "db_throttles (update_run r f d) = db_throttles d"
  "run_step_rows (update_run r f d) r' = run_step_rows d r'"
  "dependencies (update_run r f d) r' = dependencies d r'"
  by (simp_all add: update_run_def run_step_rows_def dependencies_def [abs_def])

lemma update_step_simps [simp]:
  "db_runs (update_step r i f d) = db_runs d"
  "db_dependencies (update_step r i f d) = db_dependencies d"
  "db_events (update_step r i f d) = db_events d" "db_leases (update_step r i f d) = db_leases d"
  "db_throttles (update_step r i f d) = db_throttles d"
  by (simp_all add: update_step_def)

lemma view_update_run_other:
  assumes "\<And>w. rr_run_id (f w) = rr_run_id w" and "r' \<noteq> r"
  shows "view (update_run r f d) r' = view d r'"
  using assms by (simp add: view_alt find_update_run)

lemma view_update_run:
  assumes "view d r = Some run" and "\<And>w. rr_run_id (f w) = rr_run_id w"
    and "\<And>w. workflow_run_from_rows (f w) (run_step_rows d r) (dependencies d r) =
      g (workflow_run_from_rows w (run_step_rows d r) (dependencies d r))"
  shows "view (update_run r f d) r = Some (g run)"
  using assms by (auto simp: view_Some find_update_run)

section \<open>Appended events\<close>

lemma append_event_Inr:
  assumes "append_event r et p at step attempt version d = Inr d'"
  obtains e where "d' = d\<lparr>db_events := db_events d @ [e]\<rparr>" and "payload_model p = Some et"
    and "ev_run_id e = r" and "ev_sequence e = next_sequence d r" and "ev_event_type e = et"
    and "ev_schema_version e = version" and "ev_step_id e = step" and "ev_attempt e = attempt"
    and "ev_payload e = p" and "ev_occurred_at e = at"
  using assms by (auto simp: append_event_def canonical_payload_def rbind_Inr_iff split: if_splits)

lemma run_events_append:
  "ev_run_id e = r \<Longrightarrow> run_events (d\<lparr>db_events := db_events d @ [e]\<rparr>) r' =
    run_events d r' @ (if r' = r then [e] else [])"
  by (simp add: run_events_def)

lemma run_events_update [simp]:
  "run_events (update_step r i f d) r' = run_events d r'"
  "run_events (update_run r g d) r' = run_events d r'"
  by (simp_all add: run_events_def)

text \<open>The events of a consistent run are numbered without a gap.\<close>

lemma reduce_run_events:
  assumes "reduce_workflow_run_history (run_events d r) = Inr run"
  shows "fold_events r None 1 (run_events d r) = Inr (Some run)"
    and "map ev_sequence (run_events d r) = map int [1..<Suc (length (run_events d r))]"
    and "next_sequence d r = 1 + int (length (run_events d r))"
proof -
  have "ev_run_id (hd (run_events d r)) = r"
    using reduce_fold(1) [OF assms] hd_in_set [of "run_events d r"] by (simp add: run_events_def)
  with reduce_fold(2) [OF assms] show f: "fold_events r None 1 (run_events d r) = Inr (Some run)"
    by simp
  from fold_events_header(1) [OF f]
  show s: "map ev_sequence (run_events d r) = map int [1..<Suc (length (run_events d r))]"
    by (simp add: map_Suc_upt [symmetric] comp_def del: upt_Suc)
  show "next_sequence d r = 1 + int (length (run_events d r))"
    using max_or_zero_upto [OF s] by (simp add: next_sequence_def flip: run_events_def)
qed

lemma list_events_consistent:
  assumes "reduce_workflow_run_history (run_events d r) = Inr run"
  shows "list_events r d = Inr (run_events d r)"
proof -
  have "sorted (map ev_sequence (run_events d r))"
    unfolding reduce_run_events(2) [OF assms] by (simp add: sorted_wrt_map del: upt_Suc)
  then have "sort_key ev_sequence (run_events d r) = run_events d r" by (rule sort_key_id)
  moreover have "run_events d r \<noteq> []" using reduce_fold(1) [OF assms] .
  ultimately show ?thesis
    by (simp add: list_events_def flip: run_events_def split: list.splits)
qed

lemma consistent_projection_matches:
  assumes "consistent d r"
  shows "projection_matches_history r d = Inr True"
  using assms
  by (auto simp: consistent_def projection_matches_history_def list_events_consistent
      reduce_history_def simp flip: get_workflow_run_view)

section \<open>A commit\<close>

text \<open>
  The shape of every transition: events are appended that the reducer accepts after the
  recorded history, and the rows become those of the new run.
\<close>

lemma consistent_commit:
  assumes red: "reduce_workflow_run_history (run_events d r) = Inr run"
    and ev: "run_events d' r = run_events d r @ es"
    and fold: "fold_events r (Some run) (1 + int (length (run_events d r))) es = Inr (Some run')"
    and out: "check_outcome run' = Inr run'"
    and v: "view d' r = Some run'"
  shows "consistent d' r"
proof -
  have ne: "run_events d r \<noteq> []" using reduce_fold(1) [OF red] .
  have hd: "ev_run_id (hd (run_events d r)) = r"
    using ne hd_in_set [of "run_events d r"] by (simp add: run_events_def)
  have "fold_events r None 1 (run_events d r @ es) = Inr (Some run')"
    using reduce_run_events(1) [OF red] fold by (simp add: fold_events_append)
  then have "reduce_workflow_run_history (run_events d r @ es) = Inr run'"
    using ne hd out by (cases "run_events d r") (simp_all add: reduce_workflow_run_history_def
        del: fold_events.simps)
  with ev v show ?thesis by (simp add: consistent_def)
qed

lemma consistent_other:
  assumes "consistent d r" and "run_events d' r = run_events d r" and "view d' r = view d r"
  shows "consistent d' r"
  using assms by (simp add: consistent_def)

lemma supported_versions [simp]:
  "supported_schema_version 1" "supported_schema_version 2" "supported_schema_version 3"
  by (simp_all add: supported_schema_version_def)

text \<open>One step event, as the reducer sees it, for the row that the operation updated.\<close>

lemma apply_step_event_append:
  assumes run: "wr_status run = RUNNING" "wf_run run"
    and e: "ev_run_id e = r" "ev_sequence e = n" "ev_step_id e = Some i" "ev_attempt e = Some m"
      "supported_schema_version (ev_schema_version e)" "ev_payload e = p"
      "payload_model p = Some (ev_event_type e)"
    and et: "ev_event_type e \<in> {STEP_ATTEMPT_STARTED, STEP_RETRY_SCHEDULED, STEP_COMPLETED_EVENT,
      STEP_FAILED_EVENT}"
    and s: "s \<in> set (wr_steps run)" "st_id s = i" "apply_step_event run s e m p = Inr s'"
  shows "apply_event r (Some run) n e =
    Inr (run\<lparr>wr_steps := update_where (\<lambda>x. st_id x = i) (\<lambda>_. s') (wr_steps run)\<rparr>)"
proof -
  have dist: "distinct (map st_id (wr_steps run))" using run(2) by (simp add: wf_run_def step_ids_def)
  obtain k where k: "find_index (\<lambda>x. st_id x = i) (wr_steps run) = Some (k, s)"
  proof (cases "find_index (\<lambda>x. st_id x = i) (wr_steps run)")
    case None
    with s show ?thesis by (auto simp: find_index_None)
  next
    case (Some q)
    then obtain k y where q: "find_index (\<lambda>x. st_id x = i) (wr_steps run) = Some (k, y)"
      by (cases q) auto
    with find_index_Some [OF q] distinct_id_eq [OF dist s(1)] s(2) that show ?thesis by auto
  qed
  have step: "apply_step_payload run e p =
      Inr (run\<lparr>wr_steps := update_where (\<lambda>x. st_id x = i) (\<lambda>_. s') (wr_steps run)\<rparr>)"
    using e s k list_update_find_index [OF k dist, of "\<lambda>_. s'"]
    by (simp add: apply_step_payload_def find_step_with_index_def)
  show ?thesis
    using e et run(1) step
    by (cases p) (auto simp: apply_event_def parse_payload_def apply_payload_def)
qed

section \<open>The database invariant\<close>

text \<open>
  Run ids are \<open>str(uuid4())\<close>: lower-case hexadecimal digits and dashes. They contain no
  colon, so \<open>run_id:step_id\<close> names one step, and no wildcard of SQL's \<open>LIKE\<close>.
\<close>

definition uuid_ok :: "string \<Rightarrow> bool" where
  "uuid_ok r \<longleftrightarrow> r \<noteq> [] \<and> list_all (\<lambda>c. c \<in> set ''0123456789abcdef-'') r"

lemma uuid_ok_no_colon: "uuid_ok r \<Longrightarrow> CHR '':'' \<notin> set r"
proof
  assume "uuid_ok r" and "CHR '':'' \<in> set r"
  then have "CHR '':'' \<in> set ''0123456789abcdef-''" unfolding uuid_ok_def list_all_iff by blast
  then show False by simp
qed

definition run_ids :: "db \<Rightarrow> string set" where
  "run_ids d = rr_run_id ` set (db_runs d)"

definition db_ok :: "db \<Rightarrow> bool" where
  "db_ok d \<longleftrightarrow>
     distinct (map rr_run_id (db_runs d)) \<and> (\<forall>r \<in> run_ids d. consistent d r) \<and>
     sr_run_id ` set (db_steps d) \<subseteq> run_ids d \<and>
     dr_run_id ` set (db_dependencies d) \<subseteq> run_ids d \<and>
     ev_run_id ` set (db_events d) \<subseteq> run_ids d \<and>
     le_run_id ` set (db_leases d) \<subseteq> run_ids d \<and>
     distinct (map le_run_id (db_leases d)) \<and>
     (\<forall>r \<in> run_ids d. uuid_ok r)"

lemma db_okD:
  assumes "db_ok d"
  shows "r \<in> run_ids d \<Longrightarrow> consistent d r" and "sr_run_id ` set (db_steps d) \<subseteq> run_ids d"
    and "dr_run_id ` set (db_dependencies d) \<subseteq> run_ids d"
    and "ev_run_id ` set (db_events d) \<subseteq> run_ids d"
    and "le_run_id ` set (db_leases d) \<subseteq> run_ids d"
    and "distinct (map le_run_id (db_leases d))" and "distinct (map rr_run_id (db_runs d))"
    and "\<forall>r \<in> run_ids d. uuid_ok r"
  using assms by (simp_all add: db_ok_def)

lemma db_okI:
  assumes "distinct (map rr_run_id (db_runs d))" and "\<And>r. r \<in> run_ids d \<Longrightarrow> consistent d r"
    and "sr_run_id ` set (db_steps d) \<subseteq> run_ids d"
    and "dr_run_id ` set (db_dependencies d) \<subseteq> run_ids d"
    and "ev_run_id ` set (db_events d) \<subseteq> run_ids d"
    and "le_run_id ` set (db_leases d) \<subseteq> run_ids d"
    and "distinct (map le_run_id (db_leases d))" and "\<forall>r \<in> run_ids d. uuid_ok r"
  shows "db_ok d"
  using assms by (simp add: db_ok_def)

lemma db_ok_empty: "db_ok empty_db"
  by (simp add: db_ok_def empty_db_def run_ids_def)

lemma db_ok_view:
  assumes "db_ok d" and "view d r = Some run"
  shows "reduce_workflow_run_history (run_events d r) = Inr run" and "wf_run run"
    and "check_outcome run = Inr run"
proof -
  have "r \<in> run_ids d"
    using assms(2) run_row_of_Some by (force simp: view_Some run_ids_def)
  with assms show "reduce_workflow_run_history (run_events d r) = Inr run"
    by (auto simp: db_ok_def consistent_def)
  then show "wf_run run" and "check_outcome run = Inr run"
    using reduced_run_wf reduce_fold(3) by blast+
qed

text \<open>A transition of run \<open>r\<close> keeps the invariant when it keeps \<open>r\<close> consistent.\<close>

lemma db_ok_commit:
  assumes ok: "db_ok d"
    and ids: "map rr_run_id (db_runs d') = map rr_run_id (db_runs d)"
      "map sr_run_id (db_steps d') = map sr_run_id (db_steps d)"
      "db_dependencies d' = db_dependencies d"
      "map le_run_id (db_leases d') = map le_run_id (db_leases d)"
      "ev_run_id ` set (db_events d') \<subseteq> insert r (ev_run_id ` set (db_events d))"
    and mem: "r \<in> run_ids d" and cons: "consistent d' r"
    and other: "\<And>r'. r' \<noteq> r \<Longrightarrow> run_events d' r' = run_events d r' \<and> view d' r' = view d r'"
  shows "db_ok d'"
proof -
  have sets: "run_ids d' = run_ids d" "sr_run_id ` set (db_steps d') = sr_run_id ` set (db_steps d)"
    "le_run_id ` set (db_leases d') = le_run_id ` set (db_leases d)"
    using ids by (metis run_ids_def set_map)+
  have "consistent d' r'" if mem': "r' \<in> run_ids d" for r'
  proof (cases "r' = r")
    case True
    with cons show ?thesis by simp
  next
    case False
    have "consistent d r'" using ok mem' by (rule db_okD)
    then show ?thesis using other [OF False] consistent_other by blast
  qed
  moreover have "ev_run_id ` set (db_events d') \<subseteq> run_ids d"
    using db_okD(4) [OF ok] ids(5) mem by blast
  ultimately show ?thesis
    using db_okD(2,3,5,6,7,8) [OF ok] by (intro db_okI) (simp_all only: ids sets)
qed

end
