(* ===== verification/Transitions.thy ===== *)
theory Transitions
  imports Projection
begin

text \<open>
  The storage operations keep the database invariant: each appends events that the
  reducer accepts after the recorded history, and rewrites the rows to the run the reducer
  then computes. History and rows are followed separately through an operation (they
  disagree between an \<open>append_event\<close> and the row update) and meet again at the commit.
\<close>

section \<open>Following history and rows\<close>

definition history :: "db \<Rightarrow> string \<Rightarrow> workflow_run \<Rightarrow> bool" where
  "history d r run \<longleftrightarrow> fold_events r None 1 (run_events d r) = Inr (Some run)"

lemma history_next_sequence:
  assumes "history d r run"
  shows "next_sequence d r = 1 + int (length (run_events d r))"
proof -
  have "map ev_sequence (run_events d r) = map int [1..<Suc (length (run_events d r))]"
    using fold_events_header(1) [OF assms [unfolded history_def]]
    by (simp add: map_Suc_upt [symmetric] comp_def del: upt_Suc)
  from max_or_zero_upto [OF this] show ?thesis
    by (simp add: next_sequence_def flip: run_events_def)
qed

lemma history_consistent:
  assumes "history d r run" and "view d r = Some run" and "check_outcome run = Inr run"
  shows "consistent d r"
proof -
  obtain e es where es: "run_events d r = e # es"
    using assms(1) by (cases "run_events d r") (auto simp: history_def)
  then have "ev_run_id e = r" by (auto simp: run_events_def filter_eq_Cons_iff)
  with es assms have "reduce_workflow_run_history (run_events d r) = Inr run"
    by (simp add: reduce_workflow_run_history_def history_def del: fold_events.simps)
  with assms(2) show ?thesis by (simp add: consistent_def)
qed

lemma db_ok_history:
  assumes "db_ok d" and "view d r = Some run"
  shows "history d r run"
  using reduce_run_events(1) [OF db_ok_view(1) [OF assms]] by (simp add: history_def)

lemma history_append:
  assumes "history d r run" and "append_event r et p at step attempt version d = Inr d'"
    and "\<And>e. payload_model p = Some et \<Longrightarrow> ev_run_id e = r \<Longrightarrow>
      ev_sequence e = 1 + int (length (run_events d r)) \<Longrightarrow>
      ev_event_type e = et \<Longrightarrow> ev_schema_version e = version \<Longrightarrow> ev_step_id e = step \<Longrightarrow>
      ev_attempt e = attempt \<Longrightarrow> ev_payload e = p \<Longrightarrow> ev_occurred_at e = at \<Longrightarrow>
      apply_event r (Some run) (1 + int (length (run_events d r))) e = Inr run'"
  shows "history d' r run'"
  using assms(2)
proof (rule append_event_Inr)
  fix e
  assume e: "d' = d\<lparr>db_events := db_events d @ [e]\<rparr>" "payload_model p = Some et"
    "ev_run_id e = r" "ev_sequence e = next_sequence d r" "ev_event_type e = et"
    "ev_schema_version e = version" "ev_step_id e = step" "ev_attempt e = attempt"
    "ev_payload e = p" "ev_occurred_at e = at"
  have "apply_event r (Some run) (1 + int (length (run_events d r))) e = Inr run'"
    using assms(3) e history_next_sequence [OF assms(1)] by simp
  with assms(1) show ?thesis
    by (simp add: history_def e(1) run_events_append [OF e(3)] fold_events_snoc)
qed

lemma history_update [simp]:
  "history (update_step r i f d) r' run = history d r' run"
  "history (update_run r g d) r' run = history d r' run"
  by (simp_all add: history_def)

lemma view_append [simp]: "view (d\<lparr>db_events := es\<rparr>) r = view d r"
  by (rule view_cong) simp_all

lemma view_append_event:
  "append_event r et p at step attempt version d = Inr d' \<Longrightarrow> view d' r' = view d r'"
  by (erule append_event_Inr) (simp add: view_append)

section \<open>What an operation on one run leaves alone\<close>

definition frame :: "string \<Rightarrow> db \<Rightarrow> db \<Rightarrow> bool" where
  "frame r d d' \<longleftrightarrow>
     map rr_run_id (db_runs d') = map rr_run_id (db_runs d) \<and>
     map sr_run_id (db_steps d') = map sr_run_id (db_steps d) \<and>
     db_dependencies d' = db_dependencies d \<and> db_leases d' = db_leases d \<and>
     ev_run_id ` set (db_events d') \<subseteq> insert r (ev_run_id ` set (db_events d)) \<and>
     (\<forall>r'. r' \<noteq> r \<longrightarrow> run_events d' r' = run_events d r' \<and> view d' r' = view d r')"

lemma frame_refl [simp]: "frame r d d"
  by (auto simp: frame_def)

lemma frame_trans:
  assumes "frame r d d'" and "frame r d' d''"
  shows "frame r d d''"
proof -
  have "ev_run_id ` set (db_events d'') \<subseteq> insert r (ev_run_id ` set (db_events d))"
    using assms unfolding frame_def by blast
  then show ?thesis using assms by (simp add: frame_def)
qed

lemma frame_append: "append_event r et p at step attempt version d = Inr d' \<Longrightarrow> frame r d d'"
  by (erule append_event_Inr) (simp add: frame_def run_events_append view_append)

lemma frame_update_step:
  assumes "\<And>s. sr_run_id (f s) = sr_run_id s"
  shows "frame r d (update_step r i f d)"
proof -
  have "map sr_run_id (db_steps (update_step r i f d)) = map sr_run_id (db_steps d)"
    using assms by (simp add: update_step_def map_update_where)
  with assms show ?thesis by (auto simp: frame_def view_update_step_other)
qed

lemma frame_update_run:
  assumes "\<And>w. rr_run_id (f w) = rr_run_id w"
  shows "frame r d (update_run r f d)"
proof -
  have "map rr_run_id (db_runs (update_run r f d)) = map rr_run_id (db_runs d)"
    using assms by (simp add: update_run_def map_update_where)
  with assms show ?thesis by (auto simp: frame_def view_update_run_other)
qed

lemma upsert_throttle_simps [simp]:
  "db_runs (upsert_throttle k until reason now d) = db_runs d"
  "db_steps (upsert_throttle k until reason now d) = db_steps d"
  "db_dependencies (upsert_throttle k until reason now d) = db_dependencies d"
  "db_events (upsert_throttle k until reason now d) = db_events d"
  "db_leases (upsert_throttle k until reason now d) = db_leases d"
  "run_events (upsert_throttle k until reason now d) r = run_events d r"
  by (simp_all add: upsert_throttle_def run_events_def)

lemma view_throttle [simp]: "view (upsert_throttle k until reason now d) r = view d r"
  by (rule view_cong) simp_all

lemma frame_throttle: "frame r d (upsert_throttle k until reason now d)"
  by (auto simp: frame_def)

lemma db_ok_frame:
  assumes "db_ok d" and "frame r d d'" and "r \<in> run_ids d" and "consistent d' r"
  shows "db_ok d'"
  using assms(2) db_ok_commit [OF assms(1) _ _ _ _ _ assms(3,4)] by (simp add: frame_def)

lemma view_in_run_ids: "view d r = Some run \<Longrightarrow> r \<in> run_ids d"
  by (auto simp: view_Some run_ids_def dest: run_row_of_Some)

section \<open>The updated row and the reduced step\<close>

lemma unique_row:
  assumes "view d r = Some run" and "wf_run run" and "s \<in> set (db_steps d)" and "t \<in> set (db_steps d)"
    and "sr_run_id s = r" and "sr_run_id t = r" and "sr_id s = sr_id t"
  shows "s = t"
proof -
  have "distinct (map sr_id (run_step_rows d r))"
    using assms(2) wr_steps_view [OF assms(1)] by (simp add: wf_run_def step_ids_def comp_def)
  moreover have "s \<in> set (run_step_rows d r)" "t \<in> set (run_step_rows d r)"
    using assms by (simp_all add: set_run_step_rows)
  ultimately show ?thesis using assms(7) by (meson distinct_map inj_onD)
qed

text \<open>Rewriting the row \<open>row\<close> of step \<open>i\<close> replaces that step in the view.\<close>

lemma view_rewrite_row:
  assumes v: "view d r = Some run" and wf: "wf_run run" and row: "get_step_row d r i = Inr row"
    and f: "\<And>s. sr_run_id (f s) = sr_run_id s" "\<And>s. sr_id (f s) = sr_id s"
      "\<And>s. sr_position (f s) = sr_position s"
    and s': "step_from_row (f row) (dependencies d r) = s'"
  shows "view (update_step r i f d) r =
    Some (run\<lparr>wr_steps := update_where (\<lambda>x. st_id x = i) (\<lambda>_. s') (wr_steps run)\<rparr>)"
proof (rule view_update_step [OF v f])
  fix s assume "s \<in> set (db_steps d)" "sr_run_id s = r" "sr_id s = i"
  with unique_row [OF v wf] get_step_row_Inr [OF row] have "s = row" by blast
  with s' show "step_from_row (f s) (dependencies d r) = s'" by simp
qed

lemma get_step_row_append:
  "append_event r et p at step attempt version d = Inr d' \<Longrightarrow> get_step_row d' r' i = get_step_row d r' i"
  by (erule append_event_Inr) (simp add: get_step_row_def)

lemma dependencies_append:
  "append_event r et p at step attempt version d = Inr d' \<Longrightarrow> dependencies d' r' = dependencies d r'"
  by (erule append_event_Inr) (simp add: dependencies_def [abs_def])

text \<open>\<open>NOT EXISTS\<close> of an incomplete dependency is the reducer's subset test.\<close>

lemma not_blocked_deps:
  assumes v: "view d r = Some run" and wf: "wf_run run" and row: "get_step_row d r i = Inr row"
    and nb: "\<not> blocked d r i"
  shows "set (dependencies d r i) \<subseteq> set (completed_ids (wr_steps run))"
proof
  fix x assume "x \<in> set (dependencies d r i)"
  then obtain q where q: "q \<in> set (db_dependencies d)" "dr_run_id q = r" "dr_step_id q = i"
    "dr_dependency_step_id q = x" by (auto simp: dependencies_def)
  have s: "step_from_row row (dependencies d r) \<in> set (wr_steps run)" using step_in_view [OF v row] .
  with wf have "identity_ok run (step_from_row row (dependencies d r))" by (simp add: wf_run_def)
  then have "x \<in> set (step_ids run)"
    using \<open>x \<in> set (dependencies d r i)\<close> get_step_row_Inr [OF row] by (auto simp: identity_ok_def)
  then obtain t where t: "t \<in> set (db_steps d)" "sr_run_id t = r" "sr_id t = x"
    by (auto simp: step_ids_def wr_steps_view [OF v] set_run_step_rows)
  with nb q have "sr_status t = STEP_COMPLETED" by (auto simp: blocked_def list_ex_iff)
  with t show "x \<in> set (completed_ids (wr_steps run))"
    by (auto simp: in_completed_ids wr_steps_view [OF v] set_run_step_rows intro!: bexI [of _ t])
qed

lemma check_outcome_running:
  "wr_status run = RUNNING \<Longrightarrow> check_outcome run = Inr run \<longleftrightarrow>
    (\<forall>s \<in> set (wr_steps run). st_status s \<noteq> STEP_FAILED) \<and>
    (\<exists>s \<in> set (wr_steps run). st_status s \<noteq> STEP_COMPLETED)"
  by (auto simp: check_outcome_def list_ex_iff list_all_iff)

lemma check_outcome_terminal: "wr_status run \<noteq> RUNNING \<Longrightarrow> check_outcome run = Inr run"
  by (simp add: check_outcome_def)

text \<open>A step moved to a status that is neither failed nor completed keeps the run open.\<close>

lemma check_outcome_step_update:
  assumes "wr_status run = RUNNING" and "check_outcome run = Inr run"
    and "s \<in> set (wr_steps run)" and "st_id s = i"
    and "st_status s' \<noteq> STEP_FAILED" and "st_status s' \<noteq> STEP_COMPLETED"
  shows "check_outcome (run\<lparr>wr_steps := update_where (\<lambda>x. st_id x = i) (\<lambda>_. s') (wr_steps run)\<rparr>) =
    Inr (run\<lparr>wr_steps := update_where (\<lambda>x. st_id x = i) (\<lambda>_. s') (wr_steps run)\<rparr>)"
  using assms by (subst check_outcome_running)
    (auto simp: check_outcome_running set_update_where)

text \<open>The steps that are completed in a later state of a run and were not before.\<close>

definition new_completions :: "workflow_run \<Rightarrow> workflow_run \<Rightarrow> step_record set" where
  "new_completions run run' =
     {t \<in> set (wr_steps run'). st_status t = STEP_COMPLETED} - set (wr_steps run)"

lemma new_completions_update:
  assumes "wr_steps run' = update_where (\<lambda>x. st_id x = i) (\<lambda>_. s) (wr_steps run)"
  shows "new_completions run run' \<subseteq> (if st_status s = STEP_COMPLETED then {s} else {})"
  using assms by (auto simp: new_completions_def set_update_where)

section \<open>Recording an attempt\<close>

lemma require_lease_Inr:
  "require_lease d r at owner fence = Inr u \<longleftrightarrow>
    owner = None \<and> fence = None \<or>
    (\<exists>o' f. owner = Some o' \<and> fence = Some f \<and>
      (\<exists>l \<in> set (db_leases d). lease_match r o' f l \<and> at < le_expires_at l))"
  by (auto simp: require_lease_def list_ex_iff split: option.splits)

lemma record_attempt_body_Inr:
  assumes "record_attempt_body now at r i owner fence d = Inr (s, d')"
  obtains row d1 where "get_step_row d r i = Inr row" and "require_lease d r at owner fence = Inr ()"
    and "runnable_status (sr_status row)" and "\<not> blocked d r i"
    and "append_event r STEP_ATTEMPT_STARTED
        (StepAttemptStartedPayload (sr_operation row) (sr_request row) (sr_operation_key row) owner fence)
        now (Some i) (Some (sr_attempts row + 1)) (if owner \<noteq> None then 2 else 1) d = Inr d1"
    and "d' = update_step r i (\<lambda>s. s\<lparr>sr_status := STEP_INTENT_RECORDED,
        sr_attempts := sr_attempts row + 1, sr_next_attempt_at := None, sr_last_error := None,
        sr_updated_at := now\<rparr>) d1"
    and "view d r \<noteq> None \<Longrightarrow> db_ok d \<Longrightarrow>
      s = start_attempt now (sr_attempts row + 1) (step_from_row row (dependencies d r))"
proof -
  from assms obtain row d1 updated where *: "get_step_row d r i = Inr row"
    "require_lease d (sr_run_id row) at owner fence = Inr ()" "runnable_status (sr_status row)"
    "\<not> blocked d r i"
    "append_event r STEP_ATTEMPT_STARTED
        (StepAttemptStartedPayload (sr_operation row) (sr_request row) (sr_operation_key row) owner fence)
        now (Some i) (Some (sr_attempts row + 1)) (if owner \<noteq> None then 2 else 1) d = Inr d1"
    "d' = update_step r i (\<lambda>s. s\<lparr>sr_status := STEP_INTENT_RECORDED,
        sr_attempts := sr_attempts row + 1, sr_next_attempt_at := None, sr_last_error := None,
        sr_updated_at := now\<rparr>) d1"
    "get_step_row d' r i = Inr updated" "s = step_from_row updated (dependencies d' r)"
    by (auto simp: record_attempt_body_def rbind_Inr_iff Let_def split: if_splits)
  have "s = start_attempt now (sr_attempts row + 1) (step_from_row row (dependencies d r))"
    if ok: "view d r \<noteq> None" "db_ok d"
  proof -
    obtain run where v: "view d r = Some run" using ok(1) by auto
    have wf: "wf_run run" using db_ok_view(2) [OF ok(2) v] .
    have steps1: "db_steps d1 = db_steps d" "db_dependencies d1 = db_dependencies d"
      using *(5) by (auto elim: append_event_Inr)
    have upd: "updated \<in> set (db_steps d')" "sr_run_id updated = r" "sr_id updated = i"
      using get_step_row_Inr [OF *(7)] by auto
    then obtain t where t: "t \<in> set (db_steps d)" "sr_run_id t = r" "sr_id t = i"
      "updated = t\<lparr>sr_status := STEP_INTENT_RECORDED, sr_attempts := sr_attempts row + 1,
         sr_next_attempt_at := None, sr_last_error := None, sr_updated_at := now\<rparr>"
      unfolding *(6) update_step_def by (auto simp: set_update_where steps1)
    have "t = row" using unique_row [OF v wf] t get_step_row_Inr [OF *(1)] by blast
    moreover have "dependencies d' r = dependencies d r"
      unfolding *(6) by (simp add: dependencies_def [abs_def] steps1)
    ultimately show ?thesis
      unfolding *(8) t(4) by (simp add: step_from_row_def start_attempt_def)
  qed
  with * get_step_row_Inr [OF *(1)] that show thesis by simp
qed

text \<open>The event an operation appended is accepted as a step event of the current run.\<close>

lemma history_step_event:
  assumes h: "history d r run" and wf: "wf_run run" and running: "wr_status run = RUNNING"
    and app: "append_event r et p at (Some i) (Some m) version d = Inr d'"
    and et: "et \<in> {STEP_ATTEMPT_STARTED, STEP_RETRY_SCHEDULED, STEP_COMPLETED_EVENT, STEP_FAILED_EVENT}"
    and ver: "supported_schema_version version"
    and s: "s \<in> set (wr_steps run)" "st_id s = i"
    and step: "\<And>e. ev_schema_version e = version \<Longrightarrow> ev_occurred_at e = at \<Longrightarrow>
      apply_step_event run s e m p = Inr s'"
  shows "history d' r (run\<lparr>wr_steps := update_where (\<lambda>x. st_id x = i) (\<lambda>_. s') (wr_steps run)\<rparr>)"
  by (rule history_append [OF h app], rule apply_step_event_append [OF running wf])
    (use et ver s step in auto)

text \<open>What all transitions of a step share: the appended event is a step event of the current run,
  and the rewritten row is the step that the reducer computes from it.\<close>

lemma step_moved:
  assumes ok: "db_ok d" and v: "view d r = Some run" and running: "wr_status run = RUNNING"
    and row: "get_step_row d r i = Inr row"
    and app: "append_event r et p at (Some i) (Some m) version d = Inr d1"
    and et: "et \<in> {STEP_ATTEMPT_STARTED, STEP_RETRY_SCHEDULED, STEP_COMPLETED_EVENT, STEP_FAILED_EVENT}"
    and ver: "supported_schema_version version"
    and step: "\<And>e. ev_schema_version e = version \<Longrightarrow> ev_occurred_at e = at \<Longrightarrow>
      apply_step_event run (step_from_row row (dependencies d r)) e m p = Inr s'"
    and f: "\<And>s. sr_run_id (f s) = sr_run_id s" "\<And>s. sr_id (f s) = sr_id s" "\<And>s. sr_position (f s) = sr_position s"
    and s': "step_from_row (f row) (dependencies d r) = s'"
    and run': "run' = run\<lparr>wr_steps := update_where (\<lambda>x. st_id x = i) (\<lambda>_. s') (wr_steps run)\<rparr>"
  shows "history d1 r run' \<and> view (update_step r i f d1) r = Some run' \<and> frame r d (update_step r i f d1)"
proof (intro conjI)
  have wf: "wf_run run" using db_ok_view(2) [OF ok v] .
  show "history d1 r run'"
    unfolding run'
    by (rule history_step_event [OF db_ok_history [OF ok v] wf running app et ver _ _ step])
      (use step_in_view [OF v row] get_step_row_Inr [OF row] in simp_all)
  have "view d1 r = Some run" using v view_append_event [OF app] by simp
  then show "view (update_step r i f d1) r = Some run'"
    unfolding run' using row s'
    by (intro view_rewrite_row [OF _ wf _ f]) (simp_all add: get_step_row_append [OF app] dependencies_append [OF app])
  show "frame r d (update_step r i f d1)"
    by (rule frame_trans [OF frame_append [OF app] frame_update_step]) (rule f)
qed

text \<open>A successful \<open>record_attempt\<close> on a running run keeps the invariant; the run's step is
  the returned record.\<close>

lemma record_attempt_ok:
  assumes ok: "db_ok d" and v: "view d r = Some run" and running: "wr_status run = RUNNING"
    and op: "record_attempt_body now at r i owner fence d = Inr (s, d')"
  shows "db_ok d'" and "st_id s = i" and "st_status s = STEP_INTENT_RECORDED"
    and "view d' r = Some (run\<lparr>wr_steps := update_where (\<lambda>x. st_id x = i) (\<lambda>_. s) (wr_steps run)\<rparr>)"
    and "frame r d d'"
proof -
  from op obtain row d1 where row: "get_step_row d r i = Inr row"
    and lease: "require_lease d r at owner fence = Inr ()"
    and st: "runnable_status (sr_status row)" and nb: "\<not> blocked d r i"
    and app: "append_event r STEP_ATTEMPT_STARTED
        (StepAttemptStartedPayload (sr_operation row) (sr_request row) (sr_operation_key row) owner fence)
        now (Some i) (Some (sr_attempts row + 1)) (if owner \<noteq> None then 2 else 1) d = Inr d1"
    and d': "d' = update_step r i (\<lambda>s. s\<lparr>sr_status := STEP_INTENT_RECORDED,
        sr_attempts := sr_attempts row + 1, sr_next_attempt_at := None, sr_last_error := None,
        sr_updated_at := now\<rparr>) d1"
    and s: "s = start_attempt now (sr_attempts row + 1) (step_from_row row (dependencies d r))"
    using record_attempt_body_Inr ok v by (metis option.distinct(1))
  let ?old = "step_from_row row (dependencies d r)"
  let ?run' = "run\<lparr>wr_steps := update_where (\<lambda>x. st_id x = i) (\<lambda>_. s) (wr_steps run)\<rparr>"
  have wf: "wf_run run" and out: "check_outcome run = Inr run" using db_ok_view(2,3) [OF ok v] .
  have s0: "?old \<in> set (wr_steps run)" "st_id ?old = i"
    using step_in_view [OF v row] get_step_row_Inr [OF row] by auto
  have deps: "set (st_depends_on ?old) \<subseteq> set (completed_ids (wr_steps run))"
    using not_blocked_deps [OF v wf row nb] get_step_row_Inr [OF row] by simp
  have "history d1 r ?run' \<and> view d' r = Some ?run' \<and> frame r d d'"
    unfolding d'
    by (rule step_moved [OF ok v running row app])
      (use deps st lease s in \<open>auto simp: require_lease_Inr step_from_row_def start_attempt_def\<close>)
  then have h: "history d' r ?run'" and v': "view d' r = Some ?run'" and f: "frame r d d'" by (simp_all add: d')
  show "view d' r = Some ?run'" "frame r d d'" by (fact v', fact f)
  show "st_id s = i" and status: "st_status s = STEP_INTENT_RECORDED"
    using s0 by (simp_all add: s start_attempt_def)
  have "check_outcome ?run' = Inr ?run'"
    using check_outcome_step_update [OF running out s0] status by simp
  with h v' have "consistent d' r" by (intro history_consistent)
  then show "db_ok d'" using db_ok_frame [OF ok f view_in_run_ids [OF v]] by blast
qed

section \<open>Results of an attempt\<close>

lemma require_active_Inr:
  "require_active_attempt d row at owner fence = Inr u \<longleftrightarrow>
    require_lease d (sr_run_id row) at owner fence = Inr () \<and> sr_status row = STEP_INTENT_RECORDED"
  by (auto simp: require_active_attempt_def rbind_Inr_iff)

lemma schedule_retry_body_Inr:
  assumes "schedule_retry_body now at r i er nx owner fence thr d = Inr (u, d')"
  obtains row d1 where "get_step_row d r i = Inr row" and "require_lease d r at owner fence = Inr ()"
    and "sr_status row = STEP_INTENT_RECORDED"
    and "append_event r STEP_RETRY_SCHEDULED (StepRetryScheduledPayload er nx) now (Some i)
        (Some (sr_attempts row)) 1 d = Inr d1"
    and "d' = (let d2 = update_step r i (\<lambda>s. s\<lparr>sr_status := STEP_RETRY_WAIT,
        sr_last_error := Some er, sr_next_attempt_at := Some nx, sr_updated_at := now\<rparr>) d1
      in if thr then upsert_throttle (sr_tool_key row) nx er now d2 else d2)"
  using assms get_step_row_Inr
  by (auto simp: schedule_retry_body_def rbind_Inr_iff require_active_Inr Let_def split: if_splits)

lemma schedule_retry_ok:
  assumes ok: "db_ok d" and v: "view d r = Some run" and running: "wr_status run = RUNNING"
    and op: "schedule_retry_body now at r i er nx owner fence thr d = Inr (u, d')"
  shows "db_ok d'" and "frame r d d'"
    and "\<exists>run'. view d' r = Some run' \<and> wr_status run' = RUNNING \<and> new_completions run run' = {}"
proof -
  from op obtain row d1 where row: "get_step_row d r i = Inr row"
    and st: "sr_status row = STEP_INTENT_RECORDED"
    and app: "append_event r STEP_RETRY_SCHEDULED (StepRetryScheduledPayload er nx) now (Some i)
        (Some (sr_attempts row)) 1 d = Inr d1"
    and d': "d' = (let d2 = update_step r i (\<lambda>s. s\<lparr>sr_status := STEP_RETRY_WAIT,
        sr_last_error := Some er, sr_next_attempt_at := Some nx, sr_updated_at := now\<rparr>) d1
      in if thr then upsert_throttle (sr_tool_key row) nx er now d2 else d2)"
    by (rule schedule_retry_body_Inr)
  define d2 where "d2 = update_step r i (\<lambda>s. s\<lparr>sr_status := STEP_RETRY_WAIT,
        sr_last_error := Some er, sr_next_attempt_at := Some nx, sr_updated_at := now\<rparr>) d1"
  let ?old = "step_from_row row (dependencies d r)"
  let ?s = "schedule_step_retry now er nx ?old"
  let ?run' = "run\<lparr>wr_steps := update_where (\<lambda>x. st_id x = i) (\<lambda>_. ?s) (wr_steps run)\<rparr>"
  have s0: "?old \<in> set (wr_steps run)" "st_id ?old = i"
    using step_in_view [OF v row] get_step_row_Inr [OF row] by auto
  have "history d1 r ?run' \<and> view d2 r = Some ?run' \<and> frame r d d2"
    unfolding d2_def
    by (rule step_moved [OF ok v running row app])
      (use st in \<open>auto simp: require_current_attempt_def step_from_row_def schedule_step_retry_def\<close>)
  then have h: "history d2 r ?run'" and v2: "view d2 r = Some ?run'" and f2: "frame r d d2"
    by (simp_all add: d2_def)
  have "check_outcome ?run' = Inr ?run'"
    by (rule check_outcome_step_update [OF running db_ok_view(3) [OF ok v] s0])
      (simp_all add: schedule_step_retry_def)
  then have c: "consistent d2 r" using h v2 by (intro history_consistent)
  have d'2: "d' = d2 \<or> d' = upsert_throttle (sr_tool_key row) nx er now d2"
    by (simp add: d' d2_def Let_def)
  then show f: "frame r d d'" using f2 frame_trans [OF f2 frame_throttle] by auto
  have "consistent d' r" using c d'2 by (auto simp: consistent_def)
  then show "db_ok d'" using db_ok_frame [OF ok f view_in_run_ids [OF v]] by blast
  have "new_completions run ?run' = {}"
    using new_completions_update [of ?run' i ?s run] by (simp add: schedule_step_retry_def)
  then show "\<exists>run'. view d' r = Some run' \<and> wr_status run' = RUNNING \<and> new_completions run run' = {}"
    using running d'2 v2 by (intro exI [of _ ?run']) auto
qed

text \<open>The two ways an operation ends its run.\<close>

lemma run_failed_event:
  assumes h: "history d r run" and running: "wr_status run = RUNNING"
    and app: "append_event r WORKFLOW_RUN_FAILED (WorkflowRunFailedPayload i er) now (Some i) None 1 d = Inr d'"
    and s: "find_step run i = Inr s" "st_status s = STEP_FAILED" "st_last_error s = Some er"
  shows "history d' r (run\<lparr>wr_status := FAILED, wr_updated_at := now\<rparr>)"
  using running s
  by (intro history_append [OF h app])
    (simp add: apply_event_def parse_payload_def apply_payload_def apply_run_failed_def)

lemma run_completed_event:
  assumes h: "history d r run" and v: "view d r = Some run" and running: "wr_status run = RUNNING"
    and app: "append_event r WORKFLOW_RUN_COMPLETED WorkflowRunCompletedPayload now None None 1 d = Inr d1"
    and every: "\<forall>s \<in> set (wr_steps run). st_status s = STEP_COMPLETED"
    and d': "d' = update_run r (\<lambda>w. w\<lparr>rr_status := COMPLETED, rr_completed_at := Some now, rr_updated_at := now\<rparr>) d1"
    and run': "run' = run\<lparr>wr_status := COMPLETED, wr_updated_at := now, wr_completed_at := Some now\<rparr>"
  shows "consistent d' r" and "frame r d d'" and "view d' r = Some run'"
proof -
  have "history d1 r run'"
    using running every unfolding run'
    by (intro history_append [OF h app]) (simp add: apply_event_def parse_payload_def
        apply_payload_def apply_run_completed_def list_ex_iff)
  moreover have "view d1 r = Some run" using v view_append_event [OF app] by simp
  then show v': "view d' r = Some run'"
    unfolding d' run' by (rule view_update_run) (simp_all add: workflow_run_from_rows_def)
  moreover have "check_outcome run' = Inr run'" by (rule check_outcome_terminal) (simp add: run')
  ultimately show "consistent d' r" by (intro history_consistent) (simp_all add: d')
  show "frame r d d'"
    unfolding d' by (rule frame_trans [OF frame_append [OF app] frame_update_run]) simp_all
qed

lemma find_step_update:
  assumes "wf_run run" and "s \<in> set (wr_steps run)" and "st_id s = i" and "st_id s' = i"
  shows "find_step (run\<lparr>wr_steps := update_where (\<lambda>x. st_id x = i) (\<lambda>_. s') (wr_steps run)\<rparr>) i = Inr s'"
proof -
  let ?ss = "update_where (\<lambda>x. st_id x = i) (\<lambda>_. s') (wr_steps run)"
  have "find (\<lambda>x. st_id x = i) ?ss = Some s'"
    using find_distinct_eq [of st_id "wr_steps run" s] assms
    by (simp add: wf_run_def step_ids_def find_update_where)
  then show ?thesis
    using find_index_snd [of "\<lambda>x. st_id x = i" ?ss]
    by (cases "find_index (\<lambda>x. st_id x = i) ?ss") (auto simp: find_step_def find_step_with_index_def)
qed

lemma fail_step_body_Inr:
  assumes "fail_step_body now at r i er owner fence d = Inr (u, d')"
  obtains row d1 d2 where "get_step_row d r i = Inr row" and "require_lease d r at owner fence = Inr ()"
    and "sr_status row = STEP_INTENT_RECORDED"
    and "append_event r STEP_FAILED_EVENT (StepFailedPayload er) now (Some i)
        (Some (sr_attempts row)) 1 d = Inr d1"
    and "append_event r WORKFLOW_RUN_FAILED (WorkflowRunFailedPayload i er) now (Some i) None 1 d1 = Inr d2"
    and "d' = update_run r (\<lambda>w. w\<lparr>rr_status := FAILED, rr_updated_at := now\<rparr>)
        (update_step r i (\<lambda>s. s\<lparr>sr_status := STEP_FAILED, sr_last_error := Some er,
           sr_updated_at := now\<rparr>) d2)"
  using assms get_step_row_Inr
  by (auto simp: fail_step_body_def rbind_Inr_iff require_active_Inr Let_def split: if_splits)

lemma fail_step_ok:
  assumes ok: "db_ok d" and v: "view d r = Some run" and running: "wr_status run = RUNNING"
    and op: "fail_step_body now at r i er owner fence d = Inr (u, d')"
  shows "db_ok d'" and "frame r d d'" and "\<exists>run'. view d' r = Some run' \<and> wr_status run' = FAILED \<and> new_completions run run' = {}"
proof -
  from op obtain row d1 d2 where row: "get_step_row d r i = Inr row"
    and st: "sr_status row = STEP_INTENT_RECORDED"
    and app: "append_event r STEP_FAILED_EVENT (StepFailedPayload er) now (Some i)
        (Some (sr_attempts row)) 1 d = Inr d1"
    and app2: "append_event r WORKFLOW_RUN_FAILED (WorkflowRunFailedPayload i er) now (Some i) None 1 d1
        = Inr d2"
    and d': "d' = update_run r (\<lambda>w. w\<lparr>rr_status := FAILED, rr_updated_at := now\<rparr>)
        (update_step r i (\<lambda>s. s\<lparr>sr_status := STEP_FAILED, sr_last_error := Some er,
           sr_updated_at := now\<rparr>) d2)"
    by (rule fail_step_body_Inr)
  let ?old = "step_from_row row (dependencies d r)" and ?f = "\<lambda>s. s\<lparr>sr_status := STEP_FAILED,
      sr_last_error := Some er, sr_updated_at := now\<rparr>"
  let ?s = "mark_step_failed now er ?old"
  define run1 where "run1 = run\<lparr>wr_steps := update_where (\<lambda>x. st_id x = i) (\<lambda>_. ?s) (wr_steps run)\<rparr>"
  define run2 where "run2 = run1\<lparr>wr_status := FAILED, wr_updated_at := now\<rparr>"
  have wf: "wf_run run" using db_ok_view(2) [OF ok v] .
  have s0: "?old \<in> set (wr_steps run)" "st_id ?old = i"
    using step_in_view [OF v row] get_step_row_Inr [OF row] by auto
  have s: "st_id ?s = i" "st_status ?s = STEP_FAILED" "st_last_error ?s = Some er"
    using s0(2) by (simp_all add: mark_step_failed_def)
  have next_none: "st_next_attempt_at ?old = None"
    using wf s0(1) st unfolding wf_run_def fields_ok_def by fastforce
  have moved: "history d1 r run1 \<and> view (update_step r i ?f d1) r = Some run1 \<and> frame r d (update_step r i ?f d1)"
    unfolding run1_def
    by (rule step_moved [OF ok v running row app])
      (use st next_none in \<open>auto simp: require_current_attempt_def step_from_row_def mark_step_failed_def\<close>)
  have "find_step run1 i = Inr ?s" unfolding run1_def by (rule find_step_update [OF wf s0 s(1)])
  then have h: "history d2 r run2"
    using moved running s unfolding run2_def by (intro run_failed_event [OF _ _ app2]) (simp_all add: run1_def)
  have "view (update_step r i ?f d2) r = view (update_step r i ?f d1) r"
    using app2 by (elim append_event_Inr) (auto intro: view_cong simp: update_step_def)
  with moved have "view (update_step r i ?f d2) r = Some run1" by simp
  then have v': "view d' r = Some run2"
    unfolding d' run2_def by (rule view_update_run) (simp_all add: workflow_run_from_rows_def)
  moreover have "new_completions run run2 = {}"
    using new_completions_update [of run2 i ?s run] s by (simp add: run2_def run1_def)
  ultimately show "\<exists>run'. view d' r = Some run' \<and> wr_status run' = FAILED \<and> new_completions run run' = {}"
    by (intro exI [of _ run2]) (simp add: run2_def)
  have "check_outcome run2 = Inr run2" by (rule check_outcome_terminal) (simp add: run2_def)
  with h v' have "consistent d' r" by (intro history_consistent) (simp_all add: d')
  moreover show "frame r d d'"
    unfolding d' by (intro frame_trans [OF frame_append [OF app]] frame_trans [OF frame_append [OF app2]]
        frame_trans [OF frame_update_step frame_update_run]) simp_all
  ultimately show "db_ok d'" using db_ok_frame [OF ok _ view_in_run_ids [OF v]] by blast
qed

lemma complete_step_body_Inr:
  assumes "complete_step_body now at r i out owner fence d = Inr (u, d')"
  obtains (skip) row where "get_step_row d r i = Inr row" and "require_lease d r at owner fence = Inr ()"
    and "sr_status row \<noteq> STEP_INTENT_RECORDED" and "d' = d"
  | (fin) row d1 d2 where "get_step_row d r i = Inr row" and "require_lease d r at owner fence = Inr ()"
    and "sr_status row = STEP_INTENT_RECORDED"
    and "append_event r STEP_COMPLETED_EVENT (StepCompletedPayload out) now (Some i)
        (Some (sr_attempts row)) 1 d = Inr d1"
    and "d2 = update_step r i (\<lambda>s. s\<lparr>sr_status := STEP_COMPLETED, sr_output := Some out,
        sr_next_attempt_at := None, sr_last_error := None, sr_completed_at := Some now,
        sr_updated_at := now\<rparr>) d1"
    and "remaining_steps d2 r \<noteq> 0 \<and> d' = d2 \<or> remaining_steps d2 r = 0 \<and>
        (\<exists>d3. append_event r WORKFLOW_RUN_COMPLETED WorkflowRunCompletedPayload now None None 1 d2
            = Inr d3 \<and>
          d' = update_run r (\<lambda>w. w\<lparr>rr_status := COMPLETED, rr_completed_at := Some now,
                 rr_updated_at := now\<rparr>) d3)"
proof -
  from assms obtain row where row: "get_step_row d r i = Inr row"
    and lease: "require_lease d (sr_run_id row) at owner fence = Inr ()"
    by (auto simp: complete_step_body_def rbind_Inr_iff)
  have r: "sr_run_id row = r" using get_step_row_Inr [OF row] by simp
  show thesis
  proof (cases "sr_status row = STEP_INTENT_RECORDED")
    case False
    with assms row lease r show thesis
      by (intro skip [of row]) (auto simp: complete_step_body_def)
  next
    case True
    let ?f = "\<lambda>s. s\<lparr>sr_status := STEP_COMPLETED, sr_output := Some out,
        sr_next_attempt_at := None, sr_last_error := None, sr_completed_at := Some now,
        sr_updated_at := now\<rparr>"
    from True assms row lease r obtain d1 where
      app: "append_event r STEP_COMPLETED_EVENT (StepCompletedPayload out) now (Some i)
        (Some (sr_attempts row)) 1 d = Inr d1"
      and rest: "(if remaining_steps (update_step r i ?f d1) r = 0
        then rbind (append_event r WORKFLOW_RUN_COMPLETED WorkflowRunCompletedPayload now
                   None None 1 (update_step r i ?f d1)) (\<lambda>d.
          Inr ((), update_run r (\<lambda>w. w\<lparr>rr_status := COMPLETED, rr_completed_at := Some now,
                      rr_updated_at := now\<rparr>) d))
        else Inr ((), update_step r i ?f d1)) = Inr (u, d')"
      by (auto simp: complete_step_body_def rbind_Inr_iff Let_def)
    show thesis
      by (rule fin [OF row _ True app refl])
        (use lease r rest in \<open>auto simp: rbind_Inr_iff split: if_splits\<close>)
  qed
qed

lemma remaining_zero:
  assumes "view d r = Some run"
  shows "remaining_steps d r = 0 \<longleftrightarrow> (\<forall>s \<in> set (wr_steps run). st_status s = STEP_COMPLETED)"
  by (auto simp: remaining_steps_def filter_empty_conv wr_steps_view [OF assms] set_run_step_rows)

text \<open>A completed step with others left: the run stays open.\<close>

lemma check_outcome_open:
  assumes "wr_status run = RUNNING" and "check_outcome run = Inr run" and "st_status s' \<noteq> STEP_FAILED"
    and run': "run' = run\<lparr>wr_steps := update_where (\<lambda>x. st_id x = i) (\<lambda>_. s') (wr_steps run)\<rparr>"
    and "\<exists>s \<in> set (wr_steps run'). st_status s \<noteq> STEP_COMPLETED"
  shows "check_outcome run' = Inr run'"
proof -
  have "\<forall>s \<in> set (wr_steps run'). st_status s \<noteq> STEP_FAILED"
    using assms(1-3) check_outcome_running [OF assms(1)] by (auto simp: run' set_update_where)
  moreover have "wr_status run' = RUNNING" using assms(1) by (simp add: run')
  ultimately show ?thesis using assms(5) by (simp add: check_outcome_running)
qed

lemma complete_step_grows:
  assumes "append_event r STEP_COMPLETED_EVENT p now (Some i) m 1 d = Inr d1" and "d2 = update_step r i f d1"
    and "d' = d2 \<or> (\<exists>d3 g. append_event r WORKFLOW_RUN_COMPLETED q now None None 1 d2 = Inr d3 \<and> d' = update_run r g d3)"
  shows "d' \<noteq> d"
proof -
  have "length (db_events d1) = Suc (length (db_events d))" using assms(1) by (auto elim: append_event_Inr)
  moreover have "length (db_events d2) \<le> length (db_events d')" using assms(3) by (auto elim!: append_event_Inr)
  ultimately show ?thesis by (auto simp: assms(2))
qed

lemma complete_step_ok:
  assumes ok: "db_ok d" and v: "view d r = Some run"
    and op: "complete_step_body now at r i out owner fence d = Inr (u, d')"
    and running: "d' \<noteq> d \<Longrightarrow> wr_status run = RUNNING"
  shows "db_ok d' \<and> frame r d d' \<and> (\<exists>run'. view d' r = Some run' \<and>
    (\<forall>t \<in> new_completions run run'. st_output t = Some out \<and> st_id t = i))"
  using op
proof (cases rule: complete_step_body_Inr)
  case (skip row)
  moreover have "new_completions run run = {}" by (auto simp: new_completions_def)
  ultimately show ?thesis using ok v by simp
next
  case (fin row d1 d2)
  let ?old = "step_from_row row (dependencies d r)"
  let ?new = "finish_step now out ?old"
  define run1 where "run1 = run\<lparr>wr_steps := update_where (\<lambda>x. st_id x = i) (\<lambda>_. ?new) (wr_steps run)\<rparr>"
  have running: "wr_status run = RUNNING"
    by (rule running, rule complete_step_grows [OF fin(4,5)]) (use fin(6) in blast)
  then have running1: "wr_status run1 = RUNNING" by (simp add: run1_def)
  have "history d1 r run1 \<and> view d2 r = Some run1 \<and> frame r d d2"
    unfolding run1_def fin(5)
    by (rule step_moved [OF ok v running fin(1,4)])
      (use fin(3) in \<open>auto simp: require_current_attempt_def step_from_row_def finish_step_def\<close>)
  then have h2: "history d2 r run1" and v2: "view d2 r = Some run1" and f2: "frame r d d2"
    by (simp_all add: fin(5))
  have new: "t \<in> new_completions run run1 \<Longrightarrow> st_output t = Some out \<and> st_id t = i" for t
    using new_completions_update [of run1 i ?new run] get_step_row_Inr [OF fin(1)]
    by (auto simp: run1_def finish_step_def split: if_splits)
  have "\<exists>run'. consistent d' r \<and> frame r d d' \<and> view d' r = Some run' \<and> wr_steps run' = wr_steps run1"
    using fin(6)
  proof (elim disjE conjE exE)
    assume "remaining_steps d2 r \<noteq> 0" and d': "d' = d2"
    then have "check_outcome run1 = Inr run1"
      using remaining_zero [OF v2]
      by (intro check_outcome_open [OF running db_ok_view(3) [OF ok v] _ run1_def]) (auto simp: finish_step_def)
    with h2 v2 f2 show ?thesis unfolding d' using history_consistent by blast
  next
    fix d3
    assume "remaining_steps d2 r = 0"
      and app: "append_event r WORKFLOW_RUN_COMPLETED WorkflowRunCompletedPayload now None None 1 d2 = Inr d3"
      and d': "d' = update_run r (\<lambda>w. w\<lparr>rr_status := COMPLETED, rr_completed_at := Some now,
                 rr_updated_at := now\<rparr>) d3"
    then have "\<forall>s \<in> set (wr_steps run1). st_status s = STEP_COMPLETED" using remaining_zero [OF v2] by blast
    note closed = run_completed_event [OF h2 v2 running1 app this d' refl]
    from closed(1,3) frame_trans [OF f2 closed(2)] show ?thesis by (auto intro: exI [rotated])
  qed
  then obtain run' where "consistent d' r" and f: "frame r d d'" and v': "view d' r = Some run'"
    and steps: "wr_steps run' = wr_steps run1" by blast
  moreover have "\<forall>t \<in> new_completions run run'. st_output t = Some out \<and> st_id t = i"
    using new steps by (auto simp: new_completions_def)
  ultimately show ?thesis using db_ok_frame [OF ok f view_in_run_ids [OF v]] by blast
qed

section \<open>Leases\<close>

lemma db_ok_leases:
  assumes "db_ok d" and "db_runs d' = db_runs d" and "db_steps d' = db_steps d"
    and "db_dependencies d' = db_dependencies d" and "db_events d' = db_events d"
    and "le_run_id ` set (db_leases d') \<subseteq> run_ids d" and "distinct (map le_run_id (db_leases d'))"
  shows "db_ok d'"
proof (rule db_okI)
  have ids: "run_ids d' = run_ids d" using assms by (simp add: run_ids_def)
  show "consistent d' r" if "r \<in> run_ids d'" for r
  proof (rule consistent_other)
    show "consistent d r" using db_okD(1) [OF assms(1)] that ids by simp
    show "run_events d' r = run_events d r" using assms(5) by (simp add: run_events_def)
    show "view d' r = view d r" using assms by (intro view_cong)
  qed
qed (use assms db_okD [OF assms(1)] in \<open>simp_all add: run_ids_def\<close>)

lemma lease_of_Some: "lease_of d r = Some l \<Longrightarrow> l \<in> set (db_leases d) \<and> le_run_id l = r"
  unfolding lease_of_def by (rule find_Some_set)

lemma lease_of_iff:
  assumes "distinct (map le_run_id (db_leases d))"
  shows "lease_of d r = Some l \<longleftrightarrow> l \<in> set (db_leases d) \<and> le_run_id l = r"
proof
  assume "lease_of d r = Some l"
  then show "l \<in> set (db_leases d) \<and> le_run_id l = r" by (rule lease_of_Some)
next
  assume "l \<in> set (db_leases d) \<and> le_run_id l = r"
  with find_distinct_eq [OF assms, of l] show "lease_of d r = Some l" by (simp add: lease_of_def)
qed

lemma upsert_lease_simps [simp]:
  "db_runs (upsert_lease l d) = db_runs d" "db_steps (upsert_lease l d) = db_steps d"
  "db_dependencies (upsert_lease l d) = db_dependencies d" "db_events (upsert_lease l d) = db_events d"
  "db_throttles (upsert_lease l d) = db_throttles d"
  by (simp_all add: upsert_lease_def)

lemma lease_of_upsert:
  "lease_of (upsert_lease l d) r = (if r = le_run_id l then Some l else lease_of d r)"
proof -
  have app: "find p (xs @ [l]) = (case find p xs of None \<Rightarrow> if p l then Some l else None | s \<Rightarrow> s)" for p xs
    by (induction xs) auto
  have upd: "find (\<lambda>x. le_run_id x = r) (update_where (\<lambda>x. le_run_id x = le_run_id l) (\<lambda>_. l) xs) =
      (if r = le_run_id l then (case find (\<lambda>x. le_run_id x = r) xs of None \<Rightarrow> None | _ \<Rightarrow> Some l)
       else find (\<lambda>x. le_run_id x = r) xs)" for xs r
    by (induction xs) (auto split: option.splits)
  show ?thesis
    by (cases "lease_of d (le_run_id l) = None")
      (auto simp: upsert_lease_def lease_of_def app upd simp del: update_where_Cons split: option.splits)
qed

lemma select_runnable_Some:
  assumes "select_runnable d now b = Some s"
  shows "s \<in> set (db_steps d)" and "eligible d now b s"
proof -
  let ?xs = "sort_key (\<lambda>s. run_created_at d (sr_run_id s))
    (sort_key sr_position (filter (eligible d now b) (db_steps d)))"
  from assms have "s \<in> set ?xs"
    unfolding select_runnable_def by (cases ?xs) auto
  then show "s \<in> set (db_steps d)" and "eligible d now b s" by simp_all
qed

lemma claim_body_Inr:
  assumes "claim_body owner ttl now d = Inr (c, d')"
  shows "c = None \<and> d' = d \<and> select_runnable d now True = None \<or>
    (\<exists>row. select_runnable d now True = Some row \<and>
      (let r = sr_run_id row;
           l = \<lparr>le_run_id = r, le_owner_id = owner, le_fence_token = next_fence d r,
                le_expires_at = now + ttl, le_updated_at = now\<rparr>
       in d' = upsert_lease l d \<and>
          c = Some \<lparr>cl_step = step_from_row row (dependencies d r), cl_lease = l\<rparr>))"
  using assms by (auto simp: claim_body_def Let_def dependencies_def [abs_def] split: option.splits)

lemma claim_ok:
  assumes ok: "db_ok d" and op: "claim_body owner ttl now d = Inr (c, d')"
  shows "db_ok d'"
proof -
  from claim_body_Inr [OF op] consider "d' = d"
    | row l where "select_runnable d now True = Some row" "le_run_id l = sr_run_id row"
      "d' = upsert_lease l d"
    unfolding Let_def by (metis workflow_run_lease.select_convs(1))
  then show ?thesis
  proof cases
    case 1
    with ok show ?thesis by simp
  next
    case 2
    have r: "le_run_id l \<in> run_ids d"
      using 2 select_runnable_Some(1) [OF 2(1)] db_okD(2) [OF ok] by auto
    have "le_run_id ` set (db_leases d') \<subseteq> run_ids d"
      using r db_okD(5) [OF ok] by (auto simp: 2(3) upsert_lease_def set_update_where split: if_splits)
    moreover have "distinct (map le_run_id (db_leases d'))"
    proof (cases "lease_of d (le_run_id l) = None")
      case True
      then have "le_run_id l \<notin> le_run_id ` set (db_leases d)"
        by (auto simp: lease_of_def find_None_iff)
      with True db_okD(6) [OF ok] show ?thesis by (simp add: 2(3) upsert_lease_def)
    next
      case False
      have "map le_run_id (update_where (\<lambda>x. le_run_id x = le_run_id l) (\<lambda>_. l) (db_leases d)) =
          map le_run_id (db_leases d)" by (rule map_update_where) simp
      moreover have "db_leases d' = update_where (\<lambda>x. le_run_id x = le_run_id l) (\<lambda>_. l) (db_leases d)"
      proof -
        have "db_leases (d\<lparr>db_leases := ls\<rparr>) = ls" for ls by simp
        with False show ?thesis unfolding 2(3) upsert_lease_def by (simp only: if_False)
      qed
      ultimately show ?thesis using db_okD(6) [OF ok] by (simp only:)
    qed
    ultimately show ?thesis by (rule db_ok_leases [OF ok, rotated -2]) (simp_all add: 2(3))
  qed
qed

lemma update_leases_ok:
  assumes "db_ok d" and "\<And>l. le_run_id (f l) = le_run_id l"
  shows "db_ok (d\<lparr>db_leases := update_where p f (db_leases d)\<rparr>)"
proof -
  have "map le_run_id (update_where p f (db_leases d)) = map le_run_id (db_leases d)"
    using assms(2) by (intro map_update_where)
  then show ?thesis
    using db_okD(5,6) [OF assms(1)] by (intro db_ok_leases [OF assms(1)]) (simp_all flip: set_map)
qed

lemma renew_lease_ok: "db_ok d \<Longrightarrow> db_ok (snd (renew_lease now r owner fence ttl d))"
  by (simp add: renew_lease_def transaction_def Let_def update_leases_ok)

lemma release_lease_ok: "db_ok d \<Longrightarrow> db_ok (snd (release_lease now r owner fence d))"
  by (simp add: release_lease_def transaction_def Let_def update_leases_ok)

end
