(* ===== verification/Creation.thy ===== *)
theory Creation
  imports Transitions
begin

text \<open>
  Writing the rows of a whole run: \<open>create_workflow_run\<close> inserts those of the new run,
  \<open>rebuild_projection\<close> those of the reduced history. The inserts respect every declared
  key, so neither raises, and reading the rows back gives the run they were made from. The
  theory also shows that the two validators of a definition, the one of the API and the
  one of the reducer, accept the same graphs.
\<close>

section \<open>The two validators agree\<close>

lemma materialize_simps [simp]:
  "map sd_id (materialize r tool wd) = map ws_id (wd_steps wd)"
  "length (materialize r tool wd) = length (wd_steps wd)"
  "materialize r tool wd = [] \<longleftrightarrow> wd_steps wd = []"
  "map sd_position (materialize r tool wd) = map int [0..<length (wd_steps wd)]"
  by (simp_all add: materialize_def comp_def case_prod_beta enumerate_eq_zip zip_eq_Nil_iff
      map_map [of int fst, unfolded comp_def, symmetric] flip: map_map [of ws_id snd, unfolded comp_def])

lemma set_materialize: "set (materialize r tool wd) =
    {let s = wd_steps wd ! n in \<lparr>sd_id = ws_id s, sd_position = int n, sd_operation = ws_operation s,
      sd_depends_on = ws_depends_on s, sd_request = ws_request s,
      sd_operation_key = r @ '':'' @ ws_id s, sd_tool_key = tool\<rparr> |n.
      n < length (wd_steps wd)}"
  by (force simp: Let_def materialize_def in_set_enumerate_eq image_iff)

lemma recorded_deps_materialize:
  "recorded_deps (materialize r tool wd) = dependency_sets (wd_steps wd)"
proof
  fix i
  have "find (\<lambda>d. sd_id d = i) (map (\<lambda>(n, s). \<lparr>sd_id = ws_id s, sd_position = int n,
        sd_operation = ws_operation s, sd_depends_on = ws_depends_on s, sd_request = ws_request s,
        sd_operation_key = r @ '':'' @ ws_id s, sd_tool_key = tool\<rparr>) (enumerate k ss)) = None \<and>
      map_of (map (\<lambda>s. (ws_id s, ws_depends_on s)) ss) i = None \<or>
    (\<exists>d. find (\<lambda>d. sd_id d = i) (map (\<lambda>(n, s). \<lparr>sd_id = ws_id s, sd_position = int n,
        sd_operation = ws_operation s, sd_depends_on = ws_depends_on s, sd_request = ws_request s,
        sd_operation_key = r @ '':'' @ ws_id s, sd_tool_key = tool\<rparr>) (enumerate k ss)) = Some d \<and>
      map_of (map (\<lambda>s. (ws_id s, ws_depends_on s)) ss) i = Some (sd_depends_on d))" for k ss
    by (induction ss arbitrary: k) auto
  from this [of 0 "wd_steps wd"]
  show "recorded_deps (materialize r tool wd) i = dependency_sets (wd_steps wd) i"
    by (auto simp: recorded_deps_def dependency_sets_def materialize_def)
qed

lemma ball_materialize:
  "(\<forall>d \<in> set (materialize r tool wd). sd_operation_key d = r @ '':'' @ sd_id d \<and>
      P (sd_id d) (sd_depends_on d)) \<longleftrightarrow>
    (\<forall>s \<in> set (wd_steps wd). P (ws_id s) (ws_depends_on s))"
proof -
  have one: "(\<forall>d \<in> {f n |n. n < N}. Q d) \<longleftrightarrow> (\<forall>n < N. Q (f n))"
    for f :: "nat \<Rightarrow> step_definition" and N Q
    by blast
  show ?thesis
    unfolding set_materialize one by (simp add: Let_def all_set_conv_all_nth [of "wd_steps wd"])
qed

lemma validate_materialize:
  "validate_definitions r (materialize r tool wd) = Inr u \<longleftrightarrow>
    wd_steps wd \<noteq> [] \<and> sound_graph (wd_steps wd)"
  unfolding validate_definitions_Inr sound_graph_def
  using ball_materialize [of r tool wd "\<lambda>i ds. distinct ds \<and> i \<notin> set ds \<and>
      set ds \<subseteq> set (map ws_id (wd_steps wd))"]
  by (simp add: recorded_deps_materialize del: set_map)

section \<open>Inserting rows\<close>

lemma insert_all_steps:
  assumes "run_row_of d r \<noteq> None" and "\<forall>s \<in> set rows. sr_run_id s = r"
    and "distinct (map sr_id rows)" and "distinct (map sr_position rows)"
    and "distinct (map sr_operation_key rows)"
    and "\<forall>x \<in> set (db_steps d). \<forall>s \<in> set rows. sr_operation_key x \<noteq> sr_operation_key s \<and>
      (sr_run_id x = r \<longrightarrow> sr_id x \<noteq> sr_id s \<and> sr_position x \<noteq> sr_position s)"
  shows "insert_all insert_step rows d = Inr (d\<lparr>db_steps := db_steps d @ rows\<rparr>)"
  using assms
proof (induction rows arbitrary: d)
  case Nil
  then show ?case by simp
next
  case (Cons s rows)
  let ?d = "d\<lparr>db_steps := db_steps d @ [s]\<rparr>"
  have "insert_step s d = Inr ?d"
    using Cons.prems by (auto simp: insert_step_def list_ex_iff)
  moreover have "insert_all insert_step rows ?d = Inr (?d\<lparr>db_steps := db_steps ?d @ rows\<rparr>)"
    using Cons.prems by (intro Cons.IH) (auto simp: run_row_of_def image_iff)
  ultimately show ?case by simp
qed

lemma insert_all_dependencies:
  assumes "distinct xs" and "set xs \<inter> set (db_dependencies d) = {}"
    and "\<forall>x \<in> set xs. has_step d (dr_run_id x) (dr_step_id x) \<and>
      has_step d (dr_run_id x) (dr_dependency_step_id x)"
  shows "insert_all insert_dependency xs d = Inr (d\<lparr>db_dependencies := db_dependencies d @ xs\<rparr>)"
  using assms
proof (induction xs arbitrary: d)
  case Nil
  then show ?case by simp
next
  case (Cons x xs)
  let ?d = "d\<lparr>db_dependencies := db_dependencies d @ [x]\<rparr>"
  have "insert_dependency x d = Inr ?d"
    using Cons.prems by (auto simp: insert_dependency_def)
  moreover have "insert_all insert_dependency xs ?d =
      Inr (?d\<lparr>db_dependencies := db_dependencies ?d @ xs\<rparr>)"
    using Cons.prems by (intro Cons.IH) (auto simp: has_step_def)
  ultimately show ?case by simp
qed

text \<open>The rows of a run, as both operations write them.\<close>

definition projected_dependencies :: "string \<Rightarrow> step_record list \<Rightarrow> dependency_row list" where
  "projected_dependencies r ss = concat (map (\<lambda>s. map (\<lambda>x. \<lparr>dr_run_id = r, dr_step_id = st_id s,
     dr_dependency_step_id = x\<rparr>) (st_depends_on s)) ss)"

lemma projected_dependencies_Cons:
  "projected_dependencies r (t # ss) = map (\<lambda>x. \<lparr>dr_run_id = r, dr_step_id = st_id t,
     dr_dependency_step_id = x\<rparr>) (st_depends_on t) @ projected_dependencies r ss"
  by (simp add: projected_dependencies_def)

lemma projected_dependencies_in:
  "x \<in> set (projected_dependencies r ss) \<longleftrightarrow> dr_run_id x = r \<and>
    (\<exists>s \<in> set ss. dr_step_id x = st_id s \<and> dr_dependency_step_id x \<in> set (st_depends_on s))"
  by (cases x) (auto simp: projected_dependencies_def)

lemma distinct_projected_dependencies:
  assumes "distinct (map st_id ss)" and "\<forall>s \<in> set ss. distinct (st_depends_on s)"
  shows "distinct (projected_dependencies r ss)"
  using assms
proof (induction ss)
  case Nil
  then show ?case by (simp add: projected_dependencies_def)
next
  case (Cons s ss)
  then have "distinct (projected_dependencies r ss)" by simp
  moreover have "distinct (map (\<lambda>x. \<lparr>dr_run_id = r, dr_step_id = st_id s,
      dr_dependency_step_id = x\<rparr>) (st_depends_on s))"
    using Cons.prems by (simp add: distinct_map inj_on_def)
  moreover have "x \<notin> set (projected_dependencies r ss)" if "dr_step_id x = st_id s" for x
    using Cons.prems(1) that by (force simp: projected_dependencies_in)
  ultimately show ?case by (auto simp: projected_dependencies_Cons)
qed

lemma filter_projected_dependencies:
  assumes "distinct (map st_id ss)" and "s \<in> set ss"
  shows "map dr_dependency_step_id
      (filter (\<lambda>x. dr_run_id x = r \<and> dr_step_id x = st_id s) (projected_dependencies r ss)) =
    st_depends_on s"
  using assms
proof (induction ss)
  case Nil
  then show ?case by simp
next
  case (Cons t ss)
  show ?case
  proof (cases "s = t")
    case True
    then have "filter (\<lambda>x. dr_run_id x = r \<and> dr_step_id x = st_id s) (projected_dependencies r ss) = []"
      using Cons.prems(1) by (force simp: filter_empty_conv projected_dependencies_in)
    with True show ?thesis by (simp add: projected_dependencies_Cons filter_map comp_def)
  next
    case False
    then have "s \<in> set ss" and "st_id s \<noteq> st_id t" using Cons.prems by (auto simp: image_iff)
    with Cons show ?thesis by (simp add: projected_dependencies_Cons filter_map comp_def)
  qed
qed

text \<open>The database with the rows of \<open>run\<close> written into it.\<close>

definition with_projection :: "workflow_run_row \<Rightarrow> workflow_run \<Rightarrow> db \<Rightarrow> db" where
  "with_projection w run d =
     d\<lparr>db_runs := db_runs d @ [w], db_steps := db_steps d @ map rebuilt_step_row (wr_steps run),
       db_dependencies := db_dependencies d @ projected_dependencies (wr_run_id run) (wr_steps run)\<rparr>"

lemma with_projection_simps [simp]:
  "db_runs (with_projection w run d) = db_runs d @ [w]"
  "db_steps (with_projection w run d) = db_steps d @ map rebuilt_step_row (wr_steps run)"
  "db_dependencies (with_projection w run d) =
     db_dependencies d @ projected_dependencies (wr_run_id run) (wr_steps run)"
  "db_events (with_projection w run d) = db_events d"
  "db_leases (with_projection w run d) = db_leases d"
  "db_throttles (with_projection w run d) = db_throttles d"
  by (simp_all add: with_projection_def)

definition no_rows :: "string \<Rightarrow> db \<Rightarrow> bool" where
  "no_rows r d \<longleftrightarrow> r \<notin> run_ids d \<and> r \<notin> sr_run_id ` set (db_steps d) \<and>
     r \<notin> dr_run_id ` set (db_dependencies d)"

lemma no_rowsD:
  assumes "no_rows r d"
  shows "x \<in> set (db_steps d) \<Longrightarrow> sr_run_id x \<noteq> r" and "y \<in> set (db_dependencies d) \<Longrightarrow> dr_run_id y \<noteq> r"
  using assms by (auto simp: no_rows_def image_iff)

lemma rebuilt_step_row_simps [simp]:
  "sr_run_id (rebuilt_step_row s) = st_run_id s" "sr_id (rebuilt_step_row s) = st_id s"
  "sr_position (rebuilt_step_row s) = st_position s"
  "sr_operation_key (rebuilt_step_row s) = st_operation_key s"
  by (simp_all add: rebuilt_step_row_def)

lemma step_from_rebuilt_row: "deps (st_id s) = st_depends_on s \<Longrightarrow>
    step_from_row (rebuilt_step_row s) deps = s"
  by (simp add: step_from_row_def rebuilt_step_row_def)

text \<open>No insert of the rows of a well-formed run violates a key.\<close>

lemma insert_run_rows:
  assumes wf: "wf_run run" and none: "no_rows (wr_run_id run) d" and w: "rr_run_id w = wr_run_id run"
    and keys: "\<forall>x \<in> set (db_steps d). \<forall>i. sr_operation_key x \<noteq> wr_run_id run @ '':'' @ i"
    and d1: "d1 = d\<lparr>db_runs := db_runs d @ [w]\<rparr>"
  shows "insert_all insert_step (map rebuilt_step_row (wr_steps run)) d1 =
    Inr (d1\<lparr>db_steps := db_steps d1 @ map rebuilt_step_row (wr_steps run)\<rparr>)"
proof (rule insert_all_steps [of _ "wr_run_id run"])
  let ?r = "wr_run_id run" and ?ss = "wr_steps run"
  have ids: "distinct (map st_id ?ss)" and pos: "map st_position ?ss = map int [0..<length ?ss]"
    and id: "\<And>s. s \<in> set ?ss \<Longrightarrow> st_run_id s = ?r \<and> st_operation_key s = ?r @ '':'' @ st_id s"
    using wf by (auto simp: wf_run_def step_ids_def identity_ok_def)
  show "run_row_of d1 ?r \<noteq> None" using w by (simp add: run_row_of_None d1)
  show "distinct (map sr_position (map rebuilt_step_row ?ss))" using pos by (simp add: comp_def distinct_map)
  have "map st_operation_key ?ss = map (\<lambda>i. ?r @ '':'' @ i) (map st_id ?ss)" using id by simp
  moreover have "distinct (map (\<lambda>i. ?r @ '':'' @ i) (map st_id ?ss))"
    using ids by (subst distinct_map) (simp add: inj_on_def)
  ultimately have "distinct (map st_operation_key ?ss)" by (simp only:)
  then show "distinct (map sr_operation_key (map rebuilt_step_row ?ss))" by (simp add: comp_def)
  show "\<forall>x\<in>set (db_steps d1). \<forall>s\<in>set (map rebuilt_step_row ?ss).
      sr_operation_key x \<noteq> sr_operation_key s \<and>
      (sr_run_id x = ?r \<longrightarrow> sr_id x \<noteq> sr_id s \<and> sr_position x \<noteq> sr_position s)"
    using keys id no_rowsD(1) [OF none] by (auto simp: d1)
qed (use wf in \<open>auto simp: comp_def wf_run_def step_ids_def identity_ok_def\<close>)

lemma insert_run_dependencies:
  assumes wf: "wf_run run" and none: "no_rows (wr_run_id run) d"
    and d2: "db_dependencies d2 = db_dependencies d" "set (map rebuilt_step_row (wr_steps run)) \<subseteq> set (db_steps d2)"
  shows "insert_all insert_dependency (projected_dependencies (wr_run_id run) (wr_steps run)) d2 =
    Inr (d2\<lparr>db_dependencies := db_dependencies d2 @ projected_dependencies (wr_run_id run) (wr_steps run)\<rparr>)"
proof (rule insert_all_dependencies)
  let ?r = "wr_run_id run" and ?ss = "wr_steps run"
  have id: "st_run_id s = ?r \<and> distinct (st_depends_on s) \<and> set (st_depends_on s) \<subseteq> set (map st_id ?ss)"
    if "s \<in> set ?ss" for s using wf that by (auto simp: wf_run_def step_ids_def identity_ok_def)
  show "distinct (projected_dependencies ?r ?ss)"
    using wf id by (intro distinct_projected_dependencies) (simp_all add: wf_run_def step_ids_def)
  show "set (projected_dependencies ?r ?ss) \<inter> set (db_dependencies d2) = {}"
    using no_rowsD(2) [OF none] by (auto simp: projected_dependencies_in d2(1))
  have step: "has_step d2 ?r i" if "i \<in> set (map st_id ?ss)" for i
  proof -
    from that obtain s where s: "s \<in> set ?ss" "st_id s = i" by auto
    then have "rebuilt_step_row s \<in> set (db_steps d2)" using d2(2) by auto
    then show ?thesis using s id by (auto simp: has_step_def list_ex_iff intro!: bexI [of _ "rebuilt_step_row s"])
  qed
  show "\<forall>x\<in>set (projected_dependencies ?r ?ss). has_step d2 (dr_run_id x) (dr_step_id x) \<and>
      has_step d2 (dr_run_id x) (dr_dependency_step_id x)"
  proof
    fix x assume "x \<in> set (projected_dependencies ?r ?ss)"
    then obtain s where "dr_run_id x = ?r" "s \<in> set ?ss" "dr_step_id x = st_id s"
      "dr_dependency_step_id x \<in> set (st_depends_on s)" by (auto simp: projected_dependencies_in)
    with id [of s] step show "has_step d2 (dr_run_id x) (dr_step_id x) \<and> has_step d2 (dr_run_id x) (dr_dependency_step_id x)"
      by auto
  qed
qed

lemma insert_projection:
  assumes wf: "wf_run run" and none: "no_rows (wr_run_id run) d"
    and w: "rr_run_id w = wr_run_id run"
    and keys: "\<forall>x \<in> set (db_steps d). \<forall>i. sr_operation_key x \<noteq> wr_run_id run @ '':'' @ i"
  shows "rbind (insert_run w d) (\<lambda>d.
      rbind (insert_all insert_step (map rebuilt_step_row (wr_steps run)) d) (\<lambda>d.
      rbind (insert_all insert_dependency (projected_dependencies (wr_run_id run) (wr_steps run)) d) k)) =
    k (with_projection w run d)"
proof -
  let ?d1 = "d\<lparr>db_runs := db_runs d @ [w]\<rparr>"
  have "insert_run w d = Inr ?d1"
    using none w by (simp add: insert_run_def no_rows_def run_ids_def run_row_of_None)
  then show ?thesis
    by (simp add: insert_run_rows [OF wf none w keys refl] insert_run_dependencies [OF wf none] with_projection_def)
qed

text \<open>Reading the written rows back gives the run; the other runs are as before.\<close>

lemma run_row_of_append:
  "run_row_of d' r = (case run_row_of d r of None \<Rightarrow> if rr_run_id w = r then Some w else None
     | Some x \<Rightarrow> Some x)" if "db_runs d' = db_runs d @ [w]"
proof -
  have "find p (xs @ [w]) = (case find p xs of None \<Rightarrow> if p w then Some w else None | Some x \<Rightarrow> Some x)"
    for p and xs :: "workflow_run_row list"
    by (induction xs) auto
  with that show ?thesis by (simp add: run_row_of_def)
qed

lemma view_with_projection:
  assumes wf: "wf_run run" and none: "no_rows (wr_run_id run) d"
    and w: "rr_run_id w = wr_run_id run" "rr_name w = wr_name run" "rr_status w = wr_status run"
      "rr_created_at w = wr_created_at run" "rr_updated_at w = wr_updated_at run"
      "rr_completed_at w = wr_completed_at run"
  shows "view (with_projection w run d) (wr_run_id run) = Some run"
proof -
  let ?r = "wr_run_id run" and ?ss = "wr_steps run" and ?d = "with_projection w run d"
  have ids: "distinct (map st_id ?ss)" and pos: "map st_position ?ss = map int [0..<length ?ss]"
    and run_id: "\<And>s. s \<in> set ?ss \<Longrightarrow> st_run_id s = ?r"
    using wf by (auto simp: wf_run_def step_ids_def identity_ok_def)
  have row: "run_row_of ?d ?r = Some w"
    using none w(1) run_row_of_None [of d ?r]
    by (simp add: run_row_of_append [of _ d w] no_rows_def run_ids_def)
  have "filter (\<lambda>s. sr_run_id s = ?r) (db_steps d) = []"
    using no_rowsD [OF none] by (auto simp: filter_empty_conv)
  moreover have "filter (\<lambda>s. sr_run_id s = ?r) (map rebuilt_step_row ?ss) = map rebuilt_step_row ?ss"
    using run_id by (simp add: filter_id_conv)
  moreover have "sorted (map sr_position (map rebuilt_step_row ?ss))"
    using pos by (simp add: comp_def sorted_map)
  ultimately have rows: "run_step_rows ?d ?r = map rebuilt_step_row ?ss"
    by (simp add: run_step_rows_def sort_key_id)
  have deps: "dependencies ?d ?r (st_id s) = st_depends_on s" if "s \<in> set ?ss" for s
  proof -
    have "filter (\<lambda>x. dr_run_id x = ?r \<and> dr_step_id x = st_id s) (db_dependencies d) = []"
      using no_rowsD [OF none] by (auto simp: filter_empty_conv)
    then show ?thesis
      by (simp add: dependencies_def filter_projected_dependencies [OF ids that])
  qed
  have "map (\<lambda>s. step_from_row s (dependencies ?d ?r)) (map rebuilt_step_row ?ss) = ?ss"
    using step_from_rebuilt_row deps by (simp add: comp_def map_idI)
  then show ?thesis
    using row rows w by (simp add: view_alt workflow_run_from_rows_def)
qed

lemma view_with_projection_other:
  assumes "r \<noteq> wr_run_id run" and "rr_run_id w = wr_run_id run"
    and "\<And>s. s \<in> set (wr_steps run) \<Longrightarrow> st_run_id s = wr_run_id run"
  shows "view (with_projection w run d) r = view d r"
proof -
  let ?d = "with_projection w run d"
  have "filter (\<lambda>s. sr_run_id s = r) (map rebuilt_step_row (wr_steps run)) = []"
    using assms by (auto simp: filter_empty_conv)
  then have "run_step_rows ?d r = run_step_rows d r" by (simp add: run_step_rows_def)
  moreover have "filter (\<lambda>x. dr_run_id x = r \<and> dr_step_id x = i)
      (projected_dependencies (wr_run_id run) (wr_steps run)) = []" for i
    using assms by (auto simp: filter_empty_conv projected_dependencies_in)
  then have "dependencies ?d r = dependencies d r" by (simp add: dependencies_def [abs_def])
  moreover have "run_row_of ?d r = run_row_of d r"
    using assms by (simp add: run_row_of_append [of _ d w] split: option.splits)
  ultimately show ?thesis by (simp add: view_alt)
qed

section \<open>Deleting the rows of a run\<close>

lemma delete_projection_simps [simp]:
  "db_runs (delete_projection r d) = filter (\<lambda>w. rr_run_id w \<noteq> r) (db_runs d)"
  "db_steps (delete_projection r d) = filter (\<lambda>s. sr_run_id s \<noteq> r) (db_steps d)"
  "db_dependencies (delete_projection r d) = filter (\<lambda>x. dr_run_id x \<noteq> r) (db_dependencies d)"
  "db_leases (delete_projection r d) = filter (\<lambda>l. le_run_id l \<noteq> r) (db_leases d)"
  "db_events (delete_projection r d) = db_events d"
  "db_throttles (delete_projection r d) = db_throttles d"
  "run_events (delete_projection r d) r' = run_events d r'"
  by (simp_all add: delete_projection_def run_events_def)

lemma no_rows_delete [simp]: "no_rows r (delete_projection r d)"
  by (auto simp: no_rows_def run_ids_def)

lemma view_delete_other:
  assumes "r' \<noteq> r"
  shows "view (delete_projection r d) r' = view d r'"
proof -
  have eq: "x \<noteq> r \<and> x = r' \<longleftrightarrow> x = r'" "x \<noteq> r \<and> x = r' \<and> b \<longleftrightarrow> x = r' \<and> b" for x b
    using assms by auto
  show ?thesis
    by (simp add: view_alt run_row_of_def run_step_rows_def dependencies_def [abs_def] find_filter eq)
qed

text \<open>A sound database without the run has none of its rows.\<close>

lemma db_ok_no_rows: "db_ok d \<Longrightarrow> r \<notin> run_ids d \<Longrightarrow> no_rows r d"
  using db_okD(2,3) by (force simp: no_rows_def)

lemma delete_absent:
  assumes ok: "db_ok d" and "r \<notin> run_ids d"
  shows "delete_projection r d = d"
proof -
  have "filter (\<lambda>x. rr_run_id x \<noteq> r) (db_runs d) = db_runs d"
    using assms(2) by (auto simp: filter_id_conv run_ids_def)
  moreover have "filter (\<lambda>x. sr_run_id x \<noteq> r) (db_steps d) = db_steps d"
    "filter (\<lambda>x. dr_run_id x \<noteq> r) (db_dependencies d) = db_dependencies d"
    using no_rowsD [OF db_ok_no_rows [OF assms]] by (auto simp: filter_id_conv)
  moreover have "filter (\<lambda>x. le_run_id x \<noteq> r) (db_leases d) = db_leases d"
    using db_okD(5) [OF ok] assms(2) by (auto simp: filter_id_conv)
  ultimately show ?thesis by (simp add: delete_projection_def)
qed

section \<open>Writing the rows of a run\<close>

text \<open>The rows of a run written in the place of its deleted ones: the other runs are untouched, and
  the database is sound if the run is what its events say.\<close>

lemma written_others:
  assumes "wf_run run" and "rr_run_id w = wr_run_id run" and "r' \<noteq> wr_run_id run"
  shows "view (with_projection w run (delete_projection (wr_run_id run) d)) r' = view d r'"
  using view_with_projection_other [of r' run w] view_delete_other [OF assms(3)] assms
  by (simp add: wf_run_def identity_ok_def)

lemma written_db_ok:
  assumes ok: "db_ok old" and wf: "wf_run run" and w: "rr_run_id w = wr_run_id run" and uuid: "uuid_ok (wr_run_id run)"
    and d': "d' = (with_projection w run (delete_projection (wr_run_id run) old))\<lparr>db_events := es\<rparr>"
    and cons: "consistent d' (wr_run_id run)"
    and es: "\<And>r'. r' \<noteq> wr_run_id run \<Longrightarrow> run_events d' r' = run_events old r'"
      "ev_run_id ` set es \<subseteq> insert (wr_run_id run) (run_ids old)"
  shows "db_ok d'" and "run_ids d' = insert (wr_run_id run) (run_ids old)"
proof -
  let ?r = "wr_run_id run"
  show ids: "run_ids d' = insert ?r (run_ids old)" using w by (auto simp: run_ids_def d')
  have steps: "s \<in> set (wr_steps run) \<Longrightarrow> st_run_id s = ?r" for s using wf by (simp add: wf_run_def identity_ok_def)
  show "db_ok d'"
  proof (rule db_okI)
    show "distinct (map rr_run_id (db_runs d'))" using db_okD(7) [OF ok] w by (auto simp: d' distinct_map_filter)
    show "consistent d' r'" if "r' \<in> run_ids d'" for r'
    proof (cases "r' = ?r")
      case False
      have "consistent old r'" using False that ids db_okD(1) [OF ok] by simp
      moreover have "view d' r' = view old r'" using written_others [OF wf w False] by (simp add: d')
      ultimately show ?thesis by (intro consistent_other [OF _ es(1) [OF False]])
    qed (simp add: cons)
    show "sr_run_id ` set (db_steps d') \<subseteq> run_ids d'" using db_okD(2) [OF ok] steps unfolding ids by (auto simp: d')
    show "dr_run_id ` set (db_dependencies d') \<subseteq> run_ids d'"
      using db_okD(3) [OF ok] unfolding ids by (auto simp: d' projected_dependencies_in)
    show "ev_run_id ` set (db_events d') \<subseteq> run_ids d'" using es(2) unfolding ids by (simp add: d')
    show "le_run_id ` set (db_leases d') \<subseteq> run_ids d'" using db_okD(5) [OF ok] unfolding ids by (auto simp: d')
    show "distinct (map le_run_id (db_leases d'))" using db_okD(6) [OF ok] by (simp add: d' distinct_map_filter)
    show "\<forall>r\<in>run_ids d'. uuid_ok r" using db_okD(8) [OF ok] uuid unfolding ids by simp
  qed
qed

section \<open>Creating a run\<close>

definition created_run :: "string \<Rightarrow> timestamp \<Rightarrow> string \<Rightarrow> workflow_definition \<Rightarrow> workflow_run" where
  "created_run r now tool wd = new_run r now (wd_name wd) (materialize r tool wd)"

lemma created_run_simps [simp]:
  "wr_run_id (created_run r now tool wd) = r" "wr_status (created_run r now tool wd) = RUNNING"
  "wr_name (created_run r now tool wd) = wd_name wd"
  "wr_steps (created_run r now tool wd) = map (new_step r now) (materialize r tool wd)"
  "wr_created_at (created_run r now tool wd) = now" "wr_updated_at (created_run r now tool wd) = now"
  "wr_completed_at (created_run r now tool wd) = None"
  by (simp_all add: created_run_def new_run_def)

lemma new_step_row_rebuilt: "new_step_row r now = rebuilt_step_row \<circ> new_step r now"
  by (auto simp: new_step_row_def rebuilt_step_row_def new_step_def)

lemma dependency_rows_projected:
  "dependency_rows r defs = projected_dependencies r (map (new_step r now) defs)"
  by (simp add: dependency_rows_def projected_dependencies_def comp_def)

text \<open>Operation keys of the recorded steps name their run, so a fresh run id collides with none.\<close>

lemma append_colon_eq:
  assumes "a @ CHR '':'' # i = b @ CHR '':'' # j" and "CHR '':'' \<notin> set a" and "CHR '':'' \<notin> set b"
  shows "a = b \<and> i = j"
  using assms by (induction a b rule: list_induct2') auto

lemma operation_keys_fresh:
  assumes ok: "db_ok d" and "uuid_ok r" and x: "x \<in> set (db_steps d)" "sr_run_id x \<noteq> r"
  shows "sr_operation_key x \<noteq> r @ '':'' @ i"
proof -
  have id: "sr_run_id x \<in> run_ids d" using db_okD(2) [OF ok] x by blast
  with db_okD(1) [OF ok] obtain run where v: "view d (sr_run_id x) = Some run"
    by (auto simp: consistent_def)
  then have "step_from_row x (dependencies d (sr_run_id x)) \<in> set (wr_steps run)"
    using x by (simp add: wr_steps_view set_run_step_rows)
  then have "sr_operation_key x = sr_run_id x @ '':'' @ sr_id x"
    using db_ok_view(2) [OF ok v] view_run_id [OF v] by (force simp: wf_run_def identity_ok_def)
  moreover have "CHR '':'' \<notin> set (sr_run_id x)" and "CHR '':'' \<notin> set r"
    using db_okD(8) [OF ok] id assms(2) uuid_ok_no_colon by blast+
  ultimately show ?thesis
    using append_colon_eq [of "sr_run_id x" "sr_id x" r i] x(2) by auto
qed

lemma reduce_created:
  assumes "validate_definitions r (materialize r tool wd) = Inr ()"
    and e: "ev_run_id e = r" "ev_sequence e = 1" "ev_event_type e = WORKFLOW_RUN_CREATED"
      "ev_schema_version e = 3" "ev_step_id e = None" "ev_attempt e = None" "ev_occurred_at e = now"
      "ev_payload e = WorkflowRunCreatedPayload (wd_name wd) (materialize r tool wd)"
  shows "reduce_workflow_run_history [e] = Inr (created_run r now tool wd)"
proof -
  have "apply_event r None 1 e = Inr (created_run r now tool wd)"
    using assms by (simp add: apply_event_def parse_payload_def apply_payload_def apply_created_def
        created_run_def)
  moreover have "materialize r tool wd \<noteq> []"
    using assms(1) by (auto simp: validate_definitions_Inr)
  then have "check_outcome (created_run r now tool wd) = Inr (created_run r now tool wd)"
    by (cases "materialize r tool wd") (simp_all add: check_outcome_def list_ex_iff)
  ultimately show ?thesis
    using e by (simp add: reduce_workflow_run_history_def)
qed

lemma create_body_ok:
  assumes ok: "db_ok d" and fresh: "r \<notin> run_ids d" "uuid_ok r"
    and graph: "wd_steps wd \<noteq> []" "sound_graph (wd_steps wd)"
  obtains d' where "create_workflow_run_body r now tool wd d = Inr ((), d')" and "db_ok d'"
    and "view d' r = Some (created_run r now tool wd)" and "run_ids d' = insert r (run_ids d)"
    and "db_leases d' = db_leases d" and "db_throttles d' = db_throttles d"
    and "\<And>r'. r' \<noteq> r \<Longrightarrow> view d' r' = view d r' \<and> run_events d' r' = run_events d r'"
proof -
  let ?defs = "materialize r tool wd" and ?run = "created_run r now tool wd"
  let ?w = "\<lparr>rr_run_id = r, rr_name = wd_name wd, rr_status = RUNNING,
      rr_definition = WorkflowRunCreatedPayload (wd_name wd) ?defs, rr_created_at = now,
      rr_updated_at = now, rr_completed_at = None\<rparr>"
  let ?e = "\<lparr>ev_id = max_or_zero (map ev_id (db_events d)) + 1, ev_run_id = r, ev_sequence = 1,
      ev_event_type = WORKFLOW_RUN_CREATED, ev_schema_version = 3, ev_step_id = None,
      ev_attempt = None, ev_payload = WorkflowRunCreatedPayload (wd_name wd) ?defs,
      ev_occurred_at = now\<rparr>"
  let ?p = "with_projection ?w ?run d"
  let ?d = "?p\<lparr>db_events := db_events d @ [?e]\<rparr>"
  have valid: "validate_definitions r ?defs = Inr ()" using graph by (simp add: validate_materialize)
  have red: "reduce_workflow_run_history [?e] = Inr ?run"
    by (rule reduce_created [OF valid]) simp_all
  then have wf: "wf_run ?run" by (rule reduced_run_wf)
  have none: "no_rows (wr_run_id ?run) d" using db_ok_no_rows [OF ok fresh(1)] by simp
  have none_r: "no_rows r d" using none by simp
  have no_events: "run_events d r = []"
    using db_okD(4) [OF ok] fresh(1) by (auto simp: run_events_def filter_empty_conv)
  have "create_workflow_run_body r now tool wd d =
      rbind (append_event r WORKFLOW_RUN_CREATED (WorkflowRunCreatedPayload (wd_name wd) ?defs) now
        None None 3 ?p) (\<lambda>d. Inr ((), d))"
  proof -
    have keys: "\<forall>x \<in> set (db_steps d). \<forall>i. sr_operation_key x \<noteq> wr_run_id ?run @ '':'' @ i"
      using operation_keys_fresh [OF ok fresh(2)] no_rowsD(1) [OF none_r] by simp
    show ?thesis
      using insert_projection [OF wf none _ keys, of ?w "\<lambda>d. rbind (append_event r WORKFLOW_RUN_CREATED
          (WorkflowRunCreatedPayload (wd_name wd) ?defs) now None None 3 d) (\<lambda>d. Inr ((), d))"]
      by (simp add: create_workflow_run_body_def Let_def dependency_rows_projected [of r ?defs now]
          new_step_row_rebuilt)
  qed
  also have "\<dots> = Inr ((), ?d)"
    using no_events
    by (simp add: append_event_def canonical_payload_def next_sequence_def run_events_def max_or_zero_def)
  finally have body: "create_workflow_run_body r now tool wd d = Inr ((), ?d)" .
  have none_left: "delete_projection r d = d" by (rule delete_absent [OF ok fresh(1)])
  have other: "view ?d r' = view d r' \<and> run_events ?d r' = run_events d r'" if "r' \<noteq> r" for r'
    using written_others [OF wf, of ?w r' d] that none_left by (simp add: run_events_def)
  have v: "view ?d r = Some ?run" using view_with_projection [OF wf none, of ?w] by simp
  have "run_events ?d r = [?e]" using no_events by (simp add: run_events_def)
  with v red have "consistent ?d r" by (simp add: consistent_def)
  moreover have "ev_run_id ` set (db_events d @ [?e]) \<subseteq> insert r (run_ids d)" using db_okD(4) [OF ok] by auto
  ultimately have "db_ok ?d" "run_ids ?d = insert r (run_ids d)"
    using written_db_ok [OF ok wf, of ?w ?d "db_events d @ [?e]"] fresh(2) other by (simp_all add: none_left)
  then show thesis using that [OF body _ v] other by simp
qed

section \<open>Rebuilding a projection\<close>

text \<open>\<open>d\<close> is \<open>old\<close> with the projection rows of \<open>r\<close> damaged in any way, its log intact.\<close>

lemma rebuild_read_ok:
  assumes ok: "db_ok old" and v: "view old r = Some run" and ev: "db_events d = db_events old"
  obtains p where "rebuild_read r d = Inr (run, p)"
proof -
  have same: "run_events d r = run_events old r" using ev by (simp add: run_events_def)
  have red: "reduce_workflow_run_history (run_events d r) = Inr run"
    using db_ok_view(1) [OF ok v] by (simp add: same)
  obtain e es where es: "run_events d r = e # es" using reduce_fold(1) [OF red] by (cases "run_events d r") auto
  with reduce_fold(2) [OF red] obtain q where q: "apply_event (ev_run_id e) None 1 e = Inr q"
    by (auto simp: rbind_Inr_iff)
  have "ev_event_type e = WORKFLOW_RUN_CREATED" using first_event_creates(1) [OF q] .
  then have "parse_payload WORKFLOW_RUN_CREATED (ev_payload e) = Some (ev_payload e)"
    using apply_event_payload(3) [OF q] by (simp add: parse_payload_def)
  then show thesis
    using that red es list_events_consistent [OF red]
    by (simp add: rebuild_read_def reduce_history_def)
qed

text \<open>Whatever run was read before, its rows are what the write leaves.\<close>

lemma rebuild_write_any:
  assumes ok: "db_ok old" and mem: "r \<in> run_ids old" and wf: "wf_run run" and r: "wr_run_id run = r"
    and same: "delete_projection r d = delete_projection r old"
  obtains w where "rr_run_id w = r"
    and "rebuild_write r run p d = (Inr run, with_projection w run (delete_projection r old))"
    and "view (with_projection w run (delete_projection r old)) r = Some run"
proof -
  let ?w = "\<lparr>rr_run_id = wr_run_id run, rr_name = wr_name run, rr_status = wr_status run,
      rr_definition = p, rr_created_at = wr_created_at run, rr_updated_at = wr_updated_at run,
      rr_completed_at = wr_completed_at run\<rparr>"
  let ?base = "delete_projection r old"
  let ?d = "with_projection ?w run ?base"
  have none: "no_rows (wr_run_id run) ?base" using r by simp
  have keys: "\<forall>x \<in> set (db_steps ?base). \<forall>i. sr_operation_key x \<noteq> wr_run_id run @ '':'' @ i"
    using operation_keys_fresh [OF ok] db_okD(8) [OF ok] mem r by simp
  have "rebuild_write_body r run p d = Inr ((), ?d)"
    using insert_projection [OF wf none _ keys, of ?w "\<lambda>d. Inr ((), d)"] r
    by (simp add: rebuild_write_body_def same projected_dependencies_def)
  moreover have v: "view ?d r = Some run" using view_with_projection [OF wf none, of ?w] r by simp
  ultimately have "rebuild_write r run p d = (Inr run, ?d)"
    by (simp add: rebuild_write_def transaction_def get_workflow_run_view)
  then show thesis using that [of ?w] v r by simp
qed

lemma rebuild_write_ok:
  assumes ok: "db_ok old" and v: "view old r = Some run"
    and same: "delete_projection r d = delete_projection r old"
  obtains d' where "rebuild_write r run p d = (Inr run, d')" and "db_ok d'"
    and "view d' r = Some run" and "run_ids d' = run_ids old" and "db_events d' = db_events old"
    and "db_leases d' = filter (\<lambda>l. le_run_id l \<noteq> r) (db_leases old)"
    and "\<And>r'. r' \<noteq> r \<Longrightarrow> view d' r' = view old r'"
proof -
  have r: "wr_run_id run = r" and mem: "r \<in> run_ids old" and wf: "wf_run run"
    using view_run_id [OF v] view_in_run_ids [OF v] db_ok_view(2) [OF ok v] by auto
  obtain w where w: "rr_run_id w = r"
    "rebuild_write r run p d = (Inr run, with_projection w run (delete_projection r old))"
    "view (with_projection w run (delete_projection r old)) r = Some run"
    by (rule rebuild_write_any [OF ok mem wf r same])
  let ?d = "with_projection w run (delete_projection r old)"
  have ev: "run_events ?d r' = run_events old r'" for r' by (simp add: run_events_def)
  have "consistent ?d r" by (rule consistent_other [OF db_okD(1) [OF ok mem] ev]) (simp add: w(3) v)
  moreover have "?d = ?d\<lparr>db_events := db_events old\<rparr>"
    by (cases old) (simp add: with_projection_def delete_projection_def)
  moreover have "ev_run_id ` set (db_events old) \<subseteq> insert r (run_ids old)" "uuid_ok r"
    using mem db_okD(4,8) [OF ok] by auto
  ultimately have ok': "db_ok ?d" "run_ids ?d = run_ids old"
    using written_db_ok [OF ok wf, of w ?d "db_events old"] w(1) r ev mem by (simp_all add: insert_absorb)
  show thesis
    by (rule that [OF w(2) ok'(1) w(3) ok'(2)]) (use written_others [OF wf, of w _ old] w(1) r in simp_all)
qed

end
