(* ===== verification/Scheduling.thy ===== *)
theory Scheduling
  imports Creation
begin

text \<open>
  Selecting and claiming work. The theory shows what a claim returns (an eligible step, the
  first in the order of the query, under a fresh fence token), when there is nothing to
  claim, and that a running run always has a step whose dependencies are completed, so that
  only the persisted deadlines (retry, throttle, lease) can delay it.
\<close>

section \<open>The first eligible step\<close>

lemma sort_key_hd_le:
  assumes "sort_key k xs = y # ys" and "x \<in> set xs"
  shows "k y \<le> k x"
proof -
  have "sorted (map k (sort_key k xs))" by (rule sorted_sort_key)
  moreover have "x \<in> set (sort_key k xs)" using assms(2) by simp
  ultimately show ?thesis unfolding assms(1) by auto
qed

text \<open>Sorting by the minor key first and then stably by the major key is the lexicographic order.\<close>

lemma insort_key_Cons_le: "sorted (map k xs) \<Longrightarrow> insort_key k x xs = y # ys \<Longrightarrow>
    y = x \<and> ys = xs \<or> (\<exists>zs. xs = y # zs \<and> k y < k x)"
  by (cases xs) (auto split: if_splits)

lemma sort_key_sorted_hd:
  assumes "sorted (map minor xs)" and "sort_key major xs = y # ys" and "x \<in> set xs"
    and "major x = major y"
  shows "minor y \<le> minor x"
  using assms
proof (induction xs arbitrary: y ys x)
  case Nil
  then show ?case by simp
next
  case (Cons z zs)
  have sorted: "sorted (map major (sort_key major zs))" by simp
  from Cons.prems(2) have "insort_key major z (sort_key major zs) = y # ys" by simp
  from insort_key_Cons_le [OF sorted this] show ?case
  proof (elim disjE exE conjE)
    assume "y = z"
    with Cons.prems(1,3) show ?thesis by auto
  next
    fix us assume us: "sort_key major zs = y # us" and less: "major y < major z"
    then have "x \<in> set zs" using Cons.prems(3,4) by auto
    with Cons.IH [OF _ us] Cons.prems(1,4) show ?thesis by simp
  qed
qed

definition before :: "db \<Rightarrow> step_row \<Rightarrow> step_row \<Rightarrow> bool" where
  "before d s t \<longleftrightarrow> run_created_at d (sr_run_id s) < run_created_at d (sr_run_id t) \<or>
     run_created_at d (sr_run_id s) = run_created_at d (sr_run_id t) \<and> sr_position s \<le> sr_position t"

lemma select_runnable_first:
  assumes "select_runnable d now b = Some s" and "t \<in> set (db_steps d)" and "eligible d now b t"
  shows "before d s t"
proof -
  let ?k = "\<lambda>s. run_created_at d (sr_run_id s)"
  let ?xs = "sort_key sr_position (filter (eligible d now b) (db_steps d))"
  from assms(1) obtain ys where s: "sort_key ?k ?xs = s # ys"
    by (auto simp: select_runnable_def split: list.splits)
  have t: "t \<in> set ?xs" using assms(2,3) by simp
  have "?k s \<le> ?k t" using sort_key_hd_le [OF s t] .
  moreover have "sr_position s \<le> sr_position t" if "?k t = ?k s"
    by (rule sort_key_sorted_hd [OF _ s t that]) simp
  ultimately show ?thesis by (auto simp: before_def)
qed

lemma select_runnable_None:
  "select_runnable d now b = None \<longleftrightarrow> (\<forall>s \<in> set (db_steps d). \<not> eligible d now b s)"
proof -
  have "select_runnable d now b = None \<longleftrightarrow> sort_key (\<lambda>s. run_created_at d (sr_run_id s))
      (sort_key sr_position (filter (eligible d now b) (db_steps d))) = []"
    by (simp add: select_runnable_def split: list.splits)
  also have "\<dots> \<longleftrightarrow> filter (eligible d now b) (db_steps d) = []"
    by (metis length_0_conv length_sort)
  finally show ?thesis by (simp add: filter_empty_conv)
qed

section \<open>A running run can always be resumed\<close>

lemma acyclic_minimal:
  assumes "acyclic (dependency_relation ids deps)" and "S \<noteq> {}" and "S \<subseteq> set ids"
  obtains i where "i \<in> S" and "set (deps i) \<inter> S = {}"
proof -
  have "\<not> stuck deps S"
    using assms by (auto simp: acyclic_iff_no_stuck no_stuck_def)
  then have "\<exists>i \<in> S. \<forall>y \<in> set (deps i). y \<notin> S" using stuckI [OF assms(2), of deps] by blast
  then show thesis using that by blast
qed

text \<open>Some step that is not completed has all its dependencies completed.\<close>

lemma running_has_ready_step:
  assumes wf: "wf_run run" and "wr_status run = RUNNING" and "check_outcome run = Inr run"
  obtains s where "s \<in> set (wr_steps run)" and "runnable_status (st_status s)"
    and "set (st_depends_on s) \<subseteq> set (completed_ids (wr_steps run))"
proof -
  let ?S = "{st_id s |s. s \<in> set (wr_steps run) \<and> st_status s \<noteq> STEP_COMPLETED}"
  have nofail: "\<forall>s \<in> set (wr_steps run). st_status s \<noteq> STEP_FAILED"
    and ne: "?S \<noteq> {}"
    using assms(3) check_outcome_running [OF assms(2)] by auto
  have "acyclic (dependency_relation (step_ids run) (run_deps run))"
    and dist: "distinct (map st_id (wr_steps run))"
    using wf by (simp_all add: wf_run_def step_ids_def)
  moreover have "?S \<subseteq> set (step_ids run)" by (auto simp: step_ids_def)
  ultimately obtain i where i: "i \<in> ?S" "set (run_deps run i) \<inter> ?S = {}"
    using acyclic_minimal [OF _ ne] by blast
  then obtain s where s: "s \<in> set (wr_steps run)" "st_status s \<noteq> STEP_COMPLETED" "st_id s = i" by auto
  have deps: "run_deps run i = st_depends_on s"
    using find_distinct_eq [OF dist s(1)] s(3) by (simp add: run_deps_def)
  have "x \<in> set (completed_ids (wr_steps run))" if "x \<in> set (st_depends_on s)" for x
  proof -
    have "x \<in> set (step_ids run)" using wf s(1) that by (auto simp: wf_run_def identity_ok_def)
    then obtain t where "t \<in> set (wr_steps run)" "st_id t = x" by (auto simp: step_ids_def)
    with i(2) deps that show ?thesis by (auto simp: in_completed_ids)
  qed
  then show thesis
    using that [OF s(1)] s(1,2) nofail by (simp add: runnable_status_iff subset_iff)
qed

section \<open>Claims\<close>

lemma blocked_iff:
  assumes v: "view d r = Some run" and wf: "wf_run run" and row: "get_step_row d r i = Inr row"
  shows "\<not> blocked d r i \<longleftrightarrow> set (dependencies d r i) \<subseteq> set (completed_ids (wr_steps run))"
proof
  show "set (dependencies d r i) \<subseteq> set (completed_ids (wr_steps run))" if "\<not> blocked d r i"
    using not_blocked_deps [OF v wf row that] .
next
  assume sub: "set (dependencies d r i) \<subseteq> set (completed_ids (wr_steps run))"
  show "\<not> blocked d r i"
  proof
    assume "blocked d r i"
    then obtain x s where x: "x \<in> set (db_dependencies d)" "dr_run_id x = r" "dr_step_id x = i"
      and s: "s \<in> set (db_steps d)" "sr_run_id s = r" "sr_id s = dr_dependency_step_id x"
        "sr_status s \<noteq> STEP_COMPLETED"
      by (auto simp: blocked_def list_ex_iff)
    have "dr_dependency_step_id x \<in> set (dependencies d r i)"
      using x by (force simp: dependencies_def)
    then have "sr_id s \<in> set (completed_ids (wr_steps run))" using sub s(3) by auto
    then obtain t where t: "t \<in> set (db_steps d)" "sr_run_id t = r" "sr_id t = sr_id s"
      "sr_status t = STEP_COMPLETED"
      by (auto simp: in_completed_ids wr_steps_view [OF v] set_run_step_rows)
    have "t = s" by (rule unique_row [OF v wf t(1) s(1) t(2) s(2) t(3)])
    with s(4) t(4) show False by simp
  qed
qed

lemma get_step_row_mem:
  assumes v: "view d r = Some run" and wf: "wf_run run" and s: "s \<in> set (db_steps d)" "sr_run_id s = r"
  shows "get_step_row d r (sr_id s) = Inr s"
proof -
  have "find (\<lambda>x. sr_run_id x = r \<and> sr_id x = sr_id s) (db_steps d) \<noteq> None"
    using s by (auto simp: find_None_iff)
  then obtain t where t: "find (\<lambda>x. sr_run_id x = r \<and> sr_id x = sr_id s) (db_steps d) = Some t" by auto
  with find_Some_set [OF t] have "t = s" using unique_row [OF v wf _ s(1) _ s(2)] by blast
  with t show ?thesis by (simp add: get_step_row_def)
qed

text \<open>Eligibility of a row, read off the run its history gives.\<close>

lemma eligible_iff:
  assumes ok: "db_ok d" and v: "view d r = Some run" and s: "s \<in> set (db_steps d)" "sr_run_id s = r"
  shows "eligible d now True s \<longleftrightarrow> wr_status run = RUNNING \<and> runnable_status (sr_status s) \<and>
    due (sr_next_attempt_at s) now \<and>
    due (map_option th_blocked_until (throttle_of d (sr_tool_key s))) now \<and>
    due (map_option le_expires_at (lease_of d r)) now \<and>
    set (dependencies d r (sr_id s)) \<subseteq> set (completed_ids (wr_steps run))"
proof -
  have wf: "wf_run run" using db_ok_view(2) [OF ok v] .
  obtain w where w: "run_row_of d r = Some w" "wr_status run = rr_status w" using view_status [OF v] by blast
  show ?thesis
    using blocked_iff [OF v wf get_step_row_mem [OF v wf s]] s(2) w by (auto simp: eligible_def)
qed

lemma claim_Some:
  assumes "claim_runnable_step owner ttl now d = (Inr (Some c), d')"
  obtains row where "select_runnable d now True = Some row" and "le_run_id (cl_lease c) = sr_run_id row"
    and "cl_lease c = \<lparr>le_run_id = sr_run_id row, le_owner_id = owner,
        le_fence_token = next_fence d (sr_run_id row), le_expires_at = now + ttl, le_updated_at = now\<rparr>"
    and "cl_step c = step_from_row row (dependencies d (sr_run_id row))"
    and "d' = upsert_lease (cl_lease c) d"
  using claim_body_Inr [of owner ttl now d "Some c" d'] assms
  by (auto simp: claim_runnable_step_def transaction_Inr Let_def)

lemma claim_None:
  "claim_runnable_step owner ttl now d = (Inr None, d') \<longleftrightarrow> select_runnable d now True = None \<and> d' = d"
  by (auto simp: claim_runnable_step_def transaction_Inr claim_body_def Let_def split: option.splits)

lemma claim_never_raises: "fst (claim_runnable_step owner ttl now d) \<noteq> Inl e"
  by (simp add: claim_runnable_step_def transaction_def claim_body_def Let_def split: option.splits)

lemma view_of_row:
  assumes "db_ok d" and "s \<in> set (db_steps d)"
  obtains run where "view d (sr_run_id s) = Some run" and "step_from_row s (dependencies d (sr_run_id s)) \<in> set (wr_steps run)"
proof -
  have "sr_run_id s \<in> run_ids d" using db_okD(2) [OF assms(1)] assms(2) by blast
  then obtain run where "view d (sr_run_id s) = Some run"
    using db_okD(1) [OF assms(1)] by (auto simp: consistent_def)
  with that assms(2) show thesis by (simp add: wr_steps_view set_run_step_rows)
qed

text \<open>C3: a claim returns work that the event history allows. The step belongs to a run
  whose reduced history is running, is itself neither completed nor failed, and all its
  dependencies are completed there; its retry deadline, its tool's throttle and the run's
  previous lease have passed; the run's lease is now the claim's, with the next fence token,
  and no other lease changed.\<close>

theorem claim_follows_history:
  assumes "db_ok d" and "claim_runnable_step owner ttl now d = (Inr (Some c), d')"
  shows "\<exists>run. reduce_workflow_run_history (run_events d (le_run_id (cl_lease c))) = Inr run \<and>
    wr_status run = RUNNING \<and> cl_step c \<in> set (wr_steps run) \<and>
    runnable_status (st_status (cl_step c)) \<and>
    set (st_depends_on (cl_step c)) \<subseteq> set (completed_ids (wr_steps run)) \<and>
    due (st_next_attempt_at (cl_step c)) now \<and>
    due (map_option th_blocked_until (throttle_of d (st_tool_key (cl_step c)))) now \<and>
    due (map_option le_expires_at (lease_of d (wr_run_id run))) now \<and>
    cl_lease c = \<lparr>le_run_id = wr_run_id run, le_owner_id = owner,
      le_fence_token = next_fence d (wr_run_id run), le_expires_at = now + ttl, le_updated_at = now\<rparr> \<and>
    (\<forall>r. lease_of d' r = (if r = wr_run_id run then Some (cl_lease c) else lease_of d r))"
proof -
  from assms(2) obtain row where row: "select_runnable d now True = Some row"
    "cl_lease c = \<lparr>le_run_id = sr_run_id row, le_owner_id = owner,
        le_fence_token = next_fence d (sr_run_id row), le_expires_at = now + ttl, le_updated_at = now\<rparr>"
    "cl_step c = step_from_row row (dependencies d (sr_run_id row))" "d' = upsert_lease (cl_lease c) d"
    by (rule claim_Some)
  note s = select_runnable_Some [OF row(1)]
  from view_of_row [OF assms(1) s(1)] obtain run where v: "view d (sr_run_id row) = Some run"
    and mem: "step_from_row row (dependencies d (sr_run_id row)) \<in> set (wr_steps run)" .
  have "wr_run_id run = sr_run_id row" using view_run_id [OF v] .
  then show ?thesis
    using eligible_iff [OF assms(1) v s(1) refl] s(2) db_ok_view(1) [OF assms(1) v] mem row
    by (intro exI [of _ run]) (simp add: lease_of_upsert)
qed

text \<open>Claims are served in order: the claimed row comes first among all rows that are
  eligible, by the creation time of the run and then by position, and a claim returns
  nothing exactly when no row is eligible.\<close>

theorem claim_serves_first:
  "case fst (claim_runnable_step owner ttl now d) of
     Inl e \<Rightarrow> False
   | Inr None \<Rightarrow> list_all (\<lambda>t. \<not> eligible d now True t) (db_steps d)
   | Inr (Some c) \<Rightarrow> list_ex (\<lambda>s. eligible d now True s \<and>
       cl_step c = step_from_row s (dependencies d (sr_run_id s)) \<and>
       list_all (before d s) (filter (eligible d now True) (db_steps d))) (db_steps d)"
proof (cases "claim_runnable_step owner ttl now d")
  case (Pair a d')
  show ?thesis
  proof (cases a)
    case (Inl e)
    with Pair claim_never_raises [of owner ttl now d e] show ?thesis by simp
  next
    case (Inr oc)
    show ?thesis
    proof (cases oc)
      case None
      with Pair Inr have "select_runnable d now True = None" by (simp add: claim_None)
      then have "list_all (\<lambda>t. \<not> eligible d now True t) (db_steps d)"
        by (simp add: select_runnable_None list_all_iff)
      with Pair Inr None show ?thesis by (simp only: fst_conv sum.case option.case)
    next
      case (Some c)
      with Pair Inr have "claim_runnable_step owner ttl now d = (Inr (Some c), d')" by simp
      then obtain row where row: "select_runnable d now True = Some row"
        "cl_step c = step_from_row row (dependencies d (sr_run_id row))" by (rule claim_Some)
      have "list_all (before d row) (filter (eligible d now True) (db_steps d))"
        using select_runnable_first [OF row(1)] by (simp add: list_all_iff)
      with select_runnable_Some [OF row(1)] row(2)
      have "list_ex (\<lambda>s. eligible d now True s \<and>
          cl_step c = step_from_row s (dependencies d (sr_run_id s)) \<and>
          list_all (before d s) (filter (eligible d now True) (db_steps d))) (db_steps d)"
        by (auto simp: list_ex_iff)
      with Pair Inr Some show ?thesis by (simp only: fst_conv sum.case option.case)
    qed
  qed
qed

text \<open>C17: no running run is ever stuck. Whatever was interrupted, there is an instant from
  which on every claim finds work: a step whose dependencies are completed always exists,
  and the deadlines that may still hide it pass.\<close>

theorem running_run_is_resumable:
  assumes "db_ok d" and "reduce_workflow_run_history (run_events d r) = Inr run"
    and "r \<in> run_ids d" and "wr_status run = RUNNING"
  shows "\<exists>T. \<forall>now \<ge> T. \<forall>owner ttl. \<exists>c d'. claim_runnable_step owner ttl now d = (Inr (Some c), d')"
proof -
  have v: "view d r = Some run" using db_okD(1) [OF assms(1,3)] assms(2) by (auto simp: consistent_def)
  from running_has_ready_step [OF db_ok_view(2) [OF assms(1) v] assms(4) db_ok_view(3) [OF assms(1) v]]
  obtain s where s: "s \<in> set (wr_steps run)" "runnable_status (st_status s)"
    "set (st_depends_on s) \<subseteq> set (completed_ids (wr_steps run))" .
  then obtain row where row: "row \<in> set (db_steps d)" "sr_run_id row = r"
    "s = step_from_row row (dependencies d r)"
    by (auto simp: wr_steps_view [OF v] set_run_step_rows)
  obtain T1 where T1: "\<forall>now \<ge> T1. due (sr_next_attempt_at row) now"
    by (cases "sr_next_attempt_at row") (auto simp: due_def)
  obtain T2 where T2: "\<forall>now \<ge> T2. due (map_option th_blocked_until (throttle_of d (sr_tool_key row))) now"
    by (cases "throttle_of d (sr_tool_key row)") (auto simp: due_def)
  obtain T3 where T3: "\<forall>now \<ge> T3. due (map_option le_expires_at (lease_of d r)) now"
    by (cases "lease_of d r") (auto simp: due_def)
  have "\<exists>c d'. claim_runnable_step owner ttl now d = (Inr (Some c), d')"
    if "max T1 (max T2 T3) \<le> now" for now owner ttl
  proof -
    have "eligible d now True row"
      using eligible_iff [OF assms(1) v row(1,2)] s row T1 T2 T3 assms(4) that by simp
    then have "select_runnable d now True \<noteq> None" using row(1) by (auto simp: select_runnable_None)
    then show ?thesis
      using claim_None [of owner ttl now d "snd (claim_runnable_step owner ttl now d)"]
        claim_never_raises [of owner ttl now d]
      by (cases "claim_runnable_step owner ttl now d"; cases "fst (claim_runnable_step owner ttl now d)")
        (auto simp: claim_runnable_step_def transaction_def claim_body_def Let_def split: option.splits)
  qed
  then show ?thesis by blast
qed

end
