(* ===== verification/Operations.thy ===== *)
theory Operations
  imports Scheduling
begin

text \<open>
  The storage as a whole: its state-changing operations as one datatype, performed one after
  the other. Every operation only appends to the event log, and every sequence of
  operations in which steps are only moved while their run is running keeps the projection
  equal to the reduced history.
\<close>

section \<open>Sequences of operations\<close>

datatype storage_op =
    Create string timestamp workflow_definition "string option" string
  | Claim string int timestamp
  | Renew timestamp string string int int
  | Release timestamp string string int
  | Attempt timestamp timestamp string string "string option" "int option"
  | Retry timestamp timestamp string string string timestamp "string option" "int option" bool
  | Fail timestamp timestamp string string string "string option" "int option"
  | Complete timestamp timestamp string string json "string option" "int option"
  | Rebuild string

fun perform :: "storage_op \<Rightarrow> db \<Rightarrow> db" where
  "perform (Create r now wd tool_key default_tool) d =
     snd (create_workflow_run r now wd tool_key default_tool d)"
| "perform (Claim owner ttl now) d = snd (claim_runnable_step owner ttl now d)"
| "perform (Renew now r owner fence ttl) d = snd (renew_lease now r owner fence ttl d)"
| "perform (Release now r owner fence) d = snd (release_lease now r owner fence d)"
| "perform (Attempt now at r i owner fence) d = snd (record_attempt now at r i owner fence d)"
| "perform (Retry now at r i error next owner fence throttle) d =
     snd (schedule_retry now at r i error next owner fence throttle d)"
| "perform (Fail now at r i error owner fence) d = snd (fail_step now at r i error owner fence d)"
| "perform (Complete now at r i out owner fence) d = snd (complete_step now at r i out owner fence d)"
| "perform (Rebuild r) d = snd (rebuild_projection r d)"

definition run_is_running :: "db \<Rightarrow> string \<Rightarrow> bool" where
  "run_is_running d r \<longleftrightarrow>
     (case run_row_of d r of None \<Rightarrow> False | Some w \<Rightarrow> rr_status w = RUNNING)"

text \<open>What the callers guarantee: fresh UUIDs, validated definitions, running runs. The storage does
  not check that the run of a step it moves is running; that the engine moves steps of
  running runs only is a consequence of its leases (\<open>sys_ok\<close>), and statements about the system
  do not assume it.\<close>

fun allowed :: "storage_op \<Rightarrow> db \<Rightarrow> bool" where
  "allowed (Create r now wd tool_key default_tool) d \<longleftrightarrow>
     run_row_of d r = None \<and> uuid_ok r \<and> accepted wd"
| "allowed (Attempt now at r i owner fence) d \<longleftrightarrow> run_is_running d r"
| "allowed (Retry now at r i error next owner fence throttle) d \<longleftrightarrow> run_is_running d r"
| "allowed (Fail now at r i error owner fence) d \<longleftrightarrow> run_is_running d r"
| "allowed (Complete now at r i out owner fence) d \<longleftrightarrow> run_is_running d r"
| "allowed _ d \<longleftrightarrow> True"

fun protocol :: "storage_op list \<Rightarrow> db \<Rightarrow> bool" where
  "protocol [] d \<longleftrightarrow> True"
| "protocol (x # xs) d \<longleftrightarrow> allowed x d \<and> protocol xs (perform x d)"

section \<open>The projection follows the history\<close>

lemma run_is_running_view:
  assumes "run_is_running d r"
  obtains run where "view d r = Some run" and "wr_status run = RUNNING"
  using assms that by (auto simp: run_is_running_def view_alt workflow_run_from_rows_def split: option.splits)

lemma transaction_preserves:
  assumes "P d" and "\<And>x d'. body d = Inr (x, d') \<Longrightarrow> P d'"
  shows "P (snd (transaction body d))"
  using assms by (auto simp: transaction_def split: sum.splits)

lemma accepted_sound: "accepted wd \<Longrightarrow> wd_steps wd \<noteq> [] \<and> sound_graph (wd_steps wd)"
  by (auto simp: accepted_def validate_graph_sound definition_fields_ok_def)

lemma run_row_of_None_ids: "run_row_of d r = None \<longleftrightarrow> r \<notin> run_ids d"
  by (simp add: run_row_of_None run_ids_def)

lemma create_ok:
  assumes "db_ok d" and "r \<notin> run_ids d" and "uuid_ok r" and "accepted wd"
  obtains d' where
    "create_workflow_run r now wd tool_key default_tool d =
       (Inr (created_run r now (selected_tool tool_key default_tool) wd), d')"
    and "db_ok d'" and "view d' r = Some (created_run r now (selected_tool tool_key default_tool) wd)"
    and "run_ids d' = insert r (run_ids d)" and "db_leases d' = db_leases d"
    and "\<And>r'. r' \<noteq> r \<Longrightarrow> view d' r' = view d r' \<and> run_events d' r' = run_events d r'"
proof -
  have "wd_steps wd \<noteq> []" "sound_graph (wd_steps wd)" using accepted_sound [OF assms(4)] by auto
  from create_body_ok [OF assms(1-3) this, of now "selected_tool tool_key default_tool"]
  obtain d' where d': "create_workflow_run_body r now (selected_tool tool_key default_tool) wd d = Inr ((), d')"
    "db_ok d'" "view d' r = Some (created_run r now (selected_tool tool_key default_tool) wd)"
    "run_ids d' = insert r (run_ids d)" "db_leases d' = db_leases d"
    "\<And>r'. r' \<noteq> r \<Longrightarrow> view d' r' = view d r' \<and> run_events d' r' = run_events d r'"
    by metis
  have "get_workflow_run r d' = Inr (created_run r now (selected_tool tool_key default_tool) wd)"
    using d'(3) by (simp add: get_workflow_run_view)
  with d'(1) have "create_workflow_run r now wd tool_key default_tool d =
      (Inr (created_run r now (selected_tool tool_key default_tool) wd), d')"
    by (simp add: create_workflow_run_def transaction_def)
  with d' that show thesis by blast
qed

lemma rebuild_ok:
  assumes ok: "db_ok d"
  shows "db_ok (snd (rebuild_projection r d))"
proof (cases "r \<in> run_ids d")
  case True
  then obtain run where v: "view d r = Some run" using db_okD(1) [OF ok] by (auto simp: consistent_def)
  obtain p where p: "rebuild_read r d = Inr (run, p)" by (rule rebuild_read_ok [OF ok v refl])
  obtain d' where "rebuild_write r run p d = (Inr run, d')" "db_ok d'"
    by (rule rebuild_write_ok [OF ok v refl])
  with p show ?thesis by (simp add: rebuild_projection_def)
next
  case False
  then have "run_events d r = []"
    using db_okD(4) [OF ok] by (auto simp: run_events_def filter_empty_conv)
  then have "list_events r d = Inl (WorkflowRunNotFoundError r)"
    by (simp add: list_events_def flip: run_events_def)
  then show ?thesis using ok by (simp add: rebuild_projection_def rebuild_read_def)
qed

lemma perform_ok:
  assumes ok: "db_ok d" and "allowed x d"
  shows "db_ok (perform x d)"
proof (cases x)
  case (Create r now wd tool_key default_tool)
  with assms(2) have "r \<notin> run_ids d" "uuid_ok r" "accepted wd" by (simp_all add: run_row_of_None_ids)
  then obtain d' where "create_workflow_run r now wd tool_key default_tool d =
      (Inr (created_run r now (selected_tool tool_key default_tool) wd), d')" "db_ok d'"
    by (rule create_ok [OF ok])
  then show ?thesis by (simp add: Create)
next
  case (Claim owner ttl now)
  then show ?thesis
    using ok claim_ok [OF ok] by (auto simp: claim_runnable_step_def intro: transaction_preserves)
next
  case (Renew now r owner fence ttl)
  then show ?thesis using renew_lease_ok [OF ok] by simp
next
  case (Release now r owner fence)
  then show ?thesis using release_lease_ok [OF ok] by simp
next
  case (Attempt now at r i owner fence)
  then have "run_is_running d r" using assms(2) by simp
  then obtain run where "view d r = Some run" "wr_status run = RUNNING" by (rule run_is_running_view)
  then show ?thesis unfolding Attempt perform.simps record_attempt_def
    using ok record_attempt_ok(1) [OF ok] by (blast intro: transaction_preserves)
next
  case (Retry now at r i error nx owner fence throttle)
  then have "run_is_running d r" using assms(2) by simp
  then obtain run where "view d r = Some run" "wr_status run = RUNNING" by (rule run_is_running_view)
  then show ?thesis unfolding Retry perform.simps schedule_retry_def
    using ok schedule_retry_ok(1) [OF ok] by (blast intro: transaction_preserves)
next
  case (Fail now at r i error owner fence)
  then have "run_is_running d r" using assms(2) by simp
  then obtain run where "view d r = Some run" "wr_status run = RUNNING" by (rule run_is_running_view)
  then show ?thesis unfolding Fail perform.simps fail_step_def
    using ok fail_step_ok(1) [OF ok] by (blast intro: transaction_preserves)
next
  case (Complete now at r i out owner fence)
  then have "run_is_running d r" using assms(2) by simp
  then obtain run where "view d r = Some run" "wr_status run = RUNNING" by (rule run_is_running_view)
  note run = this
  show ?thesis unfolding Complete perform.simps complete_step_def
  proof (rule transaction_preserves [of db_ok, OF ok])
    fix x d' assume "complete_step_body now at r i out owner fence d = Inr (x, d')"
    from complete_step_ok [OF ok run(1) this run(2)] show "db_ok d'" by blast
  qed
next
  case (Rebuild r)
  then show ?thesis using rebuild_ok [OF ok] by simp
qed

lemma protocol_ok: "db_ok d \<Longrightarrow> protocol xs d \<Longrightarrow> db_ok (fold perform xs d)"
  by (induction xs arbitrary: d) (simp_all add: perform_ok)

text \<open>C2: the projection the scheduler reads is the reduced history. After any sequence of
  storage operations on an empty database, in which runs are created under fresh UUIDs from
  accepted definitions and steps are moved only while their run is running (rebuilds may
  come anywhere), \<open>projection_matches_history\<close> holds of every run.\<close>

theorem projection_always_matches:
  assumes "protocol xs empty_db" and "d = fold perform xs empty_db" and "r \<in> run_ids d"
  shows "projection_matches_history r d = Inr True"
proof -
  have "db_ok d" unfolding assms(2) by (rule protocol_ok [OF db_ok_empty assms(1)])
  then show ?thesis using assms(3) by (intro consistent_projection_matches db_okD(1))
qed

section \<open>The log only grows\<close>

lemma append_event_log: "append_event r et p at step attempt version d = Inr d' \<Longrightarrow>
    \<exists>e. db_events d' = db_events d @ [e]"
  by (erule append_event_Inr) simp

lemma insert_all_preserves:
  assumes "insert_all ins xs d = Inr d'" and "\<And>x d d'. ins x d = Inr d' \<Longrightarrow> f d' = f d"
  shows "f d' = f d"
  using assms(1) by (induction xs arbitrary: d) (auto simp: rbind_Inr_iff dest!: assms(2))

lemma insert_events:
  "insert_run w d = Inr d' \<Longrightarrow> db_events d' = db_events d"
  "insert_step s d = Inr d' \<Longrightarrow> db_events d' = db_events d"
  "insert_dependency x d = Inr d' \<Longrightarrow> db_events d' = db_events d"
  by (auto simp: insert_run_def insert_step_def insert_dependency_def split: if_splits)

lemmas insert_all_events =
  insert_all_preserves [of insert_step, where f = db_events, OF _ insert_events(2)]
  insert_all_preserves [of insert_dependency, where f = db_events, OF _ insert_events(3)]

definition log_grows :: "db \<Rightarrow> db \<Rightarrow> bool" where
  "log_grows d d' \<longleftrightarrow> (\<exists>es. db_events d' = db_events d @ es)"

lemma log_grows_refl [simp]: "log_grows d d"
  by (simp add: log_grows_def)

lemma create_log: "log_grows d (snd (create_workflow_run r now wd tool_key default_tool d))"
proof -
  have "log_grows d d'" if "create_workflow_run_body r now tool wd d = Inr ((), d')" for tool d'
  proof -
    from that obtain w steps deps created d1 d2 d3 where
      *: "insert_run w d = Inr d1" "insert_all insert_step steps d1 = Inr d2"
        "insert_all insert_dependency deps d2 = Inr d3"
      and app: "append_event r WORKFLOW_RUN_CREATED created now None None 3 d3 = Inr d'"
      by (auto simp: create_workflow_run_body_def rbind_Inr_iff Let_def)
    have "db_events d3 = db_events d"
      using insert_events(1) [OF *(1)] insert_all_events(1) [OF *(2)] insert_all_events(2) [OF *(3)] by simp
    with append_event_log [OF app] show ?thesis by (auto simp: log_grows_def)
  qed
  then show ?thesis
    by (auto simp: create_workflow_run_def transaction_def split: sum.splits)
qed

lemma rebuild_log: "db_events (snd (rebuild_projection r d)) = db_events d"
proof -
  have "db_events d' = db_events d" if "rebuild_write_body r run p d = Inr ((), d')" for run p d'
  proof -
    from that obtain w steps deps d1 d2 where
      *: "insert_run w (delete_projection r d) = Inr d1" "insert_all insert_step steps d1 = Inr d2"
        "insert_all insert_dependency deps d2 = Inr d'"
      by (auto simp: rebuild_write_body_def rbind_Inr_iff)
    show ?thesis
      using insert_events(1) [OF *(1)] insert_all_events(1) [OF *(2)] insert_all_events(2) [OF *(3)] by simp
  qed
  then show ?thesis
    by (auto simp: rebuild_projection_def rebuild_write_def transaction_def split: sum.splits)
qed

lemma attempt_log: "record_attempt_body now at r i owner fence d = Inr (s, d') \<Longrightarrow>
    log_grows d d' \<and> db_leases d' = db_leases d"
  by (erule record_attempt_body_Inr) (auto simp: log_grows_def elim!: append_event_Inr)

lemma retry_log: "schedule_retry_body now at r i er nx owner fence thr d = Inr (u, d') \<Longrightarrow>
    log_grows d d' \<and> db_leases d' = db_leases d"
proof (erule schedule_retry_body_Inr)
  fix row d1
  assume app: "append_event r STEP_RETRY_SCHEDULED (StepRetryScheduledPayload er nx) now (Some i)
      (Some (sr_attempts row)) 1 d = Inr d1"
    and d': "d' = (let d2 = update_step r i (\<lambda>s. s\<lparr>sr_status := STEP_RETRY_WAIT,
        sr_last_error := Some er, sr_next_attempt_at := Some nx, sr_updated_at := now\<rparr>) d1
      in if thr then upsert_throttle (sr_tool_key row) nx er now d2 else d2)"
  have "db_events d' = db_events d1" "db_leases d' = db_leases d1" by (simp_all add: d' Let_def)
  with app show ?thesis by (auto simp: log_grows_def elim!: append_event_Inr)
qed

lemma fail_log: "fail_step_body now at r i er owner fence d = Inr (u, d') \<Longrightarrow>
    log_grows d d' \<and> db_leases d' = db_leases d"
  by (erule fail_step_body_Inr) (auto simp: log_grows_def elim!: append_event_Inr)

lemma complete_log: "complete_step_body now at r i out owner fence d = Inr (u, d') \<Longrightarrow>
    log_grows d d' \<and> db_leases d' = db_leases d"
proof (erule complete_step_body_Inr)
  fix row d1 d2
  assume app: "append_event r STEP_COMPLETED_EVENT (StepCompletedPayload out) now (Some i)
      (Some (sr_attempts row)) 1 d = Inr d1"
    and d2: "d2 = update_step r i (\<lambda>s. s\<lparr>sr_status := STEP_COMPLETED, sr_output := Some out,
      sr_next_attempt_at := None, sr_last_error := None, sr_completed_at := Some now,
      sr_updated_at := now\<rparr>) d1"
    and d': "remaining_steps d2 r \<noteq> 0 \<and> d' = d2 \<or> remaining_steps d2 r = 0 \<and>
        (\<exists>d3. append_event r WORKFLOW_RUN_COMPLETED WorkflowRunCompletedPayload now None None 1 d2
            = Inr d3 \<and>
          d' = update_run r (\<lambda>w. w\<lparr>rr_status := COMPLETED, rr_completed_at := Some now,
                 rr_updated_at := now\<rparr>) d3)"
  have "db_events d2 = db_events d1" "db_leases d2 = db_leases d1" by (simp_all add: d2)
  with app d' show ?thesis by (auto simp: log_grows_def elim!: append_event_Inr)
qed simp

lemma perform_log: "log_grows d (perform x d)"
proof (cases x)
  case (Create r now wd tool_key default_tool)
  then show ?thesis by (simp add: create_log)
next
  case (Claim owner ttl now)
  then show ?thesis
    by (cases "select_runnable d now True")
      (simp_all add: claim_runnable_step_def transaction_def claim_body_def Let_def log_grows_def)
next
  case (Attempt now at r i owner fence)
  show ?thesis unfolding Attempt perform.simps record_attempt_def
    by (rule transaction_preserves) (simp_all add: attempt_log)
next
  case (Retry now at r i error nx owner fence throttle)
  show ?thesis unfolding Retry perform.simps schedule_retry_def
    by (rule transaction_preserves) (simp_all add: retry_log)
next
  case (Fail now at r i error owner fence)
  show ?thesis unfolding Fail perform.simps fail_step_def
    by (rule transaction_preserves) (simp_all add: fail_log)
next
  case (Complete now at r i out owner fence)
  show ?thesis unfolding Complete perform.simps complete_step_def
    by (rule transaction_preserves) (simp_all add: complete_log)
next
  case (Rebuild r)
  then show ?thesis by (simp add: log_grows_def rebuild_log)
qed (auto simp: renew_lease_def release_lease_def transaction_def Let_def log_grows_def)

text \<open>The event log is append-only: whatever operation is performed, with whatever
  arguments and whether it succeeds or raises, every recorded event stays where it is.\<close>

theorem log_is_append_only:
  "take (length (db_events d)) (db_events (perform x d)) = db_events d"
  using perform_log [of d x] by (auto simp: log_grows_def)

end
