(* ===== verification/Interfaces.thy ===== *)
theory Interfaces
  imports Prelude
begin

text \<open>
  The contracts between the components. \<open>idempotent_service\<close> is what the engine expects of
  the tool behind the gateway: a key that was answered once is answered the same way ever
  after. \<open>fenced_store\<close> is what the workers expect of the lease table: every takeover gets a
  new, larger token, and a commit needs the current one. \<open>simulation\<close> is what a refinement of
  an abstract machine promises, \<open>polling\<close> what a waiting loop does with its readings. The
  consequences are proved here once; \<open>Mock_Tool\<close>, \<open>Fencing\<close>, \<open>Lifecycle\<close> and \<open>Scripts\<close>
  discharge the assumptions for the models of the code.
\<close>

section \<open>Sequences of calls\<close>

fun run_calls :: "('q \<Rightarrow> 's \<Rightarrow> 'r \<times> 's) \<Rightarrow> 'q list \<Rightarrow> 's \<Rightarrow> 'r list \<times> 's" where
  "run_calls call [] s = ([], s)"
| "run_calls call (q # qs) s =
     (case call q s of (r, s') \<Rightarrow> case run_calls call qs s' of (rs, s'') \<Rightarrow> (r # rs, s''))"

lemma run_calls_Cons: "run_calls call (q # qs) s =
    (fst (call q s) # fst (run_calls call qs (snd (call q s))), snd (run_calls call qs (snd (call q s))))"
  by (simp split: prod.splits)

lemma length_run_calls [simp]: "length (fst (run_calls call qs s)) = length qs"
  by (induction qs arbitrary: s) (simp_all add: run_calls_Cons del: run_calls.simps(2))

lemma run_calls_invariant:
  assumes "ok s" and "\<And>q s. ok s \<Longrightarrow> ok (snd (call q s))"
  shows "ok (snd (run_calls call qs s))"
  using assms(1) by (induction qs arbitrary: s) (simp_all add: run_calls_Cons assms(2) del: run_calls.simps(2))

section \<open>A service that answers each key once and for all\<close>

locale idempotent_service =
  fixes call :: "'q \<Rightarrow> 's \<Rightarrow> ('e + 'r) \<times> 's"
    and key :: "'q \<Rightarrow> 'k"
    and lookup :: "'s \<Rightarrow> 'k \<Rightarrow> 'v option"
    and result_value :: "'r \<Rightarrow> 'v"
    and ok :: "'s \<Rightarrow> bool"
  assumes ok_call: "ok s \<Longrightarrow> ok (snd (call q s))"
    and lookup_kept: "ok s \<Longrightarrow> lookup s k = Some v \<Longrightarrow> lookup (snd (call q s)) k = Some v"
    and answer_stored: "ok s \<Longrightarrow> fst (call q s) = Inr r \<Longrightarrow>
      lookup (snd (call q s)) (key q) = Some (result_value r)"
begin

lemma calls_ok: "ok s \<Longrightarrow> ok (snd (run_calls call qs s))"
  by (rule run_calls_invariant) (simp_all add: ok_call)

lemma calls_keep: "ok s \<Longrightarrow> lookup s k = Some v \<Longrightarrow> lookup (snd (run_calls call qs s)) k = Some v"
  by (induction qs arbitrary: s) (simp_all add: run_calls_Cons ok_call lookup_kept del: run_calls.simps(2))

text \<open>Every successful answer is still what the final state holds for its key.\<close>

lemma answers_stored:
  assumes "ok s" and "i < length qs" and "fst (run_calls call qs s) ! i = Inr r"
  shows "lookup (snd (run_calls call qs s)) (key (qs ! i)) = Some (result_value r)"
  using assms
proof (induction qs arbitrary: s i)
  case Nil
  then show ?case by simp
next
  case (Cons q qs)
  show ?case
  proof (cases i)
    case 0
    with Cons.prems have "lookup (snd (call q s)) (key q) = Some (result_value r)"
      by (simp add: run_calls_Cons answer_stored del: run_calls.simps(2))
    with 0 Cons.prems(1) show ?thesis
      by (simp add: run_calls_Cons calls_keep ok_call del: run_calls.simps(2))
  next
    case (Suc j)
    with Cons show ?thesis by (simp add: run_calls_Cons ok_call del: run_calls.simps(2))
  qed
qed

text \<open>Two successful answers to the same key agree, whatever came before, between and after.\<close>

lemma same_answer:
  assumes "ok s" and "i < length qs" and "j < length qs" and "key (qs ! i) = key (qs ! j)"
    and "fst (run_calls call qs s) ! i = Inr a" and "fst (run_calls call qs s) ! j = Inr b"
  shows "result_value a = result_value b"
  using answers_stored [OF assms(1,2,5)] answers_stored [OF assms(1,3,6)] assms(4) by simp

end

section \<open>A store whose commits are fenced\<close>

locale fenced_store =
  fixes fence :: "'s \<Rightarrow> 'r \<Rightarrow> int"
    and acquire :: "'s \<Rightarrow> ('r \<times> int \<times> 's) \<Rightarrow> bool"
    and commit :: "'s \<Rightarrow> ('r \<times> int \<times> 's) \<Rightarrow> bool"
    and other :: "'s \<Rightarrow> 's \<Rightarrow> bool"
    and ok :: "'s \<Rightarrow> bool"
  assumes acquire_new: "ok s \<Longrightarrow> acquire s (r, f, s') \<Longrightarrow>
      ok s' \<and> fence s r < f \<and> fence s' r = f \<and> (\<forall>r'. r' \<noteq> r \<longrightarrow> fence s' r' = fence s r')"
    and commit_current: "ok s \<Longrightarrow> commit s (r, f, s') \<Longrightarrow> ok s' \<and> fence s r = f \<and> fence s' = fence s"
    and other_keeps: "ok s \<Longrightarrow> other s s' \<Longrightarrow> ok s' \<and> fence s' = fence s"
begin

lemma step_monotone:
  assumes "ok s" and "(\<exists>q f. acquire s (q, f, s')) \<or> (\<exists>q f. commit s (q, f, s')) \<or> other s s'"
  shows "ok s' \<and> fence s r \<le> fence s' r"
  using assms(2)
proof (elim disjE exE)
  fix q f assume "acquire s (q, f, s')"
  from acquire_new [OF assms(1) this] show ?thesis by (cases "q = r") auto
next
  fix q f assume "commit s (q, f, s')"
  from commit_current [OF assms(1) this] show ?thesis by simp
next
  assume "other s s'"
  from other_keeps [OF assms(1) this] show ?thesis by simp
qed

inductive later :: "'s \<Rightarrow> 's \<Rightarrow> bool" where
  later_refl: "later s s"
| later_step: "later s s' \<Longrightarrow>
    (\<exists>q f. acquire s' (q, f, s'')) \<or> (\<exists>q f. commit s' (q, f, s'')) \<or> other s' s'' \<Longrightarrow> later s s''"

lemma later_monotone: "later s s' \<Longrightarrow> ok s \<Longrightarrow> ok s' \<and> fence s r \<le> fence s' r"
proof (induction rule: later.induct)
  case (later_refl s)
  then show ?case by simp
next
  case (later_step s s' s'')
  then show ?case using step_monotone [of s' s'' r] by auto
qed

text \<open>After a takeover the former token never commits again.\<close>

lemma takeover_excludes:
  assumes "ok s" and "acquire s (r, g, s')" and "f \<le> fence s r" and "later s' t"
  shows "\<not> commit t (r, f, u)"
proof
  assume c: "commit t (r, f, u)"
  have a: "ok s'" "fence s r < g" "fence s' r = g" using acquire_new [OF assms(1,2)] by auto
  have "ok t" and "g \<le> fence t r" using later_monotone [OF assms(4) a(1), of r] a(3) by auto
  with commit_current [OF _ c] assms(3) a(2) show False by simp
qed

text \<open>Two tokens that were ever handed out for the same key are different.\<close>

lemma tokens_unique:
  assumes "ok s" and "acquire s (r, f, s')" and "later s' t" and "acquire t (r, g, t')"
  shows "f < g"
proof -
  have "ok s'" "fence s' r = f" using acquire_new [OF assms(1,2)] by auto
  then have "ok t" and "f \<le> fence t r" using later_monotone [OF assms(3), of r] by auto
  with acquire_new [OF _ assms(4)] show ?thesis by fastforce
qed

end

section \<open>A component that refines its specification\<close>

locale simulation =
  fixes step :: "'c \<Rightarrow> 'c \<Rightarrow> bool"
    and abstraction :: "'c \<Rightarrow> 'a"
    and spec :: "'a \<Rightarrow> 'a \<Rightarrow> bool"
    and ok :: "'c \<Rightarrow> bool"
  assumes ok_step: "ok c \<Longrightarrow> step c c' \<Longrightarrow> ok c'"
    and simulates: "ok c \<Longrightarrow> step c c' \<Longrightarrow> spec\<^sup>*\<^sup>* (abstraction c) (abstraction c')"
begin

lemma runs_refine: "step\<^sup>*\<^sup>* c c' \<Longrightarrow> ok c \<Longrightarrow> ok c' \<and> spec\<^sup>*\<^sup>* (abstraction c) (abstraction c')"
proof (induction rule: rtranclp_induct)
  case base
  then show ?case by simp
next
  case (step b b')
  then show ?case using ok_step simulates by (meson rtranclp_trans)
qed

end

section \<open>A loop that polls until something decides\<close>

locale polling =
  fixes poll :: "'t list \<Rightarrow> 'r option"
    and decide :: "'t \<Rightarrow> 'r option"
  assumes poll_Nil: "poll [] = None"
    and poll_Cons: "poll (t # ts) = (case decide t of None \<Rightarrow> poll ts | Some r \<Rightarrow> Some r)"
begin

lemma poll_None: "poll ts = None \<longleftrightarrow> (\<forall>t \<in> set ts. decide t = None)"
  by (induction ts) (auto simp: poll_Nil poll_Cons split: option.split)

lemma poll_append: "poll (us @ ts) = (case poll us of None \<Rightarrow> poll ts | Some r \<Rightarrow> Some r)"
  by (induction us) (auto simp: poll_Nil poll_Cons split: option.splits)

text \<open>The loop returns what the first deciding reading says.\<close>

lemma poll_Some:
  "poll ts = Some r \<longleftrightarrow> (\<exists>us t vs. ts = us @ t # vs \<and> (\<forall>u \<in> set us. decide u = None) \<and> decide t = Some r)"
proof
  assume "poll ts = Some r"
  then show "\<exists>us t vs. ts = us @ t # vs \<and> (\<forall>u \<in> set us. decide u = None) \<and> decide t = Some r"
  proof (induction ts)
    case (Cons t ts)
    show ?case
    proof (cases "decide t")
      case None
      with Cons obtain us t' vs where "ts = us @ t' # vs" "\<forall>u \<in> set us. decide u = None" "decide t' = Some r"
        by (auto simp: poll_Cons)
      with None show ?thesis by (intro exI [of _ "t # us"]) auto
    next
      case (Some x)
      with Cons.prems show ?thesis by (intro exI [of _ "[]"]) (auto simp: poll_Cons)
    qed
  qed (simp add: poll_Nil)
next
  assume "\<exists>us t vs. ts = us @ t # vs \<and> (\<forall>u \<in> set us. decide u = None) \<and> decide t = Some r"
  then obtain us t vs where ts: "ts = us @ t # vs" "\<forall>u \<in> set us. decide u = None" "decide t = Some r" by blast
  then have "poll us = None" by (simp add: poll_None)
  with ts show "poll ts = Some r" by (simp add: poll_append poll_Cons)
qed

end

end
