(* ===== verification/Mock_Tool.thy ===== *)
theory Mock_Tool
  imports Models Interfaces
begin

text \<open>
  \<open>crashsafe/mock_tool.py\<close>: the external tool and its durable ledger. Its store keeps two
  tables, the effects and the cached results by idempotency key, and writes both in one
  transaction. What lies outside the source is a parameter: \<open>digest\<close> is SHA-256 of the
  canonical request text. The endpoint over this store is in theory Tool_Service.
\<close>

section \<open>The ledger\<close>

record idempotency_row =
  ir_operation_key :: string
  ir_operation :: step_name
  ir_request_hash :: string
  ir_response :: tool_result
  ir_created_at :: timestamp

record side_effect_row =
  se_id :: string
  se_operation_key :: string
  se_operation :: step_name
  se_request :: json
  se_created_at :: timestamp

record ledger =
  lg_results :: "idempotency_row list"
  lg_effects :: "side_effect_row list"

definition empty_ledger :: ledger where
  "empty_ledger = \<lparr>lg_results = [], lg_effects = []\<rparr>"

datatype tool_error = IdempotencyConflictError string | LedgerIntegrityError

definition cached :: "ledger \<Rightarrow> string \<Rightarrow> idempotency_row option" where
  "cached l key = find (\<lambda>x. ir_operation_key x = key) (lg_results l)"

definition conflicts :: "(json \<Rightarrow> string) \<Rightarrow> step_name \<Rightarrow> json \<Rightarrow> idempotency_row \<Rightarrow> bool" where
  "conflicts digest op req x \<longleftrightarrow> ir_operation x \<noteq> op \<or> ir_request_hash x \<noteq> digest req"

definition deduplicated :: "tool_result \<Rightarrow> tool_result" where
  "deduplicated r = r\<lparr>tr_deduplicated := True\<rparr>"

text \<open>\<open>ToolStore.apply\<close>; \<open>uuid\<close> is the fresh hexadecimal suffix, \<open>now\<close> the clock.\<close>

definition insert_effect :: "side_effect_row \<Rightarrow> ledger \<Rightarrow> tool_error + ledger" where
  "insert_effect e l =
     (if list_ex (\<lambda>x. se_id x = se_id e \<or> se_operation_key x = se_operation_key e) (lg_effects l)
      then Inl LedgerIntegrityError else Inr (l\<lparr>lg_effects := lg_effects l @ [e]\<rparr>))"

definition insert_result :: "idempotency_row \<Rightarrow> ledger \<Rightarrow> tool_error + ledger" where
  "insert_result x l =
     (if cached l (ir_operation_key x) \<noteq> None
      then Inl LedgerIntegrityError else Inr (l\<lparr>lg_results := lg_results l @ [x]\<rparr>))"

definition apply_body :: "(json \<Rightarrow> string) \<Rightarrow> string \<Rightarrow> timestamp \<Rightarrow> step_name \<Rightarrow> string \<Rightarrow> json
    \<Rightarrow> ledger \<Rightarrow> tool_error + (tool_result \<times> bool) \<times> ledger" where
  "apply_body digest uuid now op key req l =
     (case cached l key of
        Some x \<Rightarrow>
          if conflicts digest op req x then Inl (IdempotencyConflictError key)
          else Inr ((deduplicated (ir_response x), False), l)
      | None \<Rightarrow>
          (let reference_id = step_name_value op @ ''_'' @ uuid;
               result = \<lparr>tr_operation = op, tr_reference_id = reference_id, tr_deduplicated = False\<rparr> in
           rbind (insert_effect \<lparr>se_id = reference_id, se_operation_key = key, se_operation = op,
                    se_request = req, se_created_at = now\<rparr> l) (\<lambda>l.
           rbind (insert_result \<lparr>ir_operation_key = key, ir_operation = op,
                    ir_request_hash = digest req, ir_response = result, ir_created_at = now\<rparr> l) (\<lambda>l.
             Inr ((result, True), l)))))"

definition apply_tool :: "(json \<Rightarrow> string) \<Rightarrow> string \<Rightarrow> timestamp \<Rightarrow> step_name \<Rightarrow> string \<Rightarrow> json
    \<Rightarrow> ledger \<Rightarrow> (tool_error + tool_result \<times> bool) \<times> ledger" where
  "apply_tool digest uuid now op key req l =
     (case apply_body digest uuid now op key req l of
        Inl e \<Rightarrow> (Inl e, l) | Inr (x, l') \<Rightarrow> (Inr x, l'))"

definition find_result :: "(json \<Rightarrow> string) \<Rightarrow> step_name \<Rightarrow> string \<Rightarrow> json \<Rightarrow> ledger
    \<Rightarrow> tool_error + tool_result option" where
  "find_result digest op key req l =
     (case cached l key of
        None \<Rightarrow> Inr None
      | Some x \<Rightarrow> if conflicts digest op req x then Inl (IdempotencyConflictError key)
                  else Inr (Some (deduplicated (ir_response x))))"

section \<open>The summary\<close>

text \<open>SQL's \<open>LIKE\<close>: \<open>%\<close> matches any text, \<open>_\<close> any character, letters match without case.\<close>

definition fold_case :: "char \<Rightarrow> char" where
  "fold_case c = (if CHR ''A'' \<le> c \<and> c \<le> CHR ''Z'' then char_of (of_char c + 32 :: nat) else c)"

fun sql_like :: "string \<Rightarrow> string \<Rightarrow> bool" where
  "sql_like [] text = (text = [])"
| "sql_like (p # ps) [] = (p = CHR ''%'' \<and> sql_like ps [])"
| "sql_like (p # ps) (c # cs) =
     (if p = CHR ''%'' then sql_like ps (c # cs) \<or> sql_like (p # ps) cs
      else (p = CHR ''_'' \<or> fold_case p = fold_case c) \<and> sql_like ps cs)"

definition count_effects :: "string option \<Rightarrow> step_name \<Rightarrow> ledger \<Rightarrow> nat" where
  "count_effects run_id op l = length (filter (\<lambda>e. se_operation e = op \<and>
     (case run_id of None \<Rightarrow> True | Some r \<Rightarrow> sql_like (r @ '':%'') (se_operation_key e)))
     (lg_effects l))"

definition summary :: "string option \<Rightarrow> ledger \<Rightarrow> ledger_summary" where
  "summary run_id l = \<lparr>lg_charges = count_effects run_id CHARGE l,
     lg_provisions = count_effects run_id PROVISION l,
     lg_notifications = count_effects run_id NOTIFY l\<rparr>"

section \<open>The endpoint\<close>

text \<open>
  A response: status, \<open>Retry-After\<close> header, and what the client's \<open>ToolResult\<close> validation
  makes of the body (\<open>None\<close> where it raises).
\<close>

record http_response =
  hr_status :: int
  hr_retry_after :: "string option"
  hr_text :: string
  hr_result :: "tool_result option"

record tool_state =
  ts_ledger :: ledger
  ts_forced_failures :: int
  ts_operation_pending :: bool

definition http_ok :: "tool_result \<Rightarrow> http_response" where
  "http_ok r = \<lparr>hr_status = 200, hr_retry_after = None, hr_text = [], hr_result = Some r\<rparr>"

definition http_failure :: "int \<Rightarrow> string option \<Rightarrow> http_response" where
  "http_failure code retry = \<lparr>hr_status = code, hr_retry_after = retry, hr_text = [], hr_result = None\<rparr>"

text \<open>The failures forced by the environment are used up before the random ones.\<close>

definition force_failure :: "step_name option \<Rightarrow> step_name \<Rightarrow> tool_state \<Rightarrow> bool \<times> tool_state" where
  "force_failure forced_op op t =
     (if 0 < ts_forced_failures t then (True, t\<lparr>ts_forced_failures := ts_forced_failures t - 1\<rparr>)
      else if ts_operation_pending t \<and> forced_op = Some op then (True, t\<lparr>ts_operation_pending := False\<rparr>)
      else (False, t))"

section \<open>One effect per key\<close>

text \<open>The two tables list the same keys, once each, and each effect is the one its result names.\<close>

definition entry_ok :: "(json \<Rightarrow> string) \<Rightarrow> idempotency_row \<Rightarrow> side_effect_row \<Rightarrow> bool" where
  "entry_ok digest x e \<longleftrightarrow> ir_operation_key x = se_operation_key e \<and> ir_operation x = se_operation e \<and>
     ir_request_hash x = digest (se_request e) \<and> tr_reference_id (ir_response x) = se_id e \<and>
     tr_operation (ir_response x) = se_operation e"

definition ledger_ok :: "(json \<Rightarrow> string) \<Rightarrow> ledger \<Rightarrow> bool" where
  "ledger_ok digest l \<longleftrightarrow> list_all2 (entry_ok digest) (lg_results l) (lg_effects l) \<and>
     distinct (map se_operation_key (lg_effects l)) \<and> distinct (map se_id (lg_effects l))"

lemma list_all2_find:
  assumes "list_all2 P xs ys" and "\<And>x y. P x y \<Longrightarrow> f x = g y"
  shows "map f xs = map g ys"
  using assms by (induction xs ys rule: list_all2_induct) auto

lemma ledger_keys: "ledger_ok digest l \<Longrightarrow> map ir_operation_key (lg_results l) = map se_operation_key (lg_effects l)"
  unfolding ledger_ok_def by (rule list_all2_find [of "entry_ok digest"]) (simp_all add: entry_ok_def)

lemma ledger_key_sets:
  "ledger_ok digest l \<Longrightarrow> ir_operation_key ` set (lg_results l) = se_operation_key ` set (lg_effects l)"
  using arg_cong [OF ledger_keys, of digest l set] by simp

lemma cached_Some: "cached l key = Some x \<Longrightarrow> x \<in> set (lg_results l) \<and> ir_operation_key x = key"
  unfolding cached_def by (rule find_Some_set)

lemma cached_None: "cached l key = None \<longleftrightarrow> key \<notin> ir_operation_key ` set (lg_results l)"
  by (auto simp: cached_def find_None_iff)

lemma cached_append:
  "cached (l\<lparr>lg_effects := es, lg_results := lg_results l @ [x]\<rparr>) key =
    (case cached l key of None \<Rightarrow> if ir_operation_key x = key then Some x else None | Some y \<Rightarrow> Some y)"
proof -
  have "find p (xs @ [x]) = (case find p xs of None \<Rightarrow> if p x then Some x else None | Some y \<Rightarrow> Some y)"
    for p and xs :: "idempotency_row list"
    by (induction xs) auto
  then show ?thesis by (simp add: cached_def)
qed

text \<open>The effect of a cached key: there is exactly one, and it is the one the result names.\<close>

lemma cached_effect:
  assumes "ledger_ok digest l" and "cached l key = Some x"
  obtains e where "filter (\<lambda>e. se_operation_key e = key) (lg_effects l) = [e]" and "entry_ok digest x e"
proof -
  have x: "x \<in> set (lg_results l)" "ir_operation_key x = key" using cached_Some [OF assms(2)] by auto
  have "list_all2 (entry_ok digest) (lg_results l) (lg_effects l)"
    and dist: "distinct (map se_operation_key (lg_effects l))"
    using assms(1) by (simp_all add: ledger_ok_def)
  then obtain e where e: "e \<in> set (lg_effects l)" "entry_ok digest x e"
    using x(1) by (metis in_set_conv_nth list_all2_conv_all_nth)
  then have "se_operation_key e = key" using x(2) by (simp add: entry_ok_def)
  with filter_distinct_key [OF dist e(1)] e(2) that show thesis by simp
qed

lemma uncached_effect:
  "ledger_ok digest l \<Longrightarrow> cached l key = None \<Longrightarrow> filter (\<lambda>e. se_operation_key e = key) (lg_effects l) = []"
  using ledger_key_sets [of digest l] by (auto simp: cached_None filter_empty_conv)

text \<open>What \<open>apply\<close> did: nothing, or one new effect with its result.\<close>

lemma apply_tool_cases:
  obtains (refused) e where "apply_tool digest uuid now op key req l = (Inl e, l)"
    and "e = IdempotencyConflictError key \<longrightarrow> (\<exists>x. cached l key = Some x \<and> conflicts digest op req x)"
  | (again) x where "apply_tool digest uuid now op key req l = (Inr (deduplicated (ir_response x), False), l)"
    and "cached l key = Some x" and "\<not> conflicts digest op req x"
  | (created) ref res x e l' where "apply_tool digest uuid now op key req l = (Inr (res, True), l')"
    and "cached l key = None" and "ref = step_name_value op @ ''_'' @ uuid"
    and "res = \<lparr>tr_operation = op, tr_reference_id = ref, tr_deduplicated = False\<rparr>"
    and "e = \<lparr>se_id = ref, se_operation_key = key, se_operation = op, se_request = req, se_created_at = now\<rparr>"
    and "x = \<lparr>ir_operation_key = key, ir_operation = op, ir_request_hash = digest req,
        ir_response = res, ir_created_at = now\<rparr>"
    and "l' = l\<lparr>lg_effects := lg_effects l @ [e], lg_results := lg_results l @ [x]\<rparr>"
    and "ref \<notin> se_id ` set (lg_effects l)" and "key \<notin> se_operation_key ` set (lg_effects l)"
proof (cases "cached l key")
  case (Some x)
  then show thesis
    using refused [of "IdempotencyConflictError key"] again [of x]
    by (cases "conflicts digest op req x") (auto simp: apply_tool_def apply_body_def)
next
  case None
  let ?ref = "step_name_value op @ ''_'' @ uuid"
  show thesis
  proof (cases "?ref \<in> se_id ` set (lg_effects l) \<or> key \<in> se_operation_key ` set (lg_effects l)")
    case True
    then have "apply_tool digest uuid now op key req l = (Inl LedgerIntegrityError, l)"
      using None by (auto simp: apply_tool_def apply_body_def insert_effect_def list_ex_iff Let_def)
    then show thesis by (rule refused) simp
  next
    case False
    have "cached (l\<lparr>lg_effects := es\<rparr>) key = None" for es
      using None by (simp add: cached_def)
    moreover have "insert_effect e l = Inr (l\<lparr>lg_effects := lg_effects l @ [e]\<rparr>)"
      if "se_id e = ?ref" "se_operation_key e = key" for e
      using False that by (auto simp: insert_effect_def list_ex_iff image_iff)
    ultimately have "apply_tool digest uuid now op key req l =
      (Inr (\<lparr>tr_operation = op, tr_reference_id = ?ref, tr_deduplicated = False\<rparr>, True),
       l\<lparr>lg_effects := lg_effects l @ [\<lparr>se_id = ?ref, se_operation_key = key, se_operation = op,
           se_request = req, se_created_at = now\<rparr>],
         lg_results := lg_results l @ [\<lparr>ir_operation_key = key, ir_operation = op,
           ir_request_hash = digest req, ir_response = \<lparr>tr_operation = op, tr_reference_id = ?ref,
             tr_deduplicated = False\<rparr>, ir_created_at = now\<rparr>]\<rparr>)"
      using None by (simp add: apply_tool_def apply_body_def insert_result_def Let_def)
    from created [OF this None refl refl refl refl refl] False show thesis by blast
  qed
qed

lemma apply_tool_ok:
  assumes "ledger_ok digest l"
  shows "ledger_ok digest (snd (apply_tool digest uuid now op key req l))"
proof (cases rule: apply_tool_cases [of digest uuid now op key req l])
  case (created ref res x e l')
  have "entry_ok digest x e" by (simp add: created entry_ok_def)
  with assms show ?thesis
    by (simp add: created(1,7) ledger_ok_def list_all2_appendI) (use created(5,8,9) in auto)
qed (use assms in simp_all)

text \<open>Committed results stay, and an answer is the committed result of its key.\<close>

lemma apply_tool_keeps:
  "cached l k = Some x \<Longrightarrow> cached (snd (apply_tool digest uuid now op key req l)) k = Some x"
  by (cases rule: apply_tool_cases [of digest uuid now op key req l]) (simp_all add: cached_append)

lemma apply_tool_answer:
  assumes "fst (apply_tool digest uuid now op key req l) = Inr (res, new)"
  shows "\<exists>x. cached (snd (apply_tool digest uuid now op key req l)) key = Some x \<and>
    ir_operation x = op \<and> ir_request_hash x = digest req \<and>
    tr_reference_id res = tr_reference_id (ir_response x)"
  using assms
  by (cases rule: apply_tool_cases [of digest uuid now op key req l])
    (auto simp: cached_append conflicts_def deduplicated_def)

section \<open>The store as an idempotent service\<close>

text \<open>A call, with the random suffix and the clock it reads.\<close>

record tool_call =
  tc_uuid :: string
  tc_now :: timestamp
  tc_operation :: step_name
  tc_key :: string
  tc_request :: json

definition tool_call :: "(json \<Rightarrow> string) \<Rightarrow> tool_call \<Rightarrow> ledger \<Rightarrow> (tool_error + tool_result \<times> bool) \<times> ledger" where
  "tool_call digest q = apply_tool digest (tc_uuid q) (tc_now q) (tc_operation q) (tc_key q) (tc_request q)"

lemma ledger_ok_empty: "ledger_ok digest empty_ledger"
  by (simp add: ledger_ok_def empty_ledger_def)

interpretation tool_service: idempotent_service "tool_call digest" tc_key
  "\<lambda>l key. map_option (\<lambda>x. tr_reference_id (ir_response x)) (cached l key)"
  "\<lambda>a. tr_reference_id (fst a)" "ledger_ok digest"
  for digest
proof
  fix l q
  show "ledger_ok digest l \<Longrightarrow> ledger_ok digest (snd (tool_call digest q l))"
    by (simp add: tool_call_def apply_tool_ok)
  show "map_option (\<lambda>x. tr_reference_id (ir_response x)) (cached (snd (tool_call digest q l)) k) = Some v"
    if "map_option (\<lambda>x. tr_reference_id (ir_response x)) (cached l k) = Some v" for k v
    using that apply_tool_keeps by (force simp: tool_call_def)
  show "map_option (\<lambda>x. tr_reference_id (ir_response x)) (cached (snd (tool_call digest q l)) (tc_key q)) =
      Some (tr_reference_id (fst a))"
    if "fst (tool_call digest q l) = Inr a" for a
    using that apply_tool_answer unfolding tool_call_def by (cases a) force
qed

text \<open>C18: whatever requests reach the tool, in whatever order and however often, the ledger
  ends with at most one effect per idempotency key, and every successful answer to a key
  names that one effect.\<close>

theorem one_effect_per_key:
  assumes "i < length qs" and "fst (run_calls (tool_call digest) qs empty_ledger) ! i = Inr (res, new)"
    and "l = snd (run_calls (tool_call digest) qs empty_ledger)"
  shows "distinct (map se_operation_key (lg_effects l)) \<and>
    (\<exists>e. filter (\<lambda>e. se_operation_key e = tc_key (qs ! i)) (lg_effects l) = [e] \<and>
      se_id e = tr_reference_id res)"
proof -
  have ok: "ledger_ok digest l"
    unfolding assms(3) by (rule tool_service.calls_ok [OF ledger_ok_empty])
  from tool_service.answers_stored [OF ledger_ok_empty assms(1,2)]
  obtain x where x: "cached l (tc_key (qs ! i)) = Some x"
    and ref: "tr_reference_id (ir_response x) = tr_reference_id res"
    by (auto simp: assms(3))
  from cached_effect [OF ok x] obtain e where
    "filter (\<lambda>e. se_operation_key e = tc_key (qs ! i)) (lg_effects l) = [e]" "entry_ok digest x e" .
  with ref ok show ?thesis by (auto simp: entry_ok_def ledger_ok_def)
qed

end
