(* ===== verification/Doubles.thy ===== *)
theory Doubles
  imports Complex_Main "HOL-Library.Log_Nat"
begin

text \<open>
  IEEE doubles as Python uses them. A finite double is its exact rational value; an arithmetic
  operation is the exact one followed by \<open>to_double\<close>, which rounds to 53 significant bits, half
  to even, down to the subnormal numbers. The overflow to infinity is left to the callers.
\<close>

section \<open>Rounding to an integer\<close>

definition round_half_even :: "rat \<Rightarrow> int" where
  "round_half_even x = (let f = \<lfloor>x\<rfloor>; r = x - of_int f in
     if r < 1 / 2 then f else if 1 / 2 < r then f + 1 else if even f then f else f + 1)"

lemma round_half_even_bounds:
  "of_int (round_half_even x) - x \<le> 1 / 2" "x - of_int (round_half_even x) \<le> 1 / 2"
proof -
  have f: "of_int \<lfloor>x\<rfloor> \<le> x" "x < of_int \<lfloor>x\<rfloor> + 1" by linarith+
  show "of_int (round_half_even x) - x \<le> 1 / 2" "x - of_int (round_half_even x) \<le> 1 / 2"
    using f by (auto simp: round_half_even_def Let_def) linarith+
qed

lemma round_half_even_of_int [simp]: "round_half_even (of_int n) = n"
  by (simp add: round_half_even_def)

lemma round_half_even_nonneg: "0 \<le> x \<Longrightarrow> 0 \<le> round_half_even x"
  by (auto simp: round_half_even_def Let_def)

section \<open>Rounding to a double\<close>

definition power_of_two :: "int \<Rightarrow> rat" where
  "power_of_two k = (if 0 \<le> k then 2 ^ nat k else 1 / 2 ^ nat (- k))"

text \<open>The exponent of the last of the 53 significant bits.\<close>

definition double_exponent :: "rat \<Rightarrow> int" where
  "double_exponent x = max (- 1074) (int (floorlog 2 (nat \<lfloor>\<bar>x\<bar> * 2 ^ 1074\<rfloor>)) - 1127)"

definition to_double :: "rat \<Rightarrow> rat" where
  "to_double x = (let u = power_of_two (double_exponent x) in of_int (round_half_even (x / u)) * u)"

section \<open>Accuracy\<close>

lemma power_of_two_pos [simp]: "0 < power_of_two k"
  by (simp add: power_of_two_def)

lemma power_of_two_add: "power_of_two (a + int n) = power_of_two a * 2 ^ n"
proof (cases "0 \<le> a")
  case True
  then show ?thesis by (simp add: power_of_two_def nat_add_distrib power_add)
next
  case False
  show ?thesis
  proof (cases "0 \<le> a + int n")
    case True
    have "n = nat (a + int n) + nat (- a)" using True False by linarith
    then have "(2 :: rat) ^ n = 2 ^ nat (a + int n) * 2 ^ nat (- a)" by (metis power_add)
    then show ?thesis using False True by (simp add: power_of_two_def field_simps)
  next
    case neg: False
    have "nat (- a) = nat (- (a + int n)) + n" using False neg by linarith
    then have "(2 :: rat) ^ nat (- a) = 2 ^ nat (- (a + int n)) * 2 ^ n" by (metis power_add)
    then show ?thesis using False neg by (simp add: power_of_two_def field_simps)
  qed
qed

lemma to_double_error_unit: "\<bar>to_double x - x\<bar> \<le> power_of_two (double_exponent x) / 2"
proof -
  let ?u = "power_of_two (double_exponent x)"
  have u: "0 < ?u" by simp
  have "\<bar>of_int (round_half_even (x / ?u)) - x / ?u\<bar> \<le> 1 / 2"
    using round_half_even_bounds [of "x / ?u"] by linarith
  then have "\<bar>of_int (round_half_even (x / ?u)) - x / ?u\<bar> * ?u \<le> 1 / 2 * ?u"
    by (intro mult_right_mono less_imp_le [OF u])
  moreover have "\<bar>of_int (round_half_even (x / ?u)) - x / ?u\<bar> * ?u =
      \<bar>of_int (round_half_even (x / ?u)) * ?u - x\<bar>"
  proof -
    have "(of_int (round_half_even (x / ?u)) - x / ?u) * ?u = of_int (round_half_even (x / ?u)) * ?u - x"
      using less_imp_neq [OF u] by (simp add: left_diff_distrib)
    then show ?thesis using u by (metis abs_mult abs_of_pos)
  qed
  ultimately show ?thesis by (simp add: to_double_def Let_def)
qed

text \<open>The relative error of a normal number is at most half a unit in the 53rd bit.\<close>

lemma floor_bits:
  assumes "2 ^ 74 \<le> y" and "L = floorlog 2 (nat \<lfloor>y\<rfloor>)"
  shows "74 < L" and "2 ^ (L - 1) \<le> (y :: rat)"
proof -
  define n where "n = nat \<lfloor>y\<rfloor>"
  have F: "(2 :: int) ^ 74 \<le> \<lfloor>y\<rfloor>" using assms(1) by (simp add: le_floor_iff)
  have "nat (2 ^ 74) \<le> n" unfolding n_def by (rule nat_mono [OF F])
  then have n: "2 ^ 74 \<le> n" by (simp only: nat_power_eq [of 2] nat_numeral zero_le_numeral)
  then have "0 < n" by (metis less_le_trans zero_less_numeral zero_less_power)
  then have b: "2 ^ (L - 1) \<le> n" "n < 2 ^ L"
    using floorlog_bounds [of n 2] by (simp_all add: assms(2) n_def)
  have "(2 :: nat) ^ 74 < 2 ^ L" using n b(2) by (rule le_less_trans)
  then show "74 < L" by (simp only: power_strict_increasing_iff [of "2 :: nat"] one_less_numeral_iff semiring_norm)
  have "(2 :: rat) ^ (L - 1) \<le> of_nat n" using b(1) by (metis of_nat_le_iff of_nat_numeral of_nat_power)
  also have "of_nat n = (of_int \<lfloor>y\<rfloor> :: rat)" using \<open>0 < n\<close> by (simp add: n_def)
  also have "\<dots> \<le> y" by (rule of_int_floor_le)
  finally show "2 ^ (L - 1) \<le> y" .
qed

lemma to_double_error:
  assumes "1 / 2 ^ 1000 \<le> \<bar>x\<bar>"
  shows "\<bar>to_double x - x\<bar> \<le> \<bar>x\<bar> / 2 ^ 53"
proof -
  define L where "L = floorlog 2 (nat \<lfloor>\<bar>x\<bar> * 2 ^ 1074\<rfloor>)"
  have "(2 :: rat) ^ 74 = 1 / 2 ^ 1000 * 2 ^ 1074" by simp
  also have "\<dots> \<le> \<bar>x\<bar> * 2 ^ 1074" using assms by (intro mult_right_mono) simp_all
  finally have big: "2 ^ 74 \<le> \<bar>x\<bar> * 2 ^ 1074" .
  note bits = floor_bits [OF big L_def]
  have e: "double_exponent x = - 1127 + int L"
    using bits(1) by (simp only: double_exponent_def L_def [symmetric])
  have "power_of_two (double_exponent x) / 2 = 2 ^ L / 2 ^ 1127 / 2"
    unfolding e power_of_two_add by (simp add: power_of_two_def)
  also have "(2 :: rat) ^ L = 2 * 2 ^ (L - 1)" using bits(1) by (cases L) simp_all
  also have "2 * 2 ^ (L - 1) / 2 ^ 1127 / 2 = (2 ^ (L - 1) :: rat) / 2 ^ 1127" by simp
  also have "\<dots> \<le> \<bar>x\<bar> * 2 ^ 1074 / 2 ^ 1127" using bits(2) by (intro divide_right_mono) simp_all
  also have "\<dots> = \<bar>x\<bar> / 2 ^ 53" by (simp add: field_simps)
  finally show ?thesis using to_double_error_unit [of x] by linarith
qed

lemma round_half_even_near: "\<bar>x - of_int k\<bar> < 1 / 2 \<Longrightarrow> round_half_even x = k"
proof -
  assume a: "\<bar>x - of_int k\<bar> < 1 / 2"
  have "\<bar>of_int (round_half_even x) - x\<bar> \<le> 1 / 2" using round_half_even_bounds [of x] by linarith
  with a have "\<bar>of_int (round_half_even x) - of_int k :: rat\<bar> < 1" by linarith
  then have "\<bar>of_int (round_half_even x - k) :: rat\<bar> < of_int 1" by simp
  then have "\<bar>round_half_even x - k\<bar> < 1" by (simp only: of_int_abs [symmetric] of_int_less_iff)
  then show ?thesis by linarith
qed

lemma to_double_nonneg: "0 \<le> x \<Longrightarrow> 0 \<le> to_double x"
proof -
  assume "0 \<le> x"
  moreover have u: "0 < power_of_two (double_exponent x)" by simp
  ultimately have "0 \<le> round_half_even (x / power_of_two (double_exponent x))"
    by (intro round_half_even_nonneg divide_nonneg_pos)
  then show ?thesis using u by (simp only: to_double_def Let_def of_int_nonneg mult_nonneg_nonneg less_imp_le)
qed

lemma power_of_two_mono: "k \<le> m \<Longrightarrow> power_of_two k \<le> power_of_two m"
proof -
  assume "k \<le> m"
  then have "power_of_two m = power_of_two k * 2 ^ nat (m - k)" using power_of_two_add [of k "nat (m - k)"] by simp
  moreover have "power_of_two k * 1 \<le> power_of_two k * 2 ^ nat (m - k)"
    by (intro mult_left_mono) (simp_all add: less_imp_le)
  ultimately show ?thesis by simp
qed

text \<open>A number too small for the relative bound is rounded to a multiple of a tiny unit.\<close>

lemma to_double_tiny:
  assumes "\<bar>x\<bar> < 1 / 2 ^ 1000"
  shows "\<bar>to_double x - x\<bar> \<le> 1 / 2 ^ 1053"
proof -
  define n where "n = nat \<lfloor>\<bar>x\<bar> * 2 ^ 1074\<rfloor>"
  have "\<bar>x\<bar> * 2 ^ 1074 < 1 / 2 ^ 1000 * 2 ^ 1074" using assms by (intro mult_strict_right_mono) simp_all
  also have "\<dots> = (2 :: rat) ^ 74" by simp
  finally have "\<lfloor>\<bar>x\<bar> * 2 ^ 1074\<rfloor> < 2 ^ 74" by (simp add: floor_less_iff)
  then have "n < 2 ^ 74" by (simp add: n_def nat_less_iff)
  then have "floorlog 2 n \<le> 74" by (simp add: floorlog_le_iff)
  then have "max (- 1074) (int (floorlog 2 n) - 1127) \<le> - 1053" by linarith
  then have "double_exponent x \<le> - 1053" by (simp only: double_exponent_def n_def)
  then have "power_of_two (double_exponent x) \<le> power_of_two (- 1053)" by (rule power_of_two_mono)
  also have "\<dots> = 1 / 2 ^ 1053" by (simp add: power_of_two_def)
  finally show ?thesis using to_double_error_unit [of x] power_of_two_pos [of "double_exponent x"] by linarith
qed

end
