(* ===== verification/Timestamps.thy ===== *)
theory Timestamps
  imports Prelude
begin

text \<open>
  Timestamps as the engine stores them. Every timestamp column of both databases is the
  text of \<open>to_db(value)\<close>, that is \<open>value.isoformat()\<close> of a UTC datetime, and every SQL
  comparison of timestamps (\<open>next_attempt_at <= ?\<close>, \<open>lease_expires_at > ?\<close>,
  \<open>MAX(blocked_until, \<dots>)\<close>, \<open>ORDER BY created_at\<close>) compares those texts byte by byte.
  \<open>isoformat\<close> prints the microseconds only when they are not zero, so texts of two
  lengths are compared. The theory translates the printing and shows that the comparison
  of texts is the comparison of instants; the other theories therefore store instants
  (microseconds, as integers) in these columns.
\<close>

section \<open>Datetimes and their text\<close>

record datetime =
  dt_year :: nat
  dt_month :: nat
  dt_day :: nat
  dt_hour :: nat
  dt_minute :: nat
  dt_second :: nat
  dt_microsecond :: nat

definition leap :: "nat \<Rightarrow> bool" where
  "leap y \<longleftrightarrow> y mod 4 = 0 \<and> (y mod 100 \<noteq> 0 \<or> y mod 400 = 0)"

fun month_lengths :: "bool \<Rightarrow> nat list" where
  "month_lengths lp = [31, if lp then 29 else 28, 31, 30, 31, 30, 31, 31, 30, 31, 30, 31]"

definition valid_datetime :: "datetime \<Rightarrow> bool" where
  "valid_datetime d \<longleftrightarrow>
     1 \<le> dt_year d \<and> dt_year d \<le> 9999 \<and> 1 \<le> dt_month d \<and> dt_month d \<le> 12 \<and>
     1 \<le> dt_day d \<and> dt_day d \<le> month_lengths (leap (dt_year d)) ! (dt_month d - 1) \<and>
     dt_hour d < 24 \<and> dt_minute d < 60 \<and> dt_second d < 60 \<and> dt_microsecond d < 1000000"

text \<open>Decimal digits with leading zeros.\<close>

fun pad :: "nat \<Rightarrow> nat \<Rightarrow> string" where
  "pad 0 n = []"
| "pad (Suc k) n = pad k (n div 10) @ [char_of (48 + n mod 10)]"

definition to_db :: "datetime \<Rightarrow> string" where
  "to_db d =
     pad 4 (dt_year d) @ ''-'' @ pad 2 (dt_month d) @ ''-'' @ pad 2 (dt_day d) @ ''T'' @
     pad 2 (dt_hour d) @ '':'' @ pad 2 (dt_minute d) @ '':'' @ pad 2 (dt_second d) @
     (if dt_microsecond d = 0 then '''' else ''.'' @ pad 6 (dt_microsecond d)) @ ''+00:00''"

text \<open>The instant: microseconds since the start of year 1, in the proleptic Gregorian calendar.\<close>

definition days_before_year :: "nat \<Rightarrow> nat" where
  "days_before_year y = (let p = y - 1 in p * 365 + p div 4 - p div 100 + p div 400)"

definition days_before_month :: "nat \<Rightarrow> nat \<Rightarrow> nat" where
  "days_before_month y m = sum_list (take (m - 1) (month_lengths (leap y)))"

definition day_number :: "datetime \<Rightarrow> nat" where
  "day_number d =
     days_before_year (dt_year d) + days_before_month (dt_year d) (dt_month d) + dt_day d"

definition instant :: "datetime \<Rightarrow> int" where
  "instant d = int
     ((((day_number d * 24 + dt_hour d) * 60 + dt_minute d) * 60 + dt_second d) * 1000000 +
      dt_microsecond d)"

section \<open>Fixed-width digits compare as numbers\<close>

lemma length_pad [simp]: "length (pad k n) = k"
  by (induction k arbitrary: n) auto

lemma append_less_same_length:
  fixes x y :: "'a::linorder list"
  assumes "length x = length y"
  shows "x @ u < y @ v \<longleftrightarrow> x < y \<or> x = y \<and> u < v"
  using assms by (induction x y rule: list_induct2) auto

lemma digit_less:
  fixes a b :: nat
  assumes "a < 10" and "b < 10"
  shows "(char_of (48 + a) :: char) < char_of (48 + b) \<longleftrightarrow> a < b"
  using assms by (simp add: less_char_def)

lemma digit_eq:
  fixes a b :: nat
  assumes "a < 10" and "b < 10"
  shows "(char_of (48 + a) :: char) = char_of (48 + b) \<longleftrightarrow> a = b"
proof
  assume "(char_of (48 + a) :: char) = char_of (48 + b)"
  then have "of_char (char_of (48 + a) :: char) = (of_char (char_of (48 + b) :: char) :: nat)"
    by simp
  with assms show "a = b" by simp
qed simp

lemma pad_less_eq:
  assumes "m < 10 ^ k" and "n < 10 ^ k"
  shows "(pad k m < pad k n \<longleftrightarrow> m < n) \<and> (pad k m = pad k n \<longleftrightarrow> m = n)"
  using assms
proof (induction k arbitrary: m n)
  case 0
  then show ?case by simp
next
  case (Suc k)
  have IH: "(pad k (m div 10) < pad k (n div 10) \<longleftrightarrow> m div 10 < n div 10) \<and>
      (pad k (m div 10) = pad k (n div 10) \<longleftrightarrow> m div 10 = n div 10)"
    using Suc.prems by (intro Suc.IH) auto
  have less: "m < n \<longleftrightarrow> m div 10 < n div 10 \<or> m div 10 = n div 10 \<and> m mod 10 < n mod 10"
    using div_mult_mod_eq [of m 10] div_mult_mod_eq [of n 10] by linarith
  have eq: "m = n \<longleftrightarrow> m div 10 = n div 10 \<and> m mod 10 = n mod 10"
    by (metis div_mult_mod_eq)
  show ?case
    using IH by (simp add: append_less_same_length digit_less digit_eq less) (simp add: eq)
qed

lemmas pad_less = pad_less_eq [THEN conjunct1]
  and pad_eq = pad_less_eq [THEN conjunct2]

section \<open>Day numbers follow the calendar order\<close>

lemma leap_day_count:
  fixes p a b c :: nat
  assumes "b \<le> a" and "m100 \<Longrightarrow> m4" and "m400 \<Longrightarrow> m100"
  shows "Suc p * 365 + (a + (if m4 then 1 else 0)) - (b + (if m100 then 1 else 0)) +
      (c + (if m400 then 1 else 0)) =
    p * 365 + a - b + c + (if m4 \<and> (\<not> m100 \<or> m400) then 366 else 365)"
  using assms by (cases m4; cases m100; cases m400) simp_all

lemma days_before_year_Suc:
  assumes "1 \<le> y"
  shows "days_before_year (Suc y) = days_before_year y + (if leap y then 366 else 365)"
proof -
  obtain p where y: "y = Suc p" using assms by (cases y) auto
  have A: "Suc p div 4 = p div 4 + (if Suc p mod 4 = 0 then 1 else 0)"
    by (simp add: div_Suc)
  have B: "Suc p div 100 = p div 100 + (if Suc p mod 100 = 0 then 1 else 0)"
    by (simp add: div_Suc)
  have C: "Suc p div 400 = p div 400 + (if Suc p mod 400 = 0 then 1 else 0)"
    by (simp add: div_Suc)
  have D: "p div 100 \<le> p div 4" by (rule div_le_mono2) simp_all
  have E: "Suc p mod 4 = 0" if "Suc p mod 100 = 0"
  proof -
    have "(100::nat) dvd Suc p" using that by (simp add: dvd_eq_mod_eq_0)
    then have "(4::nat) dvd Suc p" by (rule dvd_trans [rotated]) simp
    then show ?thesis by (simp add: dvd_eq_mod_eq_0)
  qed
  have F: "Suc p mod 100 = 0" if "Suc p mod 400 = 0"
  proof -
    have "(400::nat) dvd Suc p" using that by (simp add: dvd_eq_mod_eq_0)
    then have "(100::nat) dvd Suc p" by (rule dvd_trans [rotated]) simp
    then show ?thesis by (simp add: dvd_eq_mod_eq_0)
  qed
  show ?thesis
    unfolding y days_before_year_def Let_def leap_def diff_Suc_1 A B C
    using leap_day_count [OF D E F] by simp
qed

lemma days_before_year_mono: "1 \<le> y \<Longrightarrow> y \<le> z \<Longrightarrow> days_before_year y \<le> days_before_year z"
proof (induction z)
  case (Suc z)
  then show ?case
    by (cases "y = Suc z") (auto simp: days_before_year_Suc)
qed simp

lemma month_cases:
  assumes "1 \<le> m" and "m \<le> (12::nat)"
  obtains "m = 1" | "m = 2" | "m = 3" | "m = 4" | "m = 5" | "m = 6" | "m = 7" | "m = 8"
    | "m = 9" | "m = 10" | "m = 11" | "m = 12"
  using assms by (auto simp: numeral_eq_Suc le_Suc_eq)

lemma days_before_month_Suc:
  assumes "1 \<le> m" and "m \<le> 12"
  shows "days_before_month y (Suc m) = days_before_month y m + month_lengths (leap y) ! (m - 1)"
proof -
  have "m - 1 < length (month_lengths (leap y))" using assms by simp
  then have "take (Suc (m - 1)) (month_lengths (leap y)) =
      take (m - 1) (month_lengths (leap y)) @ [month_lengths (leap y) ! (m - 1)]"
    by (rule take_Suc_conv_app_nth)
  moreover have "Suc (m - 1) = m" using assms by simp
  ultimately show ?thesis by (simp add: days_before_month_def del: month_lengths.simps)
qed

lemma days_before_month_mono: "1 \<le> m \<Longrightarrow> m \<le> n \<Longrightarrow> n \<le> 13 \<Longrightarrow> days_before_month y m \<le> days_before_month y n"
proof (induction n)
  case (Suc n)
  then show ?case
    by (cases "m = Suc n") (auto simp: days_before_month_Suc simp del: month_lengths.simps)
qed simp

lemma days_before_month_13: "days_before_month y 13 = (if leap y then 366 else 365)"
  by (simp add: days_before_month_def)

text \<open>A valid date lies before the first day of the next month and of the next year.\<close>

lemma date_before_next:
  assumes "valid_datetime d"
  shows "days_before_month (dt_year d) (dt_month d) + dt_day d
           \<le> days_before_month (dt_year d) (Suc (dt_month d))"
    and "day_number d \<le> days_before_year (Suc (dt_year d))"
proof -
  have v: "1 \<le> dt_year d" "1 \<le> dt_month d" "dt_month d \<le> 12"
    "dt_day d \<le> month_lengths (leap (dt_year d)) ! (dt_month d - 1)"
    using assms by (auto simp: valid_datetime_def simp del: month_lengths.simps)
  show A: "days_before_month (dt_year d) (dt_month d) + dt_day d
           \<le> days_before_month (dt_year d) (Suc (dt_month d))"
    using v by (simp add: days_before_month_Suc del: month_lengths.simps)
  have "days_before_month (dt_year d) (Suc (dt_month d)) \<le> days_before_month (dt_year d) 13"
    using v by (intro days_before_month_mono) auto
  with A show "day_number d \<le> days_before_year (Suc (dt_year d))"
    using v by (simp add: day_number_def days_before_year_Suc days_before_month_13)
qed

definition calendar_less :: "datetime \<Rightarrow> datetime \<Rightarrow> bool" where
  "calendar_less d e \<longleftrightarrow>
     dt_year d < dt_year e \<or> dt_year d = dt_year e \<and>
       (dt_month d < dt_month e \<or> dt_month d = dt_month e \<and> dt_day d < dt_day e)"

lemma day_number_less:
  assumes "valid_datetime d" and "valid_datetime e" and "calendar_less d e"
  shows "day_number d < day_number e"
proof -
  have v: "1 \<le> dt_year d" "1 \<le> dt_month d" "dt_month e \<le> 12" "1 \<le> dt_day e"
    using assms by (auto simp: valid_datetime_def)
  consider "dt_year d < dt_year e" | "dt_year d = dt_year e" "dt_month d < dt_month e"
    | "dt_year d = dt_year e" "dt_month d = dt_month e" "dt_day d < dt_day e"
    using assms(3) by (auto simp: calendar_less_def)
  then show ?thesis
  proof cases
    case 1
    have "day_number d \<le> days_before_year (Suc (dt_year d))"
      using assms(1) by (rule date_before_next)
    also have "\<dots> \<le> days_before_year (dt_year e)"
      using 1 by (intro days_before_year_mono) auto
    finally show ?thesis using v by (simp add: day_number_def)
  next
    case 2
    have "days_before_month (dt_year d) (dt_month d) + dt_day d
           \<le> days_before_month (dt_year d) (Suc (dt_month d))"
      using assms(1) by (rule date_before_next)
    also have "\<dots> \<le> days_before_month (dt_year d) (dt_month e)"
      using 2 v by (intro days_before_month_mono) auto
    finally show ?thesis using 2 v by (simp add: day_number_def)
  next
    case 3
    then show ?thesis by (simp add: day_number_def)
  qed
qed

lemma calendar_trichotomy:
  "calendar_less d e \<or> calendar_less e d \<or>
   dt_year d = dt_year e \<and> dt_month d = dt_month e \<and> dt_day d = dt_day e"
  by (auto simp: calendar_less_def)

lemma instant_less:
  assumes "valid_datetime d" and "valid_datetime e"
  shows "instant d < instant e \<longleftrightarrow>
     calendar_less d e \<or>
     dt_year d = dt_year e \<and> dt_month d = dt_month e \<and> dt_day d = dt_day e \<and>
     (dt_hour d < dt_hour e \<or> dt_hour d = dt_hour e \<and>
      (dt_minute d < dt_minute e \<or> dt_minute d = dt_minute e \<and>
       (dt_second d < dt_second e \<or> dt_second d = dt_second e \<and>
        dt_microsecond d < dt_microsecond e)))"
proof -
  have t: "dt_hour d < 24" "dt_minute d < 60" "dt_second d < 60" "dt_microsecond d < 1000000"
    "dt_hour e < 24" "dt_minute e < 60" "dt_second e < 60" "dt_microsecond e < 1000000"
    using assms by (auto simp: valid_datetime_def)
  consider "calendar_less d e" | "calendar_less e d"
    | "dt_year d = dt_year e" "dt_month d = dt_month e" "dt_day d = dt_day e"
    using calendar_trichotomy by blast
  then show ?thesis
  proof cases
    case 1
    with assms have "day_number d < day_number e" by (rule day_number_less)
    with 1 t show ?thesis by (simp add: instant_def)
  next
    case 2
    with assms have "day_number e < day_number d" by (intro day_number_less)
    with 2 t show ?thesis by (auto simp: instant_def calendar_less_def)
  next
    case 3
    then have "day_number d = day_number e" and "\<not> calendar_less d e"
      by (simp_all add: day_number_def calendar_less_def)
    with 3 t show ?thesis by (auto simp: instant_def)
  qed
qed

section \<open>Text order is time order\<close>

lemma fraction_less:
  assumes "a < 1000000" and "b < 1000000"
  shows "(if a = 0 then '''' else ''.'' @ pad 6 a) @ ''+00:00'' <
      (if b = 0 then '''' else ''.'' @ pad 6 b) @ ''+00:00'' \<longleftrightarrow> a < b"
proof -
  have "pad 6 a < pad 6 b \<longleftrightarrow> a < b" "pad 6 a = pad 6 b \<longleftrightarrow> a = b"
    using assms pad_less_eq [of a 6 b] by auto
  then show ?thesis
    by (auto simp: append_less_same_length less_char_def)
qed

text \<open>C24: for valid UTC datetimes, comparing two stored texts byte by byte (as SQLite does)
  is comparing the instants, with and without a fractional part in either text.\<close>

theorem to_db_order_preserving:
  assumes "valid_datetime d" and "valid_datetime e"
  shows "to_db d < to_db e \<longleftrightarrow> instant d < instant e"
proof -
  have w: "dt_year d < 10 ^ 4" "dt_year e < 10 ^ 4" "dt_month d < 10 ^ 2" "dt_month e < 10 ^ 2"
    "dt_hour d < 10 ^ 2" "dt_hour e < 10 ^ 2" "dt_minute d < 10 ^ 2" "dt_minute e < 10 ^ 2"
    "dt_second d < 10 ^ 2" "dt_second e < 10 ^ 2"
    and f: "dt_microsecond d < 1000000" "dt_microsecond e < 1000000"
    using assms by (auto simp: valid_datetime_def)
  have m: "month_lengths b ! (m - 1) < 10 ^ 2" if "1 \<le> m" "m \<le> 12" for b m
    using that by (cases rule: month_cases [OF that]) (auto simp: numeral_eq_Suc)
  have day: "dt_day d < 10 ^ 2" "dt_day e < 10 ^ 2"
    using assms m by (auto simp: valid_datetime_def simp del: month_lengths.simps
        intro: le_less_trans)
  show ?thesis
    unfolding to_db_def instant_less [OF assms] calendar_less_def
    using w day
    by (simp only: append_assoc append_less_same_length length_pad refl pad_less pad_eq
        fraction_less [OF f] less_irrefl simp_thms)
      (simp add: append_less_same_length fraction_less [OF f, simplified]; blast)
qed

end
