(* ===== verification/Durations.thy ===== *)
theory Durations
  imports Doubles Timestamps Models
begin

text \<open>
  Durations in seconds as the engine computes them: Python floats with their special values,
  the exponential backoff, and the conversion of a float to a \<open>timedelta\<close> and to a deadline,
  with the exceptions these raise. A finite float is its exact rational value. The one
  product the program forms multiplies a float by a power of two, which is exact unless it
  overflows; \<open>timedelta\<close> rounds twice on its way to whole microseconds.
\<close>

section \<open>Floats\<close>

datatype py_float = Finite rat | PosInf | NegInf | NaN

fun float_less :: "py_float \<Rightarrow> py_float \<Rightarrow> bool" where
  "float_less (Finite x) (Finite y) \<longleftrightarrow> x < y"
| "float_less (Finite x) PosInf \<longleftrightarrow> True"
| "float_less NegInf (Finite y) \<longleftrightarrow> True"
| "float_less NegInf PosInf \<longleftrightarrow> True"
| "float_less _ _ \<longleftrightarrow> False"

definition float_le :: "py_float \<Rightarrow> py_float \<Rightarrow> bool" where
  "float_le x y \<longleftrightarrow> float_less x y \<or> x = y \<and> x \<noteq> NaN"

text \<open>\<open>min(a, b)\<close> keeps \<open>a\<close> unless \<open>b < a\<close>; a NaN is never less.\<close>

definition py_min :: "py_float \<Rightarrow> py_float \<Rightarrow> py_float" where
  "py_min a b = (if float_less b a then b else a)"

datatype time_error = ClockOverflowError | ClockValueError

definition in_float_range :: "rat \<Rightarrow> py_float" where
  "in_float_range x = (if 2 ^ 1024 \<le> x then PosInf else if x \<le> - (2 ^ 1024) then NegInf else Finite x)"

text \<open>\<open>x * (2 ** k)\<close>: an integer of 1024 bits or more does not convert to a float.\<close>

definition times_power_of_two :: "py_float \<Rightarrow> int \<Rightarrow> time_error + py_float" where
  "times_power_of_two x k =
     (if 1024 \<le> k then Inl ClockOverflowError
      else Inr (case x of Finite r \<Rightarrow> in_float_range (r * power_of_two k) | y \<Rightarrow> y))"

section \<open>Durations and deadlines\<close>

definition microseconds_per_day :: int where
  "microseconds_per_day = 86400000000"

text \<open>
  \<open>timedelta(seconds=x)\<close>, in microseconds. The whole seconds count exactly; the fraction, which
  is exact as well, is multiplied by a million in floating point and then rounded, half to
  even. The days are limited to nine digits.
\<close>

definition truncate :: "rat \<Rightarrow> int" where
  "truncate x = (if 0 \<le> x then \<lfloor>x\<rfloor> else \<lceil>x\<rceil>)"

definition seconds_to_microseconds :: "rat \<Rightarrow> int" where
  "seconds_to_microseconds r =
     (let whole = truncate r; fraction = r - of_int whole in
      whole * 1000000 + (if fraction = 0 then 0 else round_half_even (to_double (fraction * 1000000))))"

definition timedelta_seconds :: "py_float \<Rightarrow> time_error + int" where
  "timedelta_seconds x =
     (case x of
        Finite r \<Rightarrow>
          (let us = seconds_to_microseconds r in
           if \<bar>us div microseconds_per_day\<bar> \<le> 999999999 then Inr us else Inl ClockOverflowError)
      | NaN \<Rightarrow> Inl ClockValueError
      | _ \<Rightarrow> Inl ClockOverflowError)"

text \<open>The instants a \<open>datetime\<close> can hold, years 1 to 9999.\<close>

definition datetime_range :: "timestamp \<Rightarrow> bool" where
  "datetime_range t \<longleftrightarrow> microseconds_per_day \<le> t \<and> t < 3652060 * microseconds_per_day"

definition add_duration :: "timestamp \<Rightarrow> int \<Rightarrow> time_error + timestamp" where
  "add_duration t us = (if datetime_range (t + us) then Inr (t + us) else Inl ClockOverflowError)"

definition deadline :: "timestamp \<Rightarrow> py_float \<Rightarrow> time_error + timestamp" where
  "deadline now x = rbind (timedelta_seconds x) (add_duration now)"

text \<open>The locally generated backoff of attempt \<open>n\<close>.\<close>

definition backoff :: "py_float \<Rightarrow> py_float \<Rightarrow> int \<Rightarrow> time_error + py_float" where
  "backoff base limit n = rbind (times_power_of_two base (n - 1)) (\<lambda>x. Inr (py_min x limit))"

section \<open>Facts\<close>

lemma days_before_year_10000: "days_before_year 10000 = 3652059"
  by (simp add: days_before_year_def)

text \<open>Every valid datetime has its instant in the range.\<close>

lemma instant_in_range:
  assumes "valid_datetime d"
  shows "datetime_range (instant d)"
proof -
  have v: "1 \<le> dt_year d" "dt_year d \<le> 9999" "1 \<le> dt_day d" "dt_hour d < 24" "dt_minute d < 60"
    "dt_second d < 60" "dt_microsecond d < 1000000"
    using assms by (auto simp: valid_datetime_def)
  have "day_number d \<le> days_before_year (Suc (dt_year d))" using assms by (rule date_before_next)
  also have "\<dots> \<le> days_before_year 10000" using v(1,2) by (intro days_before_year_mono) auto
  finally have "day_number d \<le> 3652059" by (simp add: days_before_year_10000)
  moreover have "1 \<le> day_number d" using v(3) by (simp add: day_number_def)
  ultimately show ?thesis
    using v(4-) by (simp add: datetime_range_def instant_def microseconds_per_day_def)
qed

lemma truncate_fraction: "\<bar>x - of_int (truncate x)\<bar> < 1" "0 \<le> x \<Longrightarrow> 0 \<le> truncate x \<and> 0 \<le> x - of_int (truncate x)"
  unfolding truncate_def by (simp_all; linarith)+

lemma seconds_to_microseconds_int [simp]: "seconds_to_microseconds (of_int n) = n * 1000000"
  by (simp add: seconds_to_microseconds_def truncate_def Let_def)

lemma seconds_to_microseconds_nonneg: "0 \<le> r \<Longrightarrow> 0 \<le> seconds_to_microseconds r"
  using truncate_fraction(2) [of r]
  by (simp add: seconds_to_microseconds_def Let_def round_half_even_nonneg to_double_nonneg)

text \<open>The two roundings together: half a microsecond, and half a unit of the last bit of a number
  below a million.\<close>

lemma seconds_to_microseconds_error:
  "\<bar>of_int (seconds_to_microseconds r) - r * 1000000\<bar> \<le> 1 / 2 + 1 / 2 ^ 33"
proof -
  define p where "p = (r - of_int (truncate r)) * 1000000"
  have small: "\<bar>p\<bar> \<le> 1000000" using truncate_fraction(1) [of r] by (simp add: p_def abs_mult)
  have dbl: "\<bar>to_double p - p\<bar> \<le> 1 / 2 ^ 33"
  proof (cases "\<bar>p\<bar> < 1 / 2 ^ 1000")
    case True
    have "1 / 2 ^ 1053 \<le> (1 / 2 ^ 33 :: rat)" by (simp add: divide_left_mono)
    with to_double_tiny [OF True] show ?thesis by linarith
  next
    case False
    then have "\<bar>to_double p - p\<bar> \<le> \<bar>p\<bar> / 2 ^ 53" by (intro to_double_error) simp
    also have "\<dots> \<le> 1000000 / 2 ^ 53" using small by (intro divide_right_mono) simp_all
    also have "\<dots> \<le> 1 / 2 ^ 33" by simp
    finally show ?thesis .
  qed
  have "\<bar>of_int (round_half_even (to_double p)) - to_double p\<bar> \<le> 1 / 2"
    using round_half_even_bounds [of "to_double p"] by linarith
  with dbl have "\<bar>of_int (round_half_even (to_double p)) - p\<bar> \<le> 1 / 2 + 1 / 2 ^ 33" by linarith
  moreover have "of_int (seconds_to_microseconds r) - r * 1000000 =
      (if p = 0 then 0 else of_int (round_half_even (to_double p)) - p)"
    by (simp add: seconds_to_microseconds_def p_def Let_def algebra_simps)
  ultimately show ?thesis by simp
qed

lemma timedelta_seconds_Inr:
  "timedelta_seconds x = Inr us \<Longrightarrow> \<exists>r. x = Finite r \<and> us = seconds_to_microseconds r"
  by (cases x) (auto simp: timedelta_seconds_def Let_def split: if_splits)

lemma deadline_Inr:
  "deadline now x = Inr t \<Longrightarrow> \<exists>r. x = Finite r \<and> t = now + seconds_to_microseconds r \<and> datetime_range t"
  by (auto simp: deadline_def rbind_Inr_iff add_duration_def dest!: timedelta_seconds_Inr split: if_splits)

lemma deadline_after: "deadline now (Finite r) = Inr t \<Longrightarrow> 0 \<le> r \<Longrightarrow> now \<le> t"
  using seconds_to_microseconds_nonneg [of r] by (auto dest!: deadline_Inr)

text \<open>The backoff of attempt \<open>n\<close> is exactly the smaller of \<open>base * 2 ^ (n - 1)\<close> and the
  limit, for finite settings, as long as the exponent still converts to a float; from
  attempt 1025 on the computation raises \<open>OverflowError\<close> instead.\<close>

theorem backoff_exact:
  assumes "0 \<le> b" and "0 \<le> m" and "m < 2 ^ 1024" and "1 \<le> n"
  shows "backoff (Finite b) (Finite m) n =
    (if n \<le> 1024 then Inr (Finite (min (b * 2 ^ nat (n - 1)) m)) else Inl ClockOverflowError)"
proof (cases "n \<le> 1024")
  case True
  let ?x = "b * 2 ^ nat (n - 1)"
  have "0 \<le> ?x" using assms(1) by simp
  moreover have "- (2 ^ 1024) < (0 :: rat)" by simp
  then have "\<not> ?x \<le> - (2 ^ 1024)" using \<open>0 \<le> ?x\<close> by linarith
  ultimately show ?thesis
    using True assms(3,4)
    by (simp add: backoff_def times_power_of_two_def power_of_two_def in_float_range_def py_min_def min_def)
next
  case False
  then show ?thesis by (simp add: backoff_def times_power_of_two_def)
qed

end
