(* ===== verification/Engine.thy ===== *)
theory Engine
  imports Operations Mock_Tool Durations
begin

text \<open>
  \<open>crashsafe/engine.py\<close>: the translation of HTTP outcomes, the retry policy and the
  single-attempt loop \<open>run_once\<close>. Between its database transactions \<open>run_once\<close> holds only
  local variables; they are the constructors of \<open>worker_phase\<close>, and each transaction with
  the code around it is one phase function. \<open>run_once\<close> composes the phases without
  interference; \<open>System\<close> interleaves them with other processes. The clock readings and the
  text of transport errors are parameters, \<open>float_of\<close> is Python's \<open>float()\<close> on a header.
\<close>

section \<open>Translating HTTP outcomes\<close>

datatype http_reply = Response http_response | TransportError string

text \<open>What \<open>gateway.execute\<close> returns or raises; \<open>BadAnswer\<close> is an unreadable success body.\<close>

datatype gateway_outcome =
    ToolAnswer tool_result
  | RetryableToolError string "py_float option" bool
  | PermanentToolError string
  | BadAnswer

fun show_nat :: "nat \<Rightarrow> string" where
  "show_nat n = (if n < 10 then [char_of (48 + n)] else show_nat (n div 10) @ [char_of (48 + n mod 10)])"

declare show_nat.simps [simp del]

definition show_int :: "int \<Rightarrow> string" where
  "show_int i = (if i < 0 then CHR ''-'' # show_nat (nat (- i)) else show_nat (nat i))"

definition is_server_error :: "int \<Rightarrow> bool" where
  "is_server_error code \<longleftrightarrow> 500 \<le> code \<and> code \<le> 599"

definition is_error :: "int \<Rightarrow> bool" where
  "is_error code \<longleftrightarrow> 400 \<le> code \<and> code \<le> 599"

definition translate_response :: "(string \<Rightarrow> py_float option) \<Rightarrow> http_response \<Rightarrow> gateway_outcome" where
  "translate_response float_of r =
     (if hr_status r = 429
      then RetryableToolError ''tool throttled the request''
             (case hr_retry_after r of None \<Rightarrow> None | Some text \<Rightarrow> float_of text) True
      else if hr_status r = 409
      then PermanentToolError ''idempotency key was reused with a different request''
      else if is_server_error (hr_status r)
      then RetryableToolError (''tool returned HTTP '' @ show_int (hr_status r)) None False
      else if is_error (hr_status r)
      then PermanentToolError (''tool returned HTTP '' @ show_int (hr_status r) @ '': '' @ hr_text r)
      else (case hr_result r of None \<Rightarrow> BadAnswer | Some res \<Rightarrow> ToolAnswer res))"

fun gateway_execute :: "(string \<Rightarrow> py_float option) \<Rightarrow> http_reply \<Rightarrow> gateway_outcome" where
  "gateway_execute float_of (TransportError message) =
     RetryableToolError (''tool transport error: '' @ message) None False"
| "gateway_execute float_of (Response r) = translate_response float_of r"

text \<open>The request the gateway posts: route, \<open>Idempotency-Key\<close> header, body.\<close>

definition tool_request :: "step_record \<Rightarrow> step_name \<times> string \<times> json" where
  "tool_request s = (st_operation s, st_operation_key s, st_request s)"

definition result_payload :: "tool_result \<Rightarrow> json" where
  "result_payload r = JObj [(''deduplicated'', JBool (tr_deduplicated r)),
     (''operation'', JStr (step_name_value (tr_operation r))),
     (''reference_id'', JStr (tr_reference_id r))]"

section \<open>Injected crashes\<close>

datatype crash_point = BEFORE_REQUEST | AFTER_RESPONSE | AFTER_COMMIT

fun crash_point_value :: "crash_point \<Rightarrow> string" where
  "crash_point_value BEFORE_REQUEST = ''before_request''"
| "crash_point_value AFTER_RESPONSE = ''after_response''"
| "crash_point_value AFTER_COMMIT = ''after_commit''"

definition crash_requested :: "string option \<Rightarrow> step_record \<Rightarrow> crash_point \<Rightarrow> bool" where
  "crash_requested specification s point \<longleftrightarrow>
     specification = Some (step_name_value (st_operation s) @ '':'' @ crash_point_value point)"

section \<open>The retry policy\<close>

text \<open>The settings the engine reads (\<open>crashsafe/config.py\<close>).\<close>

record engine_settings =
  es_max_attempts :: int
  es_base_backoff :: py_float
  es_max_backoff :: py_float
  es_lease_ttl :: py_float
  es_crash_at :: "string option"

datatype engine_error = StorageError storage_error | TimeError time_error | BadToolAnswer

record run_outcome =
  ro_did_work :: bool
  ro_run_id :: "string option"
  ro_step_name :: "step_name option"

text \<open>Clock readings of one commit: the engine's, the storage's, the lease check's.\<close>

record commit_clock =
  cc_engine :: timestamp
  cc_now :: timestamp
  cc_lease :: timestamp

definition storage_result :: "(storage_error + 'a) \<times> db \<Rightarrow> (engine_error + unit) \<times> db" where
  "storage_result x = (case x of (Inl e, d) \<Rightarrow> (Inl (StorageError e), d) | (Inr _, d) \<Rightarrow> (Inr (), d))"

definition retry_delay :: "engine_settings \<Rightarrow> step_record \<Rightarrow> py_float option \<Rightarrow> time_error + py_float" where
  "retry_delay cfg s retry_after =
     (case retry_after of Some x \<Rightarrow> Inr x
      | None \<Rightarrow> backoff (es_base_backoff cfg) (es_max_backoff cfg) (st_attempts s))"

definition handle_retryable_failure :: "engine_settings \<Rightarrow> commit_clock \<Rightarrow> step_record \<Rightarrow> string
    \<Rightarrow> py_float option \<Rightarrow> bool \<Rightarrow> string \<Rightarrow> int \<Rightarrow> db \<Rightarrow> (engine_error + unit) \<times> db" where
  "handle_retryable_failure cfg t s message retry_after throttle owner fence d =
     (if es_max_attempts cfg \<le> st_attempts s
      then storage_result (fail_step (cc_now t) (cc_lease t) (st_run_id s) (st_id s)
             (''retry budget exhausted: '' @ message) (Some owner) (Some fence) d)
      else (case rbind (retry_delay cfg s retry_after) (deadline (cc_engine t)) of
         Inl e \<Rightarrow> (Inl (TimeError e), d)
       | Inr next \<Rightarrow> storage_result (schedule_retry (cc_now t) (cc_lease t) (st_run_id s) (st_id s)
             message next (Some owner) (Some fence) throttle d)))"

section \<open>The phases of \<open>run_once\<close>\<close>

datatype worker_phase =
    Idle
  | Claimed claimed_step
  | Requesting step_record workflow_run_lease
  | Responded step_record workflow_run_lease gateway_outcome
  | Releasing workflow_run_lease "engine_error + run_outcome"
  | Finished "engine_error + run_outcome"
  | Dead

definition did_step :: "step_record \<Rightarrow> run_outcome" where
  "did_step s = \<lparr>ro_did_work = True, ro_run_id = Some (st_run_id s), ro_step_name = Some (st_operation s)\<rparr>"

definition did_nothing :: run_outcome where
  "did_nothing = \<lparr>ro_did_work = False, ro_run_id = None, ro_step_name = None\<rparr>"

definition claim_phase :: "engine_settings \<Rightarrow> string \<Rightarrow> timestamp \<Rightarrow> db \<Rightarrow> worker_phase \<times> db" where
  "claim_phase cfg worker now d =
     (case deadline now (es_lease_ttl cfg) of
        Inl e \<Rightarrow> (Finished (Inl (TimeError e)), d)
      | Inr expires \<Rightarrow>
          (case claim_runnable_step worker (expires - now) now d of
             (Inl e, d') \<Rightarrow> (Finished (Inl (StorageError e)), d')
           | (Inr None, d') \<Rightarrow> (Finished (Inr did_nothing), d')
           | (Inr (Some c), d') \<Rightarrow> (Claimed c, d')))"

text \<open>An exception ends the attempt; \<open>LeaseLostError\<close> alone is caught. The lease is released
  in either case.\<close>

definition after_error :: "workflow_run_lease \<Rightarrow> run_outcome \<Rightarrow> engine_error \<Rightarrow> worker_phase" where
  "after_error lease out e = (case e of
     StorageError (LeaseLostError _ _) \<Rightarrow> Releasing lease (Inr out)
   | _ \<Rightarrow> Releasing lease (Inl e))"

definition attempt_phase :: "engine_settings \<Rightarrow> timestamp \<Rightarrow> timestamp \<Rightarrow> claimed_step \<Rightarrow> db
    \<Rightarrow> worker_phase \<times> db" where
  "attempt_phase cfg now checked c d =
     (case record_attempt now checked (st_run_id (cl_step c)) (st_id (cl_step c))
             (Some (le_owner_id (cl_lease c))) (Some (le_fence_token (cl_lease c))) d of
        (Inl e, d') \<Rightarrow> (after_error (cl_lease c) (did_step (cl_step c)) (StorageError e), d')
      | (Inr s, d') \<Rightarrow>
          (if crash_requested (es_crash_at cfg) s BEFORE_REQUEST then Dead
           else Requesting s (cl_lease c), d'))"

definition settle :: "workflow_run_lease \<Rightarrow> run_outcome \<Rightarrow> (engine_error + unit) \<times> db
    \<Rightarrow> worker_phase \<times> db" where
  "settle lease out x = (case x of
     (Inl e, d) \<Rightarrow> (after_error lease out e, d) | (Inr _, d) \<Rightarrow> (Releasing lease (Inr out), d))"

definition commit_answer :: "engine_settings \<Rightarrow> commit_clock \<Rightarrow> step_record \<Rightarrow> workflow_run_lease
    \<Rightarrow> tool_result \<Rightarrow> db \<Rightarrow> worker_phase \<times> db" where
  "commit_answer cfg t s lease res d =
     (if crash_requested (es_crash_at cfg) s AFTER_RESPONSE then (Dead, d)
      else (case complete_step (cc_now t) (cc_lease t) (st_run_id s) (st_id s) (result_payload res)
                   (Some (le_owner_id lease)) (Some (le_fence_token lease)) d of
         (Inl e, d') \<Rightarrow> (after_error lease (did_step s) (StorageError e), d')
       | (Inr _, d') \<Rightarrow>
           (if crash_requested (es_crash_at cfg) s AFTER_COMMIT then Dead
            else Releasing lease (Inr (did_step s)), d')))"

fun commit_phase :: "engine_settings \<Rightarrow> commit_clock \<Rightarrow> step_record \<Rightarrow> workflow_run_lease
    \<Rightarrow> gateway_outcome \<Rightarrow> db \<Rightarrow> worker_phase \<times> db" where
  "commit_phase cfg t s lease (ToolAnswer res) d = commit_answer cfg t s lease res d"
| "commit_phase cfg t s lease (RetryableToolError message retry_after throttle) d =
     settle lease (did_step s) (handle_retryable_failure cfg t s message retry_after throttle
       (le_owner_id lease) (le_fence_token lease) d)"
| "commit_phase cfg t s lease (PermanentToolError message) d =
     settle lease (did_step s) (storage_result (fail_step (cc_now t) (cc_lease t) (st_run_id s) (st_id s)
       message (Some (le_owner_id lease)) (Some (le_fence_token lease)) d))"
| "commit_phase cfg t s lease BadAnswer d = (after_error lease (did_step s) BadToolAnswer, d)"

text \<open>The \<open>finally\<close> block.\<close>

definition release_phase :: "timestamp \<Rightarrow> workflow_run_lease \<Rightarrow> engine_error + run_outcome \<Rightarrow> db
    \<Rightarrow> worker_phase \<times> db" where
  "release_phase now lease res d =
     (Finished res, snd (release_lease now (le_run_id lease) (le_owner_id lease) (le_fence_token lease) d))"

record run_clock =
  rc_claim :: timestamp
  rc_attempt :: timestamp
  rc_attempt_lease :: timestamp
  rc_commit :: commit_clock
  rc_release :: timestamp

definition finish_phase :: "timestamp \<Rightarrow> worker_phase \<times> db \<Rightarrow> worker_phase \<times> db" where
  "finish_phase now x = (case x of (Releasing lease res, d) \<Rightarrow> release_phase now lease res d | y \<Rightarrow> y)"

definition run_once :: "engine_settings \<Rightarrow> string \<Rightarrow> run_clock \<Rightarrow> (step_record \<Rightarrow> gateway_outcome) \<Rightarrow> db
    \<Rightarrow> worker_phase \<times> db" where
  "run_once cfg worker t gateway d =
     (case claim_phase cfg worker (rc_claim t) d of
        (Claimed c, d) \<Rightarrow>
          (case attempt_phase cfg (rc_attempt t) (rc_attempt_lease t) c d of
             (Requesting s lease, d) \<Rightarrow>
               finish_phase (rc_release t) (commit_phase cfg (rc_commit t) s lease (gateway s) d)
           | x \<Rightarrow> finish_phase (rc_release t) x)
      | x \<Rightarrow> x)"

text \<open>One round of the heartbeat thread: whether it goes on, and the lease it leaves.\<close>

definition heartbeat_round :: "timestamp \<Rightarrow> workflow_run_lease \<Rightarrow> int \<Rightarrow> db \<Rightarrow> bool \<times> db" where
  "heartbeat_round now lease ttl d =
     (case renew_lease now (le_run_id lease) (le_owner_id lease) (le_fence_token lease) ttl d of
        (Inl _, d') \<Rightarrow> (True, d') | (Inr renewed, d') \<Rightarrow> (renewed, d'))"

end
