(* ===== verification/Commits.thy ===== *)
theory Commits
  imports Engine
begin

text \<open>
  What a worker can write. The phases of \<open>run_once\<close> change the database only through four
  storage operations under the worker's lease; the relation \<open>worker_write\<close> collects them.
  A write needs the current fence token of the run, extends the run's history and changes
  nothing of other runs.
\<close>

section \<open>Leased writes\<close>

inductive worker_write :: "string \<Rightarrow> string \<Rightarrow> string \<Rightarrow> int \<Rightarrow> json option \<Rightarrow> db \<Rightarrow> db \<Rightarrow> bool" where
  write_attempt: "record_attempt_body now checked r i (Some owner) (Some fence) d = Inr (s, d') \<Longrightarrow>
    worker_write r i owner fence None d d'"
| write_retry: "schedule_retry_body now checked r i msg nx (Some owner) (Some fence) throttle d = Inr (u, d') \<Longrightarrow>
    worker_write r i owner fence None d d'"
| write_fail: "fail_step_body now checked r i msg (Some owner) (Some fence) d = Inr (u, d') \<Longrightarrow>
    worker_write r i owner fence None d d'"
| write_complete: "complete_step_body now checked r i out (Some owner) (Some fence) d = Inr (u, d') \<Longrightarrow>
    worker_write r i owner fence (Some out) d d'"

lemma require_lease_current:
  assumes "require_lease d r checked (Some owner) (Some fence) = Inr ()"
    and "distinct (map le_run_id (db_leases d))"
  shows "\<exists>m. lease_of d r = Some m \<and> le_owner_id m = owner \<and> le_fence_token m = fence \<and> checked < le_expires_at m"
  using assms by (auto simp: require_lease_Inr lease_match_def lease_of_iff)

lemma worker_write_all:
  assumes "worker_write r i owner fence out d d'"
  shows "(\<exists>checked. require_lease d r checked (Some owner) (Some fence) = Inr ()) \<and>
    (\<exists>row. get_step_row d r i = Inr row) \<and> log_grows d d' \<and> db_leases d' = db_leases d"
  using assms
proof (cases rule: worker_write.cases)
  case (write_attempt now checked s)
  then show ?thesis using attempt_log by (auto elim!: record_attempt_body_Inr)
next
  case (write_retry now checked msg nx throttle u)
  then show ?thesis using retry_log by (auto elim!: schedule_retry_body_Inr)
next
  case (write_fail now checked msg u)
  then show ?thesis using fail_log by (auto elim!: fail_step_body_Inr)
next
  case (write_complete now checked out u)
  then show ?thesis using complete_log by (auto elim!: complete_step_body_Inr)
qed

lemmas worker_write_facts = worker_write_all [THEN conjunct1] worker_write_all [THEN conjunct2, THEN conjunct1]
  worker_write_all [THEN conjunct2, THEN conjunct2, THEN conjunct1]
  worker_write_all [THEN conjunct2, THEN conjunct2, THEN conjunct2]

lemma worker_write_ok:
  assumes w: "worker_write r i owner fence out d d'" and ok: "db_ok d" and running: "run_is_running d r"
  shows "db_ok d' \<and> frame r d d' \<and> (\<exists>run run'. view d r = Some run \<and> view d' r = Some run' \<and>
    (\<forall>t \<in> new_completions run run'. st_output t = out \<and> st_id t = i))"
proof -
  from running obtain run where v: "view d r = Some run" "wr_status run = RUNNING"
    by (rule run_is_running_view)
  from w show ?thesis
  proof (cases rule: worker_write.cases)
    case (write_attempt now checked s)
    let ?run' = "run\<lparr>wr_steps := update_where (\<lambda>x. st_id x = i) (\<lambda>_. s) (wr_steps run)\<rparr>"
    note a = record_attempt_ok [OF ok v write_attempt(2)]
    have "new_completions run ?run' = {}" using new_completions_update [of ?run' i s run] a(3) by simp
    with a v show ?thesis by (intro conjI exI [of _ run] exI [of _ ?run']) simp_all
  next
    case (write_retry now checked msg nx throttle u)
    with schedule_retry_ok [OF ok v write_retry(2)] v show ?thesis by fastforce
  next
    case (write_fail now checked msg u)
    with fail_step_ok [OF ok v write_fail(2)] v show ?thesis by fastforce
  next
    case (write_complete now checked out' u)
    from complete_step_ok [OF ok v(1) write_complete(2) v(2)] obtain run' where
      "db_ok d'" "frame r d d'" "view d' r = Some run'"
      "\<forall>t \<in> new_completions run run'. st_output t = Some out' \<and> st_id t = i" by blast
    with v(1) write_complete(1) show ?thesis by auto
  qed
qed

section \<open>The phases\<close>

fun phase_lease :: "worker_phase \<Rightarrow> workflow_run_lease option" where
  "phase_lease (Claimed c) = Some (cl_lease c)"
| "phase_lease (Requesting s l) = Some l"
| "phase_lease (Responded s l g) = Some l"
| "phase_lease _ = None"

fun phase_step :: "worker_phase \<Rightarrow> step_record option" where
  "phase_step (Claimed c) = Some (cl_step c)"
| "phase_step (Requesting s l) = Some s"
| "phase_step (Responded s l g) = Some s"
| "phase_step _ = None"

lemma after_error_phase [simp]:
  "phase_lease (after_error l out e) = None" "phase_step (after_error l out e) = None"
  by (cases e rule: engine_error.exhaust; simp add: after_error_def split: storage_error.splits)+

lemma attempt_phase_cases:
  assumes "attempt_phase cfg now checked c d = (ph, d')"
  obtains (refused) "d' = d" and "phase_lease ph = None" and "phase_step ph = None"
  | (recorded) s where "record_attempt_body now checked (st_run_id (cl_step c)) (st_id (cl_step c))
        (Some (le_owner_id (cl_lease c))) (Some (le_fence_token (cl_lease c))) d = Inr (s, d')"
      and "ph = Dead \<or> ph = Requesting s (cl_lease c)"
  using assms that by (auto simp: attempt_phase_def record_attempt_def transaction_def
      split: sum.splits if_splits)

lemma settle_storage:
  assumes "settle l out (storage_result (transaction body d)) = (ph, d')"
  shows "phase_lease ph = None \<and> phase_step ph = None \<and> (d' = d \<or> (\<exists>u. body d = Inr (u, d')))"
  using assms by (auto simp: settle_def storage_result_def transaction_def split: sum.splits)

lemma commit_phase_cases:
  assumes "commit_phase cfg t s l g d = (ph, d')"
  shows "phase_lease ph = None \<and> phase_step ph = None \<and> (d' = d \<or>
    worker_write (st_run_id s) (st_id s) (le_owner_id l) (le_fence_token l)
      (case g of ToolAnswer res \<Rightarrow> Some (result_payload res) | _ \<Rightarrow> None) d d')"
proof (cases g)
  case (ToolAnswer res)
  with assms show ?thesis
    by (auto simp: commit_answer_def complete_step_def transaction_def split: sum.splits if_splits
        intro: worker_write.intros)
next
  case (RetryableToolError msg ra thr)
  show ?thesis
  proof (cases "es_max_attempts cfg \<le> st_attempts s")
    case True
    with RetryableToolError assms have "settle l (did_step s) (storage_result (fail_step (cc_now t) (cc_lease t)
        (st_run_id s) (st_id s) (''retry budget exhausted: '' @ msg) (Some (le_owner_id l))
        (Some (le_fence_token l)) d)) = (ph, d')"
      by (simp add: handle_retryable_failure_def)
    from settle_storage [OF this [unfolded fail_step_def]] RetryableToolError show ?thesis
      by (auto intro: worker_write.intros)
  next
    case False
    show ?thesis
    proof (cases "rbind (retry_delay cfg s ra) (deadline (cc_engine t))")
      case (Inl e)
      with False RetryableToolError assms show ?thesis
        by (auto simp: handle_retryable_failure_def settle_def)
    next
      case (Inr nx)
      with False RetryableToolError assms have "settle l (did_step s) (storage_result (schedule_retry (cc_now t)
          (cc_lease t) (st_run_id s) (st_id s) msg nx (Some (le_owner_id l)) (Some (le_fence_token l)) thr d))
          = (ph, d')"
        by (simp add: handle_retryable_failure_def)
      from settle_storage [OF this [unfolded schedule_retry_def]] RetryableToolError show ?thesis
        by (auto intro: worker_write.intros)
    qed
  qed
next
  case (PermanentToolError msg)
  with assms have "settle l (did_step s) (storage_result (fail_step (cc_now t) (cc_lease t)
      (st_run_id s) (st_id s) msg (Some (le_owner_id l)) (Some (le_fence_token l)) d)) = (ph, d')"
    by simp
  from settle_storage [OF this [unfolded fail_step_def]] PermanentToolError show ?thesis
    by (auto intro: worker_write.intros)
next
  case BadAnswer
  with assms show ?thesis by auto
qed

end
