(* ===== verification/System.thy ===== *)
theory System
  imports Commits
begin

text \<open>
  The whole system: any number of worker processes, the API, the tool and the network, as an
  interleaving of their transactions. Nothing is assumed about clocks (every reading is
  arbitrary), schedules, settings, crashes or the network, which may delay, repeat and
  lose requests and answers; a successful answer, however, was given by the tool to that
  request. The invariant ties the workers' leases to the lease table, the requests to the
  recorded definitions, the ledger to the requests and the completed steps to the ledger.
\<close>

section \<open>States and steps\<close>

type_synonym request = "step_name \<times> string \<times> json"

record sys =
  sys_db :: db
  sys_ledger :: ledger
  sys_workers :: "nat \<Rightarrow> worker_phase"
  sys_requests :: "request set"
  sys_replies :: "(request \<times> tool_result) set"

definition sys_init :: sys where
  "sys_init = \<lparr>sys_db = empty_db, sys_ledger = empty_ledger, sys_workers = (\<lambda>_. Idle),
     sys_requests = {}, sys_replies = {}\<rparr>"

fun ready :: "worker_phase \<Rightarrow> bool" where
  "ready Idle \<longleftrightarrow> True"
| "ready (Finished _) \<longleftrightarrow> True"
| "ready _ \<longleftrightarrow> False"

definition advance :: "nat \<Rightarrow> worker_phase \<times> db \<Rightarrow> sys \<Rightarrow> sys" where
  "advance p x \<sigma> = \<sigma>\<lparr>sys_db := snd x, sys_workers := (sys_workers \<sigma>)(p := fst x)\<rparr>"

inductive sys_step :: "(json \<Rightarrow> string) \<Rightarrow> sys \<Rightarrow> sys \<Rightarrow> bool" for digest where
  step_create: "r \<notin> run_ids (sys_db \<sigma>) \<Longrightarrow> uuid_ok r \<Longrightarrow> accepted wd \<Longrightarrow>
    sys_step digest \<sigma> (\<sigma>\<lparr>sys_db := snd (create_workflow_run r now wd tool_key default_tool (sys_db \<sigma>))\<rparr>)"
| step_claim: "ready (sys_workers \<sigma> p) \<Longrightarrow>
    sys_step digest \<sigma> (advance p (claim_phase cfg worker now (sys_db \<sigma>)) \<sigma>)"
| step_attempt: "sys_workers \<sigma> p = Claimed c \<Longrightarrow>
    sys_step digest \<sigma> (advance p (attempt_phase cfg now checked c (sys_db \<sigma>)) \<sigma>)"
| step_send: "sys_workers \<sigma> p = Requesting s l \<Longrightarrow>
    sys_step digest \<sigma> (\<sigma>\<lparr>sys_requests := insert (tool_request s) (sys_requests \<sigma>)\<rparr>)"
| step_find: "(op, key, req) \<in> sys_requests \<sigma> \<Longrightarrow>
    find_result digest op key req (sys_ledger \<sigma>) = Inr (Some res) \<Longrightarrow>
    sys_step digest \<sigma> (\<sigma>\<lparr>sys_replies := insert ((op, key, req), res) (sys_replies \<sigma>)\<rparr>)"
| step_apply: "(op, key, req) \<in> sys_requests \<sigma> \<Longrightarrow>
    apply_tool digest uuid now op key req (sys_ledger \<sigma>) = (Inr (res, created), l') \<Longrightarrow>
    sys_step digest \<sigma> (\<sigma>\<lparr>sys_ledger := l', sys_replies := insert ((op, key, req), res) (sys_replies \<sigma>)\<rparr>)"
| step_respond: "sys_workers \<sigma> p = Requesting s l \<Longrightarrow>
    (\<And>res. g = ToolAnswer res \<Longrightarrow> (tool_request s, res) \<in> sys_replies \<sigma>) \<Longrightarrow>
    sys_step digest \<sigma> (advance p (Responded s l g, sys_db \<sigma>) \<sigma>)"
| step_commit: "sys_workers \<sigma> p = Responded s l g \<Longrightarrow>
    sys_step digest \<sigma> (advance p (commit_phase cfg t s l g (sys_db \<sigma>)) \<sigma>)"
| step_release: "sys_workers \<sigma> p = Releasing l res \<Longrightarrow>
    sys_step digest \<sigma> (advance p (release_phase now l res (sys_db \<sigma>)) \<sigma>)"
| step_heartbeat: "sys_step digest \<sigma> (\<sigma>\<lparr>sys_db := snd (heartbeat_round now l ttl (sys_db \<sigma>))\<rparr>)"
| step_crash: "sys_step digest \<sigma> (advance p (Idle, sys_db \<sigma>) \<sigma>)"

inductive reachable :: "(json \<Rightarrow> string) \<Rightarrow> sys \<Rightarrow> bool" for digest where
  reachable_init: "reachable digest sys_init"
| reachable_step: "reachable digest \<sigma> \<Longrightarrow> sys_step digest \<sigma> \<tau> \<Longrightarrow> reachable digest \<tau>"

lemma advance_simps [simp]:
  "sys_db (advance p x \<sigma>) = snd x" "sys_ledger (advance p x \<sigma>) = sys_ledger \<sigma>"
  "sys_workers (advance p x \<sigma>) = (sys_workers \<sigma>)(p := fst x)"
  "sys_requests (advance p x \<sigma>) = sys_requests \<sigma>" "sys_replies (advance p x \<sigma>) = sys_replies \<sigma>"
  by (simp_all add: advance_def)

section \<open>How runs evolve\<close>

lemma view_extends:
  assumes ok: "db_ok d" "db_ok d'" and log: "log_grows d d'" and v: "view d r = Some run"
  obtains run' where "view d' r = Some run'" and "extends run run'"
proof -
  from log obtain es where es: "run_events d' r = run_events d r @ es"
    by (auto simp: log_grows_def run_events_def)
  have red: "reduce_workflow_run_history (run_events d r) = Inr run" using db_ok_view(1) [OF ok(1) v] .
  have "run_events d' r \<noteq> []" using reduce_fold(1) [OF red] es by simp
  then obtain e where "e \<in> set (db_events d')" "ev_run_id e = r"
    by (auto simp: run_events_def filter_empty_conv)
  then have "r \<in> run_ids d'" using db_okD(4) [OF ok(2)] by blast
  with db_okD(1) [OF ok(2)] obtain run' where v': "view d' r = Some run'"
    and red': "reduce_workflow_run_history (run_events d' r) = Inr run'"
    by (auto simp: consistent_def)
  have "extends run run'"
    using reduced_continuation [OF red red' [unfolded es]] by simp
  with v' show thesis by (rule that)
qed

lemma extends_step:
  assumes "extends run run'" and "t \<in> set (wr_steps run)"
  shows "\<exists>t' \<in> set (wr_steps run'). immutable t' = immutable t"
proof -
  have "immutable t \<in> set (map immutable (wr_steps run'))" using assms by (auto simp: extends_def)
  then show ?thesis by auto
qed

lemma tool_request_immutable: "immutable t = immutable s \<Longrightarrow> tool_request t = tool_request s"
  by (simp add: immutable_def tool_request_def)

lemma run_is_running_frame:
  assumes "view d' r = view d r"
  shows "run_is_running d' r = run_is_running d r"
proof -
  have "run_is_running d r = (case view d r of None \<Rightarrow> False | Some run \<Rightarrow> wr_status run = RUNNING)" for d
    by (simp add: run_is_running_def view_alt workflow_run_from_rows_def split: option.splits)
  then show ?thesis using assms by simp
qed

lemma run_is_running_iff:
  "run_is_running d r \<longleftrightarrow> (\<exists>run. view d r = Some run \<and> wr_status run = RUNNING)"
  by (auto simp: run_is_running_def view_alt workflow_run_from_rows_def split: option.splits)

text \<open>Completed steps are either old or among \<open>new\<close>.\<close>

definition completes_only :: "(string \<Rightarrow> step_record \<Rightarrow> bool) \<Rightarrow> db \<Rightarrow> db \<Rightarrow> bool" where
  "completes_only new d d' \<longleftrightarrow> (\<forall>r run' t. view d' r = Some run' \<longrightarrow> t \<in> set (wr_steps run') \<longrightarrow>
     st_status t = STEP_COMPLETED \<longrightarrow>
     (\<exists>run. view d r = Some run \<and> t \<in> set (wr_steps run)) \<or> new r t)"

lemma completes_only_same: "(\<And>r. view d' r = view d r) \<Longrightarrow> completes_only new d d'"
  by (auto simp: completes_only_def)

section \<open>The invariant\<close>

definition fence_of :: "db \<Rightarrow> string \<Rightarrow> int option" where
  "fence_of d r = map_option le_fence_token (lease_of d r)"

text \<open>Every worker's token was handed out; a current one belongs to a running run; no two
  workers hold the same token of a run.\<close>

definition held :: "db \<Rightarrow> workflow_run_lease \<Rightarrow> bool" where
  "held d l \<longleftrightarrow> (\<exists>f. fence_of d (le_run_id l) = Some f \<and> le_fence_token l \<le> f \<and>
     (le_fence_token l = f \<longrightarrow> run_is_running d (le_run_id l)))"

definition leases_inv :: "db \<Rightarrow> (nat \<Rightarrow> worker_phase) \<Rightarrow> bool" where
  "leases_inv d W \<longleftrightarrow> (\<forall>p l. phase_lease (W p) = Some l \<longrightarrow> held d l) \<and>
     (\<forall>p q l m. p \<noteq> q \<longrightarrow> phase_lease (W p) = Some l \<longrightarrow> phase_lease (W q) = Some m \<longrightarrow>
        le_run_id l = le_run_id m \<longrightarrow> le_fence_token l \<noteq> le_fence_token m)"

text \<open>The steps the workers hold, and those they asked the tool for, are recorded ones.\<close>

definition known_step :: "db \<Rightarrow> step_record \<Rightarrow> bool" where
  "known_step d s \<longleftrightarrow> (\<exists>run. view d (st_run_id s) = Some run \<and>
     (\<exists>t \<in> set (wr_steps run). immutable t = immutable s))"

definition identity_inv :: "db \<Rightarrow> (nat \<Rightarrow> worker_phase) \<Rightarrow> request set \<Rightarrow> bool" where
  "identity_inv d W Q \<longleftrightarrow>
     (\<forall>p s. phase_step (W p) = Some s \<longrightarrow> known_step d s) \<and>
     (\<forall>p s l. phase_step (W p) = Some s \<longrightarrow> phase_lease (W p) = Some l \<longrightarrow> le_run_id l = st_run_id s) \<and>
     (\<forall>q \<in> Q. \<exists>s. known_step d s \<and> tool_request s = q)"

text \<open>The ledger holds effects of requests only; answers name them; completed steps carry
  an answer to their own request.\<close>

definition replies_ok :: "ledger \<Rightarrow> request set \<Rightarrow> (request \<times> tool_result) set \<Rightarrow> bool" where
  "replies_ok L Q A \<longleftrightarrow> (\<forall>(q, res) \<in> A. q \<in> Q \<and>
     (\<exists>x. cached L (fst (snd q)) = Some x \<and> tr_reference_id res = tr_reference_id (ir_response x)))"

definition effects_inv :: "(json \<Rightarrow> string) \<Rightarrow> ledger \<Rightarrow> request set \<Rightarrow> (request \<times> tool_result) set \<Rightarrow> bool" where
  "effects_inv digest L Q A \<longleftrightarrow> ledger_ok digest L \<and>
     (\<forall>e \<in> set (lg_effects L). (se_operation e, se_operation_key e, se_request e) \<in> Q) \<and> replies_ok L Q A"

definition answers_inv :: "db \<Rightarrow> (nat \<Rightarrow> worker_phase) \<Rightarrow> (request \<times> tool_result) set \<Rightarrow> bool" where
  "answers_inv d W A \<longleftrightarrow>
     (\<forall>p s l res. W p = Responded s l (ToolAnswer res) \<longrightarrow> (tool_request s, res) \<in> A) \<and>
     (\<forall>r run t. view d r = Some run \<longrightarrow> t \<in> set (wr_steps run) \<longrightarrow> st_status t = STEP_COMPLETED \<longrightarrow>
        (\<exists>res. st_output t = Some (result_payload res) \<and> (tool_request t, res) \<in> A))"

definition sys_ok :: "(json \<Rightarrow> string) \<Rightarrow> sys \<Rightarrow> bool" where
  "sys_ok digest \<sigma> \<longleftrightarrow> db_ok (sys_db \<sigma>) \<and> leases_inv (sys_db \<sigma>) (sys_workers \<sigma>) \<and>
     identity_inv (sys_db \<sigma>) (sys_workers \<sigma>) (sys_requests \<sigma>) \<and>
     effects_inv digest (sys_ledger \<sigma>) (sys_requests \<sigma>) (sys_replies \<sigma>) \<and>
     answers_inv (sys_db \<sigma>) (sys_workers \<sigma>) (sys_replies \<sigma>)"

lemma sys_ok_init: "sys_ok digest sys_init"
proof -
  have "view empty_db r = None" for r by (simp add: view_alt run_row_of_def empty_db_def)
  moreover have "lg_effects empty_ledger = []" by (simp add: empty_ledger_def)
  ultimately show ?thesis
    by (simp add: sys_ok_def sys_init_def db_ok_empty leases_inv_def identity_inv_def effects_inv_def
        answers_inv_def ledger_ok_empty replies_ok_def)
qed

lemma known_step_mono:
  assumes "known_step d s" and "db_ok d" and "db_ok d'" and "log_grows d d'"
  shows "known_step d' s"
proof -
  from assms(1) obtain run t where v: "view d (st_run_id s) = Some run"
    and t: "t \<in> set (wr_steps run)" "immutable t = immutable s" by (auto simp: known_step_def)
  from view_extends [OF assms(2-4) v] obtain run' where "view d' (st_run_id s) = Some run'" "extends run run'" .
  with extends_step [OF _ t(1)] t(2) show ?thesis by (auto simp: known_step_def)
qed

lemma known_step_unique:
  assumes "db_ok d" and "known_step d s" and "view d (st_run_id s) = Some run" and "t \<in> set (wr_steps run)"
    and "st_id t = st_id s"
  shows "immutable t = immutable s"
proof -
  obtain u where u: "u \<in> set (wr_steps run)" "immutable u = immutable s"
    using assms(2,3) by (auto simp: known_step_def)
  have "distinct (map st_id (wr_steps run))"
    using db_ok_view(2) [OF assms(1,3)] by (simp add: wf_run_def step_ids_def)
  moreover have "st_id u = st_id t" using u(2) assms(5) by (simp add: immutable_def)
  ultimately have "u = t" using distinct_id_eq u(1) assms(4) by metis
  with u(2) show ?thesis by simp
qed

section \<open>A worker step keeps the invariant\<close>

text \<open>Leases: the tokens in the table stay, the worker keeps or drops its own.\<close>

lemma leases_inv_step:
  assumes inv: "leases_inv d W" and fences: "\<And>r. fence_of d' r = fence_of d r"
    and keep: "phase_lease ph = None \<or> phase_lease ph = phase_lease (W p)"
    and running: "\<And>l q. phase_lease ((W(p := ph)) q) = Some l \<Longrightarrow> held d l \<Longrightarrow>
      fence_of d (le_run_id l) = Some (le_fence_token l) \<Longrightarrow> run_is_running d (le_run_id l) \<Longrightarrow>
      run_is_running d' (le_run_id l)"
  shows "leases_inv d' (W(p := ph))"
proof -
  have sub: "phase_lease (W q) = Some l" if "phase_lease ((W(p := ph)) q) = Some l" for q l
    using that keep by (auto split: if_splits)
  have "held d' l" if l: "phase_lease ((W(p := ph)) q) = Some l" for q l
  proof -
    have "held d l" using inv sub [OF l] unfolding leases_inv_def by blast
    then show ?thesis using running [OF l] fences unfolding held_def by auto
  qed
  moreover have "le_fence_token l \<noteq> le_fence_token m"
    if "q \<noteq> q'" "phase_lease ((W(p := ph)) q) = Some l" "phase_lease ((W(p := ph)) q') = Some m"
      "le_run_id l = le_run_id m" for q q' l m
    using inv that(1,4) sub [OF that(2)] sub [OF that(3)] unfolding leases_inv_def by blast
  ultimately show ?thesis unfolding leases_inv_def by blast
qed

lemma leases_inv_same:
  assumes "leases_inv d W" and "\<And>r. fence_of d' r = fence_of d r"
    and "\<And>r. r \<in> run_ids d \<Longrightarrow> run_is_running d r \<Longrightarrow> run_is_running d' r"
    and "le_run_id ` set (db_leases d) \<subseteq> run_ids d"
  shows "leases_inv d' W"
proof -
  have "leases_inv d' (W(undefined := W undefined))"
  proof (rule leases_inv_step [OF assms(1,2)])
    fix l q
    assume "fence_of d (le_run_id l) = Some (le_fence_token l)" and r: "run_is_running d (le_run_id l)"
    then obtain m where "lease_of d (le_run_id l) = Some m" by (auto simp: fence_of_def)
    then have "le_run_id l \<in> run_ids d" using lease_of_Some assms(4) by fastforce
    then show "run_is_running d' (le_run_id l)" using assms(3) r by blast
  qed simp
  then show ?thesis by simp
qed

text \<open>One lemma for every rule that moves one worker and commits to the database.\<close>

definition answered :: "(request \<times> tool_result) set \<Rightarrow> string \<Rightarrow> step_record \<Rightarrow> bool" where
  "answered A r t \<longleftrightarrow> (\<exists>res. st_output t = Some (result_payload res) \<and> (tool_request t, res) \<in> A)"

lemma sys_ok_advance:
  assumes ok: "sys_ok digest \<sigma>" and d': "db_ok d'" and log: "log_grows (sys_db \<sigma>) d'"
    and leases: "leases_inv d' ((sys_workers \<sigma>)(p := ph))"
    and step: "\<And>s. phase_step ph = Some s \<Longrightarrow>
      known_step d' s \<and> (\<forall>l. phase_lease ph = Some l \<longrightarrow> le_run_id l = st_run_id s)"
    and answer: "\<And>s l res. ph = Responded s l (ToolAnswer res) \<Longrightarrow> (tool_request s, res) \<in> sys_replies \<sigma>"
    and completes: "completes_only (answered (sys_replies \<sigma>)) (sys_db \<sigma>) d'"
  shows "sys_ok digest (advance p (ph, d') \<sigma>)"
proof -
  let ?d = "sys_db \<sigma>" and ?W = "sys_workers \<sigma>" and ?A = "sys_replies \<sigma>"
  have d: "db_ok ?d" and id: "identity_inv ?d ?W (sys_requests \<sigma>)" and ans: "answers_inv ?d ?W ?A"
    using ok by (simp_all add: sys_ok_def)
  have mono: "known_step d' s" if "known_step ?d s" for s using known_step_mono [OF that d d' log] .
  have "identity_inv d' (?W(p := ph)) (sys_requests \<sigma>)"
    unfolding identity_inv_def
  proof (intro conjI)
    show "\<forall>q s. phase_step ((?W(p := ph)) q) = Some s \<longrightarrow> known_step d' s"
      using id mono step by (simp add: identity_inv_def)
    show "\<forall>q s l. phase_step ((?W(p := ph)) q) = Some s \<longrightarrow> phase_lease ((?W(p := ph)) q) = Some l \<longrightarrow>
        le_run_id l = st_run_id s"
      using id step by (simp add: identity_inv_def)
    show "\<forall>q \<in> sys_requests \<sigma>. \<exists>s. known_step d' s \<and> tool_request s = q"
      using id mono unfolding identity_inv_def by blast
  qed
  moreover have "answers_inv d' (?W(p := ph)) ?A"
    unfolding answers_inv_def
  proof (intro conjI allI impI)
    fix q s l res assume "(?W(p := ph)) q = Responded s l (ToolAnswer res)"
    then show "(tool_request s, res) \<in> ?A"
      using answer ans by (auto simp: answers_inv_def split: if_splits)
  next
    fix r run' t
    assume "view d' r = Some run'" "t \<in> set (wr_steps run')" "st_status t = STEP_COMPLETED"
    with completes consider run where "view ?d r = Some run" "t \<in> set (wr_steps run)"
      | "answered ?A r t" unfolding completes_only_def by blast
    then show "\<exists>res. st_output t = Some (result_payload res) \<and> (tool_request t, res) \<in> ?A"
      using ans \<open>st_status t = STEP_COMPLETED\<close>
      by cases (auto simp: answers_inv_def answered_def)
  qed
  ultimately show ?thesis using ok d' leases by (simp add: sys_ok_def)
qed

lemma advance_same_db: "advance p (sys_workers \<sigma> p, d') \<sigma> = \<sigma>\<lparr>sys_db := d'\<rparr>"
  by (simp add: advance_def)

text \<open>Steps that change at most the lease table's deadlines.\<close>

lemma sys_ok_drop:
  assumes ok: "sys_ok digest \<sigma>" and d': "db_ok d'" and views: "\<And>r. view d' r = view (sys_db \<sigma>) r"
    and events: "db_events d' = db_events (sys_db \<sigma>)" and fences: "\<And>r. fence_of d' r = fence_of (sys_db \<sigma>) r"
    and ph: "phase_lease ph = None \<or> phase_lease ph = phase_lease (sys_workers \<sigma> p)"
      "phase_step ph = None \<or> phase_step ph = phase_step (sys_workers \<sigma> p)"
    and answer: "\<And>s l res. ph = Responded s l (ToolAnswer res) \<Longrightarrow> (tool_request s, res) \<in> sys_replies \<sigma>"
  shows "sys_ok digest (advance p (ph, d') \<sigma>)"
proof (rule sys_ok_advance [OF ok d'])
  have d: "db_ok (sys_db \<sigma>)" and id: "identity_inv (sys_db \<sigma>) (sys_workers \<sigma>) (sys_requests \<sigma>)"
    and leases: "leases_inv (sys_db \<sigma>) (sys_workers \<sigma>)"
    using ok by (simp_all add: sys_ok_def)
  show log: "log_grows (sys_db \<sigma>) d'" by (simp add: log_grows_def events)
  show "leases_inv d' ((sys_workers \<sigma>)(p := ph))"
    by (rule leases_inv_step [OF leases fences ph(1)]) (simp add: run_is_running_frame [OF views])
  show "known_step d' s \<and> (\<forall>l. phase_lease ph = Some l \<longrightarrow> le_run_id l = st_run_id s)"
    if "phase_step ph = Some s" for s
  proof -
    have "phase_step (sys_workers \<sigma> p) = Some s" using that ph(2) by auto
    with id ph(1) have "known_step (sys_db \<sigma>) s" "\<forall>l. phase_lease ph = Some l \<longrightarrow> le_run_id l = st_run_id s"
      unfolding identity_inv_def by auto
    then show ?thesis using known_step_mono [OF _ d d' log] by blast
  qed
  show "completes_only (answered (sys_replies \<sigma>)) (sys_db \<sigma>) d'" by (rule completes_only_same) (rule views)
qed (rule answer)

lemma fence_of_update_leases:
  assumes "\<And>l. le_run_id (f l) = le_run_id l" and "\<And>l. le_fence_token (f l) = le_fence_token l"
  shows "fence_of (d\<lparr>db_leases := update_where q f (db_leases d)\<rparr>) r = fence_of d r"
proof -
  have "map_option le_fence_token (find (\<lambda>l. le_run_id l = r) (update_where q f ls)) =
      map_option le_fence_token (find (\<lambda>l. le_run_id l = r) ls)" for ls
    using assms by (induction ls) auto
  then show ?thesis by (simp add: fence_of_def lease_of_def)
qed

lemma view_leases [simp]: "view (d\<lparr>db_leases := ls\<rparr>) r = view d r"
  by (rule view_cong) simp_all

lemma renew_changes:
  "view (snd (renew_lease now r owner fence ttl d)) r' = view d r'"
  "db_events (snd (renew_lease now r owner fence ttl d)) = db_events d"
  "fence_of (snd (renew_lease now r owner fence ttl d)) r' = fence_of d r'"
  by (simp_all add: renew_lease_def transaction_def Let_def fence_of_update_leases)

lemma release_changes:
  "view (snd (release_lease now r owner fence d)) r' = view d r'"
  "db_events (snd (release_lease now r owner fence d)) = db_events d"
  "fence_of (snd (release_lease now r owner fence d)) r' = fence_of d r'"
  by (simp_all add: release_lease_def transaction_def Let_def fence_of_update_leases)

lemma heartbeat_db: "snd (heartbeat_round now l ttl d) =
    snd (renew_lease now (le_run_id l) (le_owner_id l) (le_fence_token l) ttl d)"
  by (simp add: heartbeat_round_def split: prod.splits sum.splits)

section \<open>Each rule\<close>

lemma sys_okD:
  assumes "sys_ok digest \<sigma>"
  shows "db_ok (sys_db \<sigma>)" and "leases_inv (sys_db \<sigma>) (sys_workers \<sigma>)"
    and "identity_inv (sys_db \<sigma>) (sys_workers \<sigma>) (sys_requests \<sigma>)"
    and "effects_inv digest (sys_ledger \<sigma>) (sys_requests \<sigma>) (sys_replies \<sigma>)"
    and "answers_inv (sys_db \<sigma>) (sys_workers \<sigma>) (sys_replies \<sigma>)"
  using assms by (simp_all add: sys_ok_def)

lemma identity_invD:
  assumes "identity_inv d W Q"
  shows "phase_step (W p) = Some s \<Longrightarrow> known_step d s"
    and "phase_step (W p) = Some s \<Longrightarrow> phase_lease (W p) = Some l \<Longrightarrow> le_run_id l = st_run_id s"
    and "q \<in> Q \<Longrightarrow> \<exists>s. known_step d s \<and> tool_request s = q"
  using assms unfolding identity_inv_def by blast+

lemma leases_invD:
  assumes "leases_inv d W"
  shows "phase_lease (W p) = Some l \<Longrightarrow> held d l"
    and "p \<noteq> q \<Longrightarrow> phase_lease (W p) = Some l \<Longrightarrow> phase_lease (W q) = Some m \<Longrightarrow>
      le_run_id l = le_run_id m \<Longrightarrow> le_fence_token l \<noteq> le_fence_token m"
  using assms unfolding leases_inv_def by blast+

lemma sys_ok_create:
  assumes ok: "sys_ok digest \<sigma>" and fresh: "r \<notin> run_ids (sys_db \<sigma>)" "uuid_ok r" and wd: "accepted wd"
  shows "sys_ok digest (\<sigma>\<lparr>sys_db := snd (create_workflow_run r now wd tk dt (sys_db \<sigma>))\<rparr>)"
proof -
  let ?d = "sys_db \<sigma>"
  obtain d' where c: "create_workflow_run r now wd tk dt ?d = (Inr (created_run r now (selected_tool tk dt) wd), d')"
    and d': "db_ok d'" "view d' r = Some (created_run r now (selected_tool tk dt) wd)"
      "db_leases d' = db_leases ?d"
    and other: "\<And>r'. r' \<noteq> r \<Longrightarrow> view d' r' = view ?d r' \<and> run_events d' r' = run_events ?d r'"
    by (rule create_ok [OF sys_okD(1) [OF ok] fresh wd, of now tk dt]) blast
  have log: "log_grows ?d d'" using create_log [of ?d r now wd tk dt] c by simp
  have "sys_ok digest (advance 0 (sys_workers \<sigma> 0, d') \<sigma>)"
  proof (rule sys_ok_advance [OF ok d'(1) log])
    have "leases_inv d' (sys_workers \<sigma>)"
    proof (rule leases_inv_same [OF sys_okD(2) [OF ok]])
      show "fence_of d' r' = fence_of ?d r'" for r' by (simp add: fence_of_def lease_of_def d'(3))
      show "run_is_running d' r'" if "r' \<in> run_ids ?d" "run_is_running ?d r'" for r'
        using other [of r'] that fresh(1) run_is_running_frame [of d' r' ?d] by auto
      show "le_run_id ` set (db_leases ?d) \<subseteq> run_ids ?d" using db_okD(5) [OF sys_okD(1) [OF ok]] .
    qed
    then show "leases_inv d' ((sys_workers \<sigma>)(0 := sys_workers \<sigma> 0))" by simp
    show "known_step d' s \<and> (\<forall>l. phase_lease (sys_workers \<sigma> 0) = Some l \<longrightarrow> le_run_id l = st_run_id s)"
      if "phase_step (sys_workers \<sigma> 0) = Some s" for s
      using identity_invD(1,2) [OF sys_okD(3) [OF ok] that]
        known_step_mono [OF _ sys_okD(1) [OF ok] d'(1) log] by blast
    show "(tool_request s, res) \<in> sys_replies \<sigma>" if "sys_workers \<sigma> 0 = Responded s l (ToolAnswer res)" for s l res
      using sys_okD(5) [OF ok] that by (auto simp: answers_inv_def)
    show "completes_only (answered (sys_replies \<sigma>)) ?d d'"
      unfolding completes_only_def
    proof (intro allI impI)
      fix r' run' t
      assume t: "view d' r' = Some run'" "t \<in> set (wr_steps run')" "st_status t = STEP_COMPLETED"
      have "r' \<noteq> r" using t d'(2) by (auto simp: new_step_def)
      with other [of r'] t(1) have "view ?d r' = Some run'" by simp
      with t(2) show "(\<exists>run. view ?d r' = Some run \<and> t \<in> set (wr_steps run)) \<or>
          answered (sys_replies \<sigma>) r' t" by blast
    qed
  qed
  then show ?thesis by (simp add: advance_same_db c)
qed

lemma claim_phase_cases:
  assumes "claim_phase cfg worker now d = (ph, d')"
  obtains (idle) "d' = d" and "phase_lease ph = None" and "phase_step ph = None"
      and "\<And>s l g. ph \<noteq> Responded s l g"
  | (claimed) c ttl where "claim_runnable_step worker ttl now d = (Inr (Some c), d')" and "ph = Claimed c"
proof (cases "deadline now (es_lease_ttl cfg)")
  case (Inl e)
  with assms show thesis by (intro idle) (auto simp: claim_phase_def)
next
  case (Inr t)
  obtain a b where ab: "claim_runnable_step worker (t - now) now d = (a, b)" by fastforce
  show thesis
  proof (cases a)
    case (Inl e)
    with ab claim_never_raises [of worker "t - now" now d e] show thesis by simp
  next
    case (Inr oc)
    show thesis
    proof (cases oc)
      case None
      with ab Inr have "b = d" by (simp add: claim_None)
      with None Inr ab assms \<open>deadline now (es_lease_ttl cfg) = Inr t\<close> show thesis
        by (intro idle) (auto simp: claim_phase_def)
    next
      case (Some c)
      with Inr ab assms \<open>deadline now (es_lease_ttl cfg) = Inr t\<close> show thesis
        by (intro claimed [of "t - now" c]) (auto simp: claim_phase_def)
    qed
  qed
qed

lemma upsert_views [simp]:
  "view (upsert_lease l d) r = view d r" "db_events (upsert_lease l d) = db_events d"
  by (rule view_cong) simp_all

text \<open>The claimed lease has a token above all that are held.\<close>

lemma leases_inv_claim:
  assumes inv: "leases_inv d W" and l: "le_fence_token l = next_fence d (le_run_id l)"
    and running: "run_is_running d (le_run_id l)" and ph: "phase_lease ph = Some l"
  shows "leases_inv (upsert_lease l d) (W(p := ph))"
proof -
  let ?r = "le_run_id l" and ?d = "upsert_lease l d"
  have run_same: "run_is_running ?d r = run_is_running d r" for r by (rule run_is_running_frame) simp
  have fence: "fence_of ?d r = (if r = ?r then Some (next_fence d ?r) else fence_of d r)" for r
    by (simp add: fence_of_def lease_of_upsert l)
  have old: "f < next_fence d ?r" if "fence_of d ?r = Some f" for f
    using that by (auto simp: fence_of_def next_fence_def)
  have held_old: "held d m \<and> (le_run_id m = ?r \<longrightarrow> le_fence_token m < next_fence d ?r)"
    if "phase_lease (W q) = Some m" for q m
    using leases_invD(1) [OF inv that] old by (force simp: held_def)
  have "held ?d m" if m: "phase_lease ((W(p := ph)) q) = Some m" for q m
  proof (cases "q = p")
    case True
    with m ph have "m = l" by simp
    then show ?thesis using running by (simp add: held_def l fence run_same)
  next
    case False
    with m held_old [of q m] show ?thesis by (auto simp: held_def fence run_same)
  qed
  moreover have "le_fence_token m \<noteq> le_fence_token m'"
    if "q \<noteq> q'" "phase_lease ((W(p := ph)) q) = Some m" "phase_lease ((W(p := ph)) q') = Some m'"
      "le_run_id m = le_run_id m'" for q q' m m'
    using that held_old [of q m] held_old [of q' m'] l ph leases_invD(2) [OF inv that(1)] by (auto split: if_splits)
  ultimately show ?thesis unfolding leases_inv_def by blast
qed

lemma sys_ok_claim:
  assumes ok: "sys_ok digest \<sigma>" and ready: "ready (sys_workers \<sigma> p)"
  shows "sys_ok digest (advance p (claim_phase cfg worker now (sys_db \<sigma>)) \<sigma>)"
proof -
  let ?d = "sys_db \<sigma>" and ?W = "sys_workers \<sigma>"
  obtain ph d' where c: "claim_phase cfg worker now ?d = (ph, d')" by fastforce
  have none: "phase_lease (?W p) = None" "phase_step (?W p) = None" using ready by (cases "?W p"; simp)+
  from c have "sys_ok digest (advance p (ph, d') \<sigma>)"
  proof (cases rule: claim_phase_cases)
    case idle
    then show ?thesis using sys_okD(1) [OF ok] by (intro sys_ok_drop [OF ok]) auto
  next
    case (claimed c ttl)
    from claimed(1) obtain row where row: "select_runnable ?d now True = Some row"
      "cl_lease c = \<lparr>le_run_id = sr_run_id row, le_owner_id = worker,
          le_fence_token = next_fence ?d (sr_run_id row), le_expires_at = now + ttl, le_updated_at = now\<rparr>"
      "cl_step c = step_from_row row (dependencies ?d (sr_run_id row))" "d' = upsert_lease (cl_lease c) ?d"
      by (rule claim_Some)
    let ?r = "sr_run_id row" and ?l = "cl_lease c"
    note s = select_runnable_Some [OF row(1)]
    from view_of_row [OF sys_okD(1) [OF ok] s(1)] obtain run where v: "view ?d ?r = Some run"
      and mem: "cl_step c \<in> set (wr_steps run)" unfolding row(3) .
    have views: "view d' r = view ?d r" for r by (simp add: row(4))
    have l: "le_run_id ?l = ?r" "le_fence_token ?l = next_fence ?d ?r" by (simp_all add: row(2))
    have running: "run_is_running ?d ?r" using s(2) by (simp add: eligible_def run_is_running_def)
    have d': "db_ok d'"
      using claim_ok [OF sys_okD(1) [OF ok]] claimed(1)
      by (auto simp: claim_runnable_step_def transaction_Inr)
    show ?thesis
    proof (rule sys_ok_advance [OF ok d'])
      show "log_grows ?d d'" by (simp add: row(4) log_grows_def)
      show "leases_inv d' (?W(p := ph))"
        unfolding row(4) using l running claimed(2) by (intro leases_inv_claim [OF sys_okD(2) [OF ok]]) simp_all
      show "known_step d' s \<and> (\<forall>l. phase_lease ph = Some l \<longrightarrow> le_run_id l = st_run_id s)"
        if "phase_step ph = Some s" for s
        using that claimed(2) mem v by (auto simp: known_step_def views l row(3))
      show "completes_only (answered (sys_replies \<sigma>)) ?d d'" by (rule completes_only_same) (rule views)
    qed (use claimed(2) in simp)
  qed
  then show ?thesis by (simp add: c)
qed

text \<open>A write with a worker's token goes through only while the token is current.\<close>

lemma held_write:
  assumes d: "db_ok d" and held: "held d l"
    and w: "worker_write (le_run_id l) i (le_owner_id l) (le_fence_token l) out d d'"
  shows "fence_of d (le_run_id l) = Some (le_fence_token l)" and "run_is_running d (le_run_id l)"
proof -
  from worker_write_facts(1) [OF w] require_lease_current [OF _ db_okD(6) [OF d]]
  show f: "fence_of d (le_run_id l) = Some (le_fence_token l)" by (fastforce simp: fence_of_def)
  with held show "run_is_running d (le_run_id l)" by (simp add: held_def)
qed

text \<open>After the write the other workers of the run hold stale tokens, as before.\<close>

lemma leases_inv_write:
  assumes inv: "leases_inv d W" and lease: "phase_lease (W p) = Some l"
    and frame: "frame r d d'" and r: "le_run_id l = r" and cur: "fence_of d r = Some (le_fence_token l)"
    and ph: "phase_lease ph = None \<or> phase_lease ph = Some l \<and> run_is_running d' r"
  shows "leases_inv d' (W(p := ph))"
proof (rule leases_inv_step [OF inv])
  show "fence_of d' r = fence_of d r" for r
    using frame by (simp add: frame_def fence_of_def lease_of_def)
  show "phase_lease ph = None \<or> phase_lease ph = phase_lease (W p)" using ph lease by auto
  show "run_is_running d' (le_run_id m)"
    if m: "phase_lease ((W(p := ph)) q) = Some m" "fence_of d (le_run_id m) = Some (le_fence_token m)"
      "run_is_running d (le_run_id m)" for m q
  proof (cases "le_run_id m = r")
    case True
    show ?thesis
    proof (cases "q = p")
      case True
      with m(1) ph lease r show ?thesis by auto
    next
      case False
      with m(1) have "phase_lease (W q) = Some m" by simp
      with False have "le_fence_token m \<noteq> le_fence_token l"
        using leases_invD(2) [OF inv False _ lease] True r by simp
      with m(2) cur True show ?thesis by simp
    qed
  next
    case False
    with frame have "view d' (le_run_id m) = view d (le_run_id m)" by (simp add: frame_def)
    with m(3) show ?thesis by (simp add: run_is_running_iff)
  qed
qed

lemma completed_output:
  assumes "db_ok d" and "view d r = Some run" and "t \<in> set (wr_steps run)" and "st_status t = STEP_COMPLETED"
  shows "st_output t \<noteq> None" and "st_run_id t = r"
proof -
  have "fields_ok t" "identity_ok run t" using db_ok_view(2) [OF assms(1,2)] assms(3) by (auto simp: wf_run_def)
  then show "st_output t \<noteq> None" and "st_run_id t = r"
    using assms(4) view_run_id [OF assms(2)] by (auto simp: fields_ok_def identity_ok_def)
qed

text \<open>What a write within one run completes.\<close>

lemma completes_only_frame:
  assumes "frame r d d'" and "view d r = Some run" and "view d' r = Some run'"
    and "\<And>t. t \<in> new_completions run run' \<Longrightarrow> A r t"
  shows "completes_only A d d'"
  unfolding completes_only_def
proof (intro allI impI)
  fix q run'' t
  assume t: "view d' q = Some run''" "t \<in> set (wr_steps run'')" "st_status t = STEP_COMPLETED"
  show "(\<exists>run. view d q = Some run \<and> t \<in> set (wr_steps run)) \<or> A q t"
  proof (cases "q = r")
    case True
    with t assms(2-4) show ?thesis by (auto simp: new_completions_def)
  next
    case False
    with assms(1) t(1) have "view d q = Some run''" by (simp add: frame_def)
    with t(2) show ?thesis by blast
  qed
qed

lemma sys_ok_attempt:
  assumes ok: "sys_ok digest \<sigma>" and W: "sys_workers \<sigma> p = Claimed c"
  shows "sys_ok digest (advance p (attempt_phase cfg now checked c (sys_db \<sigma>)) \<sigma>)"
proof -
  let ?d = "sys_db \<sigma>" and ?W = "sys_workers \<sigma>" and ?l = "cl_lease c"
  obtain ph d' where a: "attempt_phase cfg now checked c ?d = (ph, d')" by fastforce
  have r: "le_run_id ?l = st_run_id (cl_step c)"
    using identity_invD(2) [OF sys_okD(3) [OF ok], of p] W by simp
  have held: "held ?d ?l" using leases_invD(1) [OF sys_okD(2) [OF ok], of p] W by simp
  from a have "sys_ok digest (advance p (ph, d') \<sigma>)"
  proof (cases rule: attempt_phase_cases)
    case refused
    then show ?thesis using sys_okD(1) [OF ok]
      by (intro sys_ok_drop [OF ok]) (auto dest: arg_cong [of _ _ phase_lease])
  next
    case (recorded s)
    let ?r = "st_run_id (cl_step c)" and ?i = "st_id (cl_step c)"
    have w: "worker_write (le_run_id ?l) ?i (le_owner_id ?l) (le_fence_token ?l) None ?d d'"
      unfolding r using recorded(1) by (rule write_attempt)
    note cur = held_write [OF sys_okD(1) [OF ok] held w]
    from cur(2) obtain run where v: "view ?d ?r = Some run" "wr_status run = RUNNING"
      unfolding r by (rule run_is_running_view)
    note op = record_attempt_ok [OF sys_okD(1) [OF ok] v recorded(1)]
    let ?run' = "run\<lparr>wr_steps := update_where (\<lambda>x. st_id x = ?i) (\<lambda>_. s) (wr_steps run)\<rparr>"
    have "run_is_running d' ?r"
      using op(4) v(2) by (simp add: run_is_running_iff)
    then have leases: "leases_inv d' (?W(p := ph))"
      using leases_inv_write [OF sys_okD(2) [OF ok], of p ?l ?r d' ph] op(5) cur(1) recorded(2) W r by auto
    obtain u where "u \<in> set (wr_steps run)" "st_id u = ?i"
      using worker_write_facts(2) [OF w] step_in_view [OF v(1)] get_step_row_Inr unfolding r
      by (metis step_from_row_simps(1))
    then have mem: "s \<in> set (wr_steps ?run')" by (auto simp: set_update_where)
    have "st_run_id s = ?r"
      using db_ok_view(2) [OF op(1,4)] mem view_run_id [OF v(1)] by (simp add: wf_run_def identity_ok_def)
    with mem op(4) have known: "known_step d' s" by (auto simp: known_step_def)
    show ?thesis
    proof (rule sys_ok_advance [OF ok op(1) worker_write_facts(3) [OF w] leases])
      show "known_step d' s' \<and> (\<forall>l. phase_lease ph = Some l \<longrightarrow> le_run_id l = st_run_id s')"
        if "phase_step ph = Some s'" for s'
        using that recorded(2) known r \<open>st_run_id s = ?r\<close> by auto
      have "new_completions run ?run' = {}" using new_completions_update [of ?run' ?i s run] op(3) by simp
      then show "completes_only (answered (sys_replies \<sigma>)) ?d d'"
        by (intro completes_only_frame [OF op(5) v(1) op(4)]) simp
    qed (use recorded(2) in auto)
  qed
  then show ?thesis by (simp add: a)
qed

lemma sys_ok_commit:
  assumes ok: "sys_ok digest \<sigma>" and W: "sys_workers \<sigma> p = Responded s l g"
  shows "sys_ok digest (advance p (commit_phase cfg t s l g (sys_db \<sigma>)) \<sigma>)"
proof -
  let ?d = "sys_db \<sigma>" and ?W = "sys_workers \<sigma>" and ?r = "st_run_id s"
  let ?out = "case g of ToolAnswer res \<Rightarrow> Some (result_payload res) | _ \<Rightarrow> None"
  obtain ph d' where c: "commit_phase cfg t s l g ?d = (ph, d')" by fastforce
  have r: "le_run_id l = ?r" using identity_invD(2) [OF sys_okD(3) [OF ok], of p] W by simp
  have held: "held ?d l" using leases_invD(1) [OF sys_okD(2) [OF ok], of p] W by simp
  have known: "known_step ?d s" using identity_invD(1) [OF sys_okD(3) [OF ok], of p] W by simp
  note cases = commit_phase_cases [OF c]
  have "sys_ok digest (advance p (ph, d') \<sigma>)"
  proof (cases "d' = ?d")
    case True
    show ?thesis
    proof (rule sys_ok_drop [OF ok])
      show "(tool_request s', res) \<in> sys_replies \<sigma>" if "ph = Responded s' l' (ToolAnswer res)" for s' l' res
        using cases that by simp
    qed (use True cases sys_okD(1) [OF ok] in simp_all)
  next
    case False
    with cases have w: "worker_write (le_run_id l) (st_id s) (le_owner_id l) (le_fence_token l) ?out ?d d'"
      by (simp add: r)
    note cur = held_write [OF sys_okD(1) [OF ok] held w]
    from worker_write_ok [OF w sys_okD(1) [OF ok] cur(2)] obtain run run' where
      op: "db_ok d'" "frame ?r ?d d'" "view ?d ?r = Some run" "view d' ?r = Some run'"
      and new: "\<forall>t \<in> new_completions run run'. st_output t = ?out \<and> st_id t = st_id s"
      unfolding r by blast
    note log = worker_write_facts(3) [OF w]
    have known': "known_step d' s" using known_step_mono [OF known sys_okD(1) [OF ok] op(1) log] .
    have leases: "leases_inv d' (?W(p := ph))"
      using leases_inv_write [OF sys_okD(2) [OF ok], of p l ?r d' ph] op(2) cur(1) cases W r by simp
    show ?thesis
    proof (rule sys_ok_advance [OF ok op(1) log leases])
      show "completes_only (answered (sys_replies \<sigma>)) ?d d'"
      proof (rule completes_only_frame [OF op(2-4)])
        fix u assume u: "u \<in> new_completions run run'"
        with new have out: "st_output u = ?out" "st_id u = st_id s" by auto
        from u have mem: "u \<in> set (wr_steps run')" "st_status u = STEP_COMPLETED" by (auto simp: new_completions_def)
        obtain res where res: "g = ToolAnswer res"
          using completed_output(1) [OF op(1,4) mem] out(1) by (auto split: gateway_outcome.splits)
        have "immutable u = immutable s"
          using known_step_unique [OF op(1) known' op(4)] mem(1) out(2) by simp
        then have "tool_request u = tool_request s" by (rule tool_request_immutable)
        moreover have "(tool_request s, res) \<in> sys_replies \<sigma>"
          using sys_okD(5) [OF ok] W res by (simp add: answers_inv_def)
        ultimately show "answered (sys_replies \<sigma>) ?r u" using out(1) res by (auto simp: answered_def)
      qed
    qed (use cases in auto)
  qed
  then show ?thesis by (simp add: c)
qed

text \<open>The tool's transactions.\<close>

lemma effects_inv_request:
  assumes "effects_inv digest L Q A" shows "effects_inv digest L (insert q Q) A"
  using assms by (auto simp: effects_inv_def replies_ok_def)

lemma effects_inv_reply:
  assumes "effects_inv digest L Q A" and "(op, key, req) \<in> Q"
    and "cached L key = Some x" and "tr_reference_id res = tr_reference_id (ir_response x)"
  shows "effects_inv digest L Q (insert ((op, key, req), res) A)"
  using assms by (auto simp: effects_inv_def replies_ok_def)

lemma effects_inv_apply:
  assumes inv: "effects_inv digest L Q A" and q: "(op, key, req) \<in> Q"
    and l': "l' = snd (apply_tool digest uuid now op key req L)"
  shows "effects_inv digest l' Q A"
proof -
  have "replies_ok l' Q A"
    unfolding replies_ok_def
  proof clarify
    fix op' key' req' res
    assume "((op', key', req'), res) \<in> A"
    with inv obtain x where "(op', key', req') \<in> Q" "cached L key' = Some x"
      "tr_reference_id res = tr_reference_id (ir_response x)"
      unfolding effects_inv_def replies_ok_def by fastforce
    with apply_tool_keeps [of L key' x digest uuid now op key req] l'
    show "(op', key', req') \<in> Q \<and> (\<exists>x. cached l' (fst (snd (op', key', req'))) = Some x \<and>
        tr_reference_id res = tr_reference_id (ir_response x))" by auto
  qed
  moreover have "\<forall>e \<in> set (lg_effects l'). (se_operation e, se_operation_key e, se_request e) \<in> Q"
    using inv q unfolding l' effects_inv_def
    by (cases rule: apply_tool_cases [of digest uuid now op key req L]) simp_all
  moreover have "ledger_ok digest l'"
    using inv apply_tool_ok unfolding l' effects_inv_def by blast
  ultimately show ?thesis by (simp add: effects_inv_def)
qed

lemma answers_inv_more: "answers_inv d W A \<Longrightarrow> answers_inv d W (insert a A)"
  unfolding answers_inv_def by blast

lemma sys_ok_send:
  assumes ok: "sys_ok digest \<sigma>" and W: "sys_workers \<sigma> p = Requesting s l"
  shows "sys_ok digest (\<sigma>\<lparr>sys_requests := insert (tool_request s) (sys_requests \<sigma>)\<rparr>)"
proof -
  have "known_step (sys_db \<sigma>) s" using identity_invD(1) [OF sys_okD(3) [OF ok], of p] W by simp
  then have "identity_inv (sys_db \<sigma>) (sys_workers \<sigma>) (insert (tool_request s) (sys_requests \<sigma>))"
    using sys_okD(3) [OF ok] unfolding identity_inv_def by blast
  then show ?thesis using ok effects_inv_request by (simp add: sys_ok_def)
qed

lemma sys_ok_find:
  assumes ok: "sys_ok digest \<sigma>" and q: "(op, key, req) \<in> sys_requests \<sigma>"
    and f: "find_result digest op key req (sys_ledger \<sigma>) = Inr (Some res)"
  shows "sys_ok digest (\<sigma>\<lparr>sys_replies := insert ((op, key, req), res) (sys_replies \<sigma>)\<rparr>)"
proof -
  from f obtain x where "cached (sys_ledger \<sigma>) key = Some x" "res = deduplicated (ir_response x)"
    by (auto simp: find_result_def split: option.splits if_splits)
  then have "effects_inv digest (sys_ledger \<sigma>) (sys_requests \<sigma>) (insert ((op, key, req), res) (sys_replies \<sigma>))"
    using effects_inv_reply [OF sys_okD(4) [OF ok] q] by (simp add: deduplicated_def)
  then show ?thesis using ok answers_inv_more by (simp add: sys_ok_def)
qed

lemma sys_ok_apply:
  assumes ok: "sys_ok digest \<sigma>" and q: "(op, key, req) \<in> sys_requests \<sigma>"
    and a: "apply_tool digest uuid now op key req (sys_ledger \<sigma>) = (Inr (res, created), l')"
  shows "sys_ok digest (\<sigma>\<lparr>sys_ledger := l', sys_replies := insert ((op, key, req), res) (sys_replies \<sigma>)\<rparr>)"
proof -
  have inv: "effects_inv digest l' (sys_requests \<sigma>) (sys_replies \<sigma>)"
    using effects_inv_apply [OF sys_okD(4) [OF ok] q, of l' uuid now] a by simp
  from apply_tool_answer [of digest uuid now op key req "sys_ledger \<sigma>" res created] a
  obtain x where "cached l' key = Some x" "tr_reference_id res = tr_reference_id (ir_response x)" by auto
  then have "effects_inv digest l' (sys_requests \<sigma>) (insert ((op, key, req), res) (sys_replies \<sigma>))"
    using effects_inv_reply [OF inv q] by simp
  then show ?thesis using ok answers_inv_more by (simp add: sys_ok_def)
qed

lemma sys_ok_step:
  assumes "sys_step digest \<sigma> \<tau>" and ok: "sys_ok digest \<sigma>"
  shows "sys_ok digest \<tau>"
  using assms(1)
proof cases
  case (step_create r wd now tool_key default_tool)
  then show ?thesis using sys_ok_create [OF ok] by simp
next
  case (step_claim p cfg worker now)
  then show ?thesis using sys_ok_claim [OF ok] by simp
next
  case (step_attempt p c cfg now checked)
  then show ?thesis using sys_ok_attempt [OF ok] by simp
next
  case (step_send p s l)
  then show ?thesis using sys_ok_send [OF ok] by simp
next
  case (step_find op key req res)
  then show ?thesis using sys_ok_find [OF ok] by simp
next
  case (step_apply op key req uuid now res created l')
  then show ?thesis using sys_ok_apply [OF ok] by simp
next
  case (step_respond p s l g)
  then show ?thesis
    by (auto intro!: sys_ok_drop [OF ok] sys_okD(1) [OF ok])
next
  case (step_commit p s l g cfg t)
  then show ?thesis using sys_ok_commit [OF ok] by simp
next
  case (step_release p l res now)
  then show ?thesis
    unfolding release_phase_def
    by (auto intro!: sys_ok_drop [OF ok release_lease_ok [OF sys_okD(1) [OF ok]]] simp: release_changes)
next
  case (step_heartbeat now l ttl)
  have "sys_ok digest (advance 0 (sys_workers \<sigma> 0, snd (heartbeat_round now l ttl (sys_db \<sigma>))) \<sigma>)"
    unfolding heartbeat_db
    using sys_okD(5) [OF ok]
    by (intro sys_ok_drop [OF ok renew_lease_ok [OF sys_okD(1) [OF ok]]])
      (simp_all add: renew_changes answers_inv_def)
  then show ?thesis by (simp add: step_heartbeat advance_same_db)
next
  case (step_crash p)
  then show ?thesis by (auto intro!: sys_ok_drop [OF ok] sys_okD(1) [OF ok])
qed

lemma reachable_ok: "reachable digest \<sigma> \<Longrightarrow> sys_ok digest \<sigma>"
  by (induction rule: reachable.induct) (auto intro: sys_ok_init sys_ok_step)

end
