(* ===== verification/Guarantees.thy ===== *)
theory Guarantees
  imports System
begin

text \<open>
  What the whole system guarantees in every reachable state: the projection is the reduced
  history, a stale worker changes nothing, every effect was authorised by a logged intent,
  the tool never refuses an engine request for a conflicting key, and a completed step has
  exactly one effect in the ledger, the one its output names.
\<close>

section \<open>Keys identify steps\<close>

lemma view_uuid: "db_ok d \<Longrightarrow> view d r = Some run \<Longrightarrow> uuid_ok r"
  using db_okD(8) view_in_run_ids by blast

lemma known_step_key:
  assumes "db_ok d" and "known_step d s"
  shows "st_operation_key s = st_run_id s @ '':'' @ st_id s" and "uuid_ok (st_run_id s)"
proof -
  from assms(2) obtain run t where v: "view d (st_run_id s) = Some run"
    and t: "t \<in> set (wr_steps run)" "immutable t = immutable s" by (auto simp: known_step_def)
  have "identity_ok run t" using db_ok_view(2) [OF assms(1) v] t(1) by (simp add: wf_run_def)
  then have "st_operation_key t = wr_run_id run @ '':'' @ st_id t" by (simp add: identity_ok_def)
  moreover have "st_operation_key t = st_operation_key s" "st_id t = st_id s"
    using t(2) by (simp_all add: immutable_def)
  ultimately show "st_operation_key s = st_run_id s @ '':'' @ st_id s"
    using view_run_id [OF v] by simp
  show "uuid_ok (st_run_id s)" using view_uuid [OF assms(1) v] .
qed

lemma known_step_in_view:
  assumes "db_ok d" and "view d r = Some run" and "t \<in> set (wr_steps run)"
  shows "known_step d t" and "st_run_id t = r"
proof -
  show "st_run_id t = r"
    using db_ok_view(2) [OF assms(1,2)] assms(3) view_run_id [OF assms(2)]
    by (simp add: wf_run_def identity_ok_def)
  with assms(2,3) show "known_step d t" by (auto simp: known_step_def)
qed

text \<open>Two recorded steps with the same operation key are the same step.\<close>

lemma same_key_same_step:
  assumes ok: "db_ok d" and "known_step d s" and "known_step d t" and "st_operation_key s = st_operation_key t"
  shows "immutable s = immutable t"
proof -
  have "st_run_id s = st_run_id t \<and> st_id s = st_id t"
    using append_colon_eq [of "st_run_id s" "st_id s" "st_run_id t" "st_id t"] assms(4)
      known_step_key [OF ok assms(2)] known_step_key [OF ok assms(3)] uuid_ok_no_colon by simp
  moreover obtain run u where "view d (st_run_id t) = Some run" "u \<in> set (wr_steps run)"
    "immutable u = immutable t" using assms(3) by (auto simp: known_step_def)
  ultimately show ?thesis
    using known_step_unique [OF ok assms(2), of run u] by (simp add: immutable_def)
qed

lemma same_key_same_request:
  assumes "sys_ok digest \<sigma>" and "(op, key, req) \<in> sys_requests \<sigma>" and "(op', key, req') \<in> sys_requests \<sigma>"
  shows "op' = op \<and> req' = req"
proof -
  have d: "db_ok (sys_db \<sigma>)" and id: "identity_inv (sys_db \<sigma>) (sys_workers \<sigma>) (sys_requests \<sigma>)"
    using sys_okD [OF assms(1)] by simp_all
  obtain s t where s: "known_step (sys_db \<sigma>) s" "tool_request s = (op, key, req)"
    and t: "known_step (sys_db \<sigma>) t" "tool_request t = (op', key, req')"
    using identity_invD(3) [OF id assms(2)] identity_invD(3) [OF id assms(3)] by blast
  then have "immutable s = immutable t"
    by (intro same_key_same_step [OF d]) (simp_all add: tool_request_def)
  with s(2) t(2) tool_request_immutable [of s t] show ?thesis by simp
qed

section \<open>Projection, fencing and intents\<close>

text \<open>In every reachable state of the system, whatever crashed and however the workers
  interleaved, the projection of every run is its reduced event history.\<close>

theorem reachable_projection_matches:
  assumes "reachable digest \<sigma>" and "r \<in> run_ids (sys_db \<sigma>)"
  shows "projection_matches_history r (sys_db \<sigma>) = Inr True"
  using reachable_ok [OF assms(1)] assms(2) by (intro consistent_projection_matches db_okD(1) sys_okD(1))

text \<open>C4: when two workers hold leases of the same run, at most one of them can write: if
  committing its outcome changes the database for one, the other's commit leaves it
  exactly as it is, whatever the clocks read and whatever its outcome was.\<close>

theorem one_writer_per_run:
  assumes "reachable digest \<sigma>" and "p \<noteq> q"
    and "sys_workers \<sigma> p = Responded s l g" and "sys_workers \<sigma> q = Responded s' l' g'"
    and "st_run_id s = st_run_id s'"
    and "snd (commit_phase cfg t s l g (sys_db \<sigma>)) \<noteq> sys_db \<sigma>"
  shows "snd (commit_phase cfg' t' s' l' g' (sys_db \<sigma>)) = sys_db \<sigma>"
proof (rule ccontr)
  let ?d = "sys_db \<sigma>"
  note ok = reachable_ok [OF assms(1)]
  have run: "le_run_id l = st_run_id s" "le_run_id l' = st_run_id s'"
    using identity_invD(2) [OF sys_okD(3) [OF ok], of p] identity_invD(2) [OF sys_okD(3) [OF ok], of q]
      assms(3,4) by simp_all
  have cur: "fence_of ?d (le_run_id m) = Some (le_fence_token m)"
    if c: "snd (commit_phase cfg t u m h ?d) \<noteq> ?d" and "le_run_id m = st_run_id u" and "held ?d m"
    for cfg t u m h
  proof -
    obtain ph d' where "commit_phase cfg t u m h ?d = (ph, d')" by fastforce
    with commit_phase_cases [OF this] c that(2) held_write(1) [OF sys_okD(1) [OF ok] that(3)]
    show ?thesis by auto
  qed
  have held: "held ?d l" "held ?d l'"
    using leases_invD(1) [OF sys_okD(2) [OF ok], of p] leases_invD(1) [OF sys_okD(2) [OF ok], of q]
      assms(3,4) by simp_all
  assume "snd (commit_phase cfg' t' s' l' g' ?d) \<noteq> ?d"
  then have "le_fence_token l = le_fence_token l'"
    using cur [OF assms(6) run(1) held(1)] cur [OF _ run(2) held(2)] run assms(5) by auto
  moreover have "le_fence_token l \<noteq> le_fence_token l'"
    using leases_invD(2) [OF sys_okD(2) [OF ok] assms(2), of l l'] assms(3-5) run by simp
  ultimately show False by simp
qed

definition intent_logged :: "db \<Rightarrow> request \<Rightarrow> bool" where
  "intent_logged d q \<longleftrightarrow> (\<exists>e \<in> set (db_events d). \<exists>worker fence.
     ev_payload e = StepAttemptStartedPayload (fst q) (snd (snd q)) (fst (snd q)) worker fence)"

definition intents_inv :: "db \<Rightarrow> (nat \<Rightarrow> worker_phase) \<Rightarrow> request set \<Rightarrow> bool" where
  "intents_inv d W Q \<longleftrightarrow> (\<forall>p s l. W p = Requesting s l \<longrightarrow> intent_logged d (tool_request s)) \<and>
     (\<forall>q \<in> Q. intent_logged d q)"

lemma intent_logged_mono: "intent_logged d q \<Longrightarrow> log_grows d d' \<Longrightarrow> intent_logged d' q"
  unfolding intent_logged_def log_grows_def by (metis UnCI set_append)

lemma commit_phase_log: "log_grows d (snd (commit_phase cfg t s l g d))"
proof -
  obtain ph d' where c: "commit_phase cfg t s l g d = (ph, d')" by fastforce
  with commit_phase_cases [OF c] worker_write_facts(3) show ?thesis by auto
qed

lemma attempt_phase_log: "log_grows d (snd (attempt_phase cfg now checked c d))"
proof -
  obtain ph d' where a: "attempt_phase cfg now checked c d = (ph, d')" by fastforce
  then show ?thesis
    by (cases rule: attempt_phase_cases) (use a attempt_log in auto)
qed

lemma claim_phase_log: "log_grows d (snd (claim_phase cfg worker now d))"
proof -
  obtain ph d' where a: "claim_phase cfg worker now d = (ph, d')" by fastforce
  then show ?thesis
  proof (cases rule: claim_phase_cases)
    case (claimed c ttl)
    with a show ?thesis by (auto elim!: claim_Some simp: log_grows_def)
  qed (use a in simp)
qed

lemma sys_step_log: "sys_step digest \<sigma> \<tau> \<Longrightarrow> log_grows (sys_db \<sigma>) (sys_db \<tau>)"
proof (induction rule: sys_step.induct)
  case (step_release \<sigma> p l res now)
  show ?case by (simp add: release_phase_def log_grows_def release_changes)
next
  case (step_heartbeat \<sigma> now l ttl)
  show ?case by (simp add: heartbeat_db log_grows_def renew_changes)
qed (simp_all add: create_log commit_phase_log attempt_phase_log claim_phase_log)

lemma attempt_intent:
  assumes "record_attempt_body now checked r i owner fence d = Inr (s, d')"
    and "view d r \<noteq> None" and "db_ok d"
  shows "intent_logged d' (tool_request s)"
proof (rule record_attempt_body_Inr [OF assms(1)])
  fix row d1
  assume app: "append_event r STEP_ATTEMPT_STARTED
      (StepAttemptStartedPayload (sr_operation row) (sr_request row) (sr_operation_key row) owner fence)
      now (Some i) (Some (sr_attempts row + 1)) (if owner \<noteq> None then 2 else 1) d = Inr d1"
    and d': "d' = update_step r i (\<lambda>s. s\<lparr>sr_status := STEP_INTENT_RECORDED,
      sr_attempts := sr_attempts row + 1, sr_next_attempt_at := None, sr_last_error := None,
      sr_updated_at := now\<rparr>) d1"
    and s: "view d r \<noteq> None \<Longrightarrow> db_ok d \<Longrightarrow>
      s = start_attempt now (sr_attempts row + 1) (step_from_row row (dependencies d r))"
  from app obtain e where "d1 = d\<lparr>db_events := db_events d @ [e]\<rparr>" and
    "ev_payload e = StepAttemptStartedPayload (sr_operation row) (sr_request row) (sr_operation_key row) owner fence"
    by (rule append_event_Inr)
  moreover have "tool_request s = (sr_operation row, sr_operation_key row, sr_request row)"
    using s assms(2,3) by (simp add: tool_request_def start_attempt_def step_from_row_def)
  ultimately show ?thesis by (auto simp: intent_logged_def d' update_step_def)
qed

lemma intents_inv_move:
  assumes inv: "intents_inv d W Q" and log: "log_grows d d'"
    and ph: "\<And>s l. ph = Requesting s l \<Longrightarrow> intent_logged d' (tool_request s)"
  shows "intents_inv d' (W(p := ph)) Q"
proof -
  have "intent_logged d' q" if "intent_logged d q" for q using intent_logged_mono [OF that log] .
  with inv ph show ?thesis unfolding intents_inv_def by (metis fun_upd_apply)
qed

lemma intents_inv_db:
  assumes "intents_inv d W Q" and "log_grows d d'" shows "intents_inv d' W Q"
  using assms intent_logged_mono unfolding intents_inv_def by blast

lemma intents_inv_advance:
  assumes "intents_inv (sys_db \<sigma>) (sys_workers \<sigma>) (sys_requests \<sigma>)"
    and "log_grows (sys_db \<sigma>) (snd x)" and "\<And>s l. fst x \<noteq> Requesting s l"
  shows "intents_inv (sys_db (advance p x \<sigma>)) (sys_workers (advance p x \<sigma>)) (sys_requests (advance p x \<sigma>))"
  using intents_inv_move [OF assms(1,2), of "fst x" p] assms(3) by simp

lemma phases_not_requesting:
  "fst (claim_phase cfg worker now d) \<noteq> Requesting s l"
  "fst (commit_phase cfg t u m g d) \<noteq> Requesting s l"
proof -
  obtain ph d' where c: "claim_phase cfg worker now d = (ph, d')" by fastforce
  then show "fst (claim_phase cfg worker now d) \<noteq> Requesting s l"
    by (cases rule: claim_phase_cases) (use c in auto)
  obtain ph d' where "commit_phase cfg t u m g d = (ph, d')" by fastforce
  from commit_phase_cases [OF this] this show "fst (commit_phase cfg t u m g d) \<noteq> Requesting s l" by auto
qed

lemma intents_step:
  assumes step: "sys_step digest \<sigma> \<tau>" and ok: "sys_ok digest \<sigma>"
    and inv: "intents_inv (sys_db \<sigma>) (sys_workers \<sigma>) (sys_requests \<sigma>)"
  shows "intents_inv (sys_db \<tau>) (sys_workers \<tau>) (sys_requests \<tau>)"
  using step
proof cases
  case (step_attempt p c cfg now checked)
  let ?r = "st_run_id (cl_step c)"
  obtain ph d' where a: "attempt_phase cfg now checked c (sys_db \<sigma>) = (ph, d')" by fastforce
  have known: "known_step (sys_db \<sigma>) (cl_step c)"
    using identity_invD(1) [OF sys_okD(3) [OF ok], of p] step_attempt(2) by simp
  have "intent_logged d' (tool_request s)" if "ph = Requesting s l" for s l
    using a
  proof (cases rule: attempt_phase_cases)
    case (recorded s')
    moreover from recorded(2) that have "s' = s" by simp
    ultimately show ?thesis
      using attempt_intent [OF recorded(1)] known sys_okD(1) [OF ok] by (auto simp: known_step_def)
  qed (use that in simp)
  with intents_inv_move [OF inv, of d' ph p] attempt_phase_log [of "sys_db \<sigma>" cfg now checked c] a
  show ?thesis by (simp add: step_attempt(1))
next
  case (step_send p s l)
  with inv show ?thesis unfolding intents_inv_def by auto
next
  case (step_create r wd now tool_key default_tool)
  then show ?thesis using intents_inv_db [OF inv create_log] by simp
next
  case (step_heartbeat now l ttl)
  then show ?thesis using intents_inv_db [OF inv, of "sys_db \<tau>"] sys_step_log [OF step] by simp
next
  case (step_claim p cfg worker now)
  show ?thesis
    unfolding step_claim by (intro intents_inv_advance [OF inv] claim_phase_log phases_not_requesting)
next
  case (step_commit p s l g cfg t)
  show ?thesis
    unfolding step_commit by (intro intents_inv_advance [OF inv] commit_phase_log phases_not_requesting)
next
  case (step_release p l res now)
  have "log_grows (sys_db \<sigma>) (snd (release_phase now l res (sys_db \<sigma>)))"
    using sys_step_log [OF step] by (simp add: step_release(1))
  then show ?thesis
    unfolding step_release by (intro intents_inv_advance [OF inv]) (simp_all add: release_phase_def)
next
  case (step_respond p s l g)
  then show ?thesis using intents_inv_advance [OF inv, of "(Responded s l g, sys_db \<sigma>)" p] by simp
next
  case (step_crash p)
  then show ?thesis using intents_inv_advance [OF inv, of "(Idle, sys_db \<sigma>)" p] by simp
qed (use inv in simp_all)

lemma reachable_intents:
  "reachable digest \<sigma> \<Longrightarrow> intents_inv (sys_db \<sigma>) (sys_workers \<sigma>) (sys_requests \<sigma>)"
proof (induction rule: reachable.induct)
  case reachable_init
  show ?case by (simp add: intents_inv_def sys_init_def)
next
  case (reachable_step \<sigma> \<tau>)
  then show ?case using intents_step reachable_ok by blast
qed

text \<open>C6: write-ahead intent. Every effect in the tool's ledger was authorised beforehand: the
  event log holds an attempt event with that operation, request and idempotency key.\<close>

theorem effects_have_intents:
  assumes "reachable digest \<sigma>" and "e \<in> set (lg_effects (sys_ledger \<sigma>))"
  shows "\<exists>ev \<in> set (db_events (sys_db \<sigma>)). \<exists>worker fence. ev_payload ev =
    StepAttemptStartedPayload (se_operation e) (se_request e) (se_operation_key e) worker fence"
proof -
  have "(se_operation e, se_operation_key e, se_request e) \<in> sys_requests \<sigma>"
    using sys_okD(4) [OF reachable_ok [OF assms(1)]] assms(2) by (simp add: effects_inv_def)
  then have "intent_logged (sys_db \<sigma>) (se_operation e, se_operation_key e, se_request e)"
    using reachable_intents [OF assms(1)] unfolding intents_inv_def by blast
  then show ?thesis by (simp add: intent_logged_def)
qed

section \<open>One effect per step\<close>

text \<open>A cached key holds the digest of the one request that the engine sends under it.\<close>

lemma cached_request:
  assumes ok: "sys_ok digest \<sigma>" and q: "(op, key, req) \<in> sys_requests \<sigma>"
    and x: "cached (sys_ledger \<sigma>) key = Some x"
  obtains e where "filter (\<lambda>e. se_operation_key e = key) (lg_effects (sys_ledger \<sigma>)) = [e]"
    and "entry_ok digest x e" and "se_operation e = op" and "se_request e = req"
proof -
  have L: "ledger_ok digest (sys_ledger \<sigma>)"
    and eff: "\<forall>e \<in> set (lg_effects (sys_ledger \<sigma>)). (se_operation e, se_operation_key e, se_request e) \<in> sys_requests \<sigma>"
    using sys_okD(4) [OF ok] by (simp_all add: effects_inv_def)
  from cached_effect [OF L x] obtain e where
    e: "filter (\<lambda>e. se_operation_key e = key) (lg_effects (sys_ledger \<sigma>)) = [e]" "entry_ok digest x e" .
  then have "e \<in> set (filter (\<lambda>e. se_operation_key e = key) (lg_effects (sys_ledger \<sigma>)))" by simp
  then have "(se_operation e, key, se_request e) \<in> sys_requests \<sigma>" using eff by auto
  with same_key_same_request [OF ok q] e that show thesis by blast
qed

text \<open>C8: the tool never refuses a request of the engine as a conflicting reuse of its key, so
  no step fails because of its own retries or of another step's key.\<close>

theorem requests_never_conflict:
  assumes "reachable digest \<sigma>" and "(op, key, req) \<in> sys_requests \<sigma>"
  shows "fst (apply_tool digest uuid now op key req (sys_ledger \<sigma>)) \<noteq> Inl (IdempotencyConflictError k) \<and>
    find_result digest op key req (sys_ledger \<sigma>) \<noteq> Inl (IdempotencyConflictError k)"
proof
  have no: "\<not> conflicts digest op req x" if x: "cached (sys_ledger \<sigma>) key = Some x" for x
    using cached_request [OF reachable_ok [OF assms(1)] assms(2) x]
    by (auto simp: conflicts_def entry_ok_def)
  show "fst (apply_tool digest uuid now op key req (sys_ledger \<sigma>)) \<noteq> Inl (IdempotencyConflictError k)"
    using no by (cases "cached (sys_ledger \<sigma>) key")
      (auto simp: apply_tool_def apply_body_def insert_effect_def insert_result_def Let_def split: if_splits)
  show "find_result digest op key req (sys_ledger \<sigma>) \<noteq> Inl (IdempotencyConflictError k)"
    using no by (simp add: find_result_def split: option.split)
qed

lemma step_request_effects:
  assumes ok: "sys_ok digest \<sigma>" and t: "known_step (sys_db \<sigma>) t"
    and e: "e \<in> set (lg_effects (sys_ledger \<sigma>))" "se_operation_key e = st_operation_key t"
  shows "se_operation e = st_operation t" and "se_request e = st_request t"
proof -
  have "(se_operation e, se_operation_key e, se_request e) \<in> sys_requests \<sigma>"
    using sys_okD(4) [OF ok] e(1) by (simp add: effects_inv_def)
  from identity_invD(3) [OF sys_okD(3) [OF ok] this] obtain s where
    s: "known_step (sys_db \<sigma>) s" "tool_request s = (se_operation e, se_operation_key e, se_request e)" by blast
  then have "immutable s = immutable t"
    by (intro same_key_same_step [OF sys_okD(1) [OF ok]] t) (simp_all add: tool_request_def e(2))
  from tool_request_immutable [OF this] s(2)
  show "se_operation e = st_operation t" and "se_request e = st_request t"
    by (simp_all add: tool_request_def)
qed

lemma completed_effect:
  assumes ok: "sys_ok digest \<sigma>" and v: "view (sys_db \<sigma>) r = Some run" and t: "t \<in> set (wr_steps run)"
    and c: "st_status t = STEP_COMPLETED"
  shows "\<exists>e res. filter (\<lambda>e. se_operation_key e = st_operation_key t) (lg_effects (sys_ledger \<sigma>)) = [e] \<and>
    st_output t = Some (result_payload res) \<and> tr_reference_id res = se_id e"
proof -
  from sys_okD(5) [OF ok] v t c obtain res where res: "st_output t = Some (result_payload res)"
    "(tool_request t, res) \<in> sys_replies \<sigma>" unfolding answers_inv_def by blast
  have L: "ledger_ok digest (sys_ledger \<sigma>)" and R: "replies_ok (sys_ledger \<sigma>) (sys_requests \<sigma>) (sys_replies \<sigma>)"
    using sys_okD(4) [OF ok] by (simp_all add: effects_inv_def)
  from R res(2) obtain x where x: "cached (sys_ledger \<sigma>) (st_operation_key t) = Some x"
    "tr_reference_id res = tr_reference_id (ir_response x)"
    unfolding replies_ok_def tool_request_def by fastforce
  from cached_effect [OF L x(1)] obtain e where
    "filter (\<lambda>e. se_operation_key e = st_operation_key t) (lg_effects (sys_ledger \<sigma>)) = [e]" "entry_ok digest x e" .
  with res(1) x(2) show ?thesis by (auto simp: entry_ok_def)
qed

text \<open>C1: exactly one effect. In every reachable state a recorded step has at most one effect
  in the tool's ledger, for its own operation and request, and a completed step has exactly
  one, which its recorded output names.\<close>

theorem one_effect_per_step:
  assumes "reachable digest \<sigma>" and "view (sys_db \<sigma>) r = Some run" and "t \<in> set (wr_steps run)"
    and "es = filter (\<lambda>e. se_operation_key e = st_operation_key t) (lg_effects (sys_ledger \<sigma>))"
  shows "length es \<le> 1 \<and> (\<forall>e \<in> set es. se_operation e = st_operation t \<and> se_request e = st_request t) \<and>
    (st_status t = STEP_COMPLETED \<longrightarrow>
      (\<exists>e res. es = [e] \<and> st_output t = Some (result_payload res) \<and> tr_reference_id res = se_id e))"
proof (intro conjI)
  note ok = reachable_ok [OF assms(1)]
  have L: "ledger_ok digest (sys_ledger \<sigma>)" using sys_okD(4) [OF ok] by (simp add: effects_inv_def)
  show "length es \<le> 1"
  proof (cases "cached (sys_ledger \<sigma>) (st_operation_key t)")
    case None
    then show ?thesis by (simp add: assms(4) uncached_effect [OF L])
  next
    case (Some x)
    then show ?thesis
      by (rule cached_effect [OF L]) (simp add: assms(4))
  qed
  show "\<forall>e \<in> set es. se_operation e = st_operation t \<and> se_request e = st_request t"
    using step_request_effects [OF ok known_step_in_view(1) [OF sys_okD(1) [OF ok] assms(2,3)]]
    by (auto simp: assms(4))
  show "st_status t = STEP_COMPLETED \<longrightarrow>
      (\<exists>e res. es = [e] \<and> st_output t = Some (result_payload res) \<and> tr_reference_id res = se_id e)"
    using completed_effect [OF ok assms(2,3)] by (simp add: assms(4))
qed

section \<open>The ledger summary of a run\<close>

lemma hex_char:
  assumes "c \<in> set ''0123456789abcdef-''"
  shows "fold_case c = c" and "c \<noteq> CHR ''%''" and "c \<noteq> CHR ''_''" and "c \<noteq> CHR '':''"
  using assms by (auto simp: fold_case_def less_eq_char_def)

lemma fold_case_colon [simp]: "fold_case CHR '':'' = CHR '':''"
  by (simp add: fold_case_def less_eq_char_def)

lemma sql_like_all [simp]: "sql_like ''%'' t"
  by (induction t) simp_all

text \<open>The pattern of a run matches exactly the keys of its own steps.\<close>

lemma sql_like_key:
  assumes "list_all (\<lambda>c. c \<in> set ''0123456789abcdef-'') r" and "list_all (\<lambda>c. c \<in> set ''0123456789abcdef-'') r'"
  shows "sql_like (r @ '':%'') (r' @ CHR '':'' # i) \<longleftrightarrow> r = r'"
  using assms
proof (induction r r' rule: list_induct2')
  case 1
  show ?case by simp
next
  case (2 c cs)
  then have "c \<in> set ''0123456789abcdef-''" by simp
  note c = hex_char [OF this]
  show ?case using c by (simp del: set_simps list.set)
next
  case (3 c cs)
  then have "c \<in> set ''0123456789abcdef-''" by simp
  note c = hex_char [OF this]
  show ?case using c by (simp del: set_simps list.set)
next
  case (4 c cs c' cs')
  then have "c \<in> set ''0123456789abcdef-''" "c' \<in> set ''0123456789abcdef-''" by simp_all
  note c = hex_char [OF this(1)] hex_char [OF this(2)]
  show ?case using c 4 by simp
qed

lemma effect_of_run:
  assumes ok: "sys_ok digest \<sigma>" and v: "view (sys_db \<sigma>) r = Some run"
    and e: "e \<in> set (lg_effects (sys_ledger \<sigma>))"
  shows "sql_like (r @ '':%'') (se_operation_key e) \<longleftrightarrow>
    (\<exists>t \<in> set (wr_steps run). st_operation_key t = se_operation_key e \<and> st_operation t = se_operation e)"
proof -
  note d = sys_okD(1) [OF ok]
  have "(se_operation e, se_operation_key e, se_request e) \<in> sys_requests \<sigma>"
    using sys_okD(4) [OF ok] e by (simp add: effects_inv_def)
  from identity_invD(3) [OF sys_okD(3) [OF ok] this] obtain s where s: "known_step (sys_db \<sigma>) s"
    "tool_request s = (se_operation e, se_operation_key e, se_request e)" by blast
  note key = known_step_key [OF d s(1)]
  have like: "sql_like (r @ '':%'') (se_operation_key e) \<longleftrightarrow> r = st_run_id s"
    using sql_like_key [of r "st_run_id s" "st_id s"] key(1,2) view_uuid [OF d v] s(2)
    by (simp add: tool_request_def uuid_ok_def)
  show ?thesis
    unfolding like
  proof
    assume "r = st_run_id s"
    with s(1) v obtain t where "t \<in> set (wr_steps run)" "immutable t = immutable s"
      by (auto simp: known_step_def)
    with tool_request_immutable [of t s] s(2)
    show "\<exists>t \<in> set (wr_steps run). st_operation_key t = se_operation_key e \<and> st_operation t = se_operation e"
      by (auto simp: tool_request_def)
  next
    assume "\<exists>t \<in> set (wr_steps run). st_operation_key t = se_operation_key e \<and> st_operation t = se_operation e"
    then obtain t where t: "t \<in> set (wr_steps run)" "st_operation_key t = se_operation_key e" by blast
    note known = known_step_in_view [OF d v t(1)]
    have "immutable s = immutable t"
      by (rule same_key_same_step [OF d s(1) known(1)]) (use s(2) t(2) in \<open>simp add: tool_request_def\<close>)
    then show "r = st_run_id s" using known(2) by (simp add: immutable_def)
  qed
qed

lemma run_keys_distinct:
  assumes "db_ok d" and "view d r = Some run"
  shows "distinct (map st_operation_key (filter P (wr_steps run)))"
proof -
  have "distinct (step_ids run)" and "\<And>t. t \<in> set (wr_steps run) \<Longrightarrow> st_operation_key t = wr_run_id run @ '':'' @ st_id t"
    using db_ok_view(2) [OF assms] by (simp_all add: wf_run_def identity_ok_def)
  then show ?thesis
    by (auto simp: step_ids_def distinct_map intro!: inj_onI dest: inj_onD)
qed

lemma same_set_length: "set xs = set ys \<Longrightarrow> distinct xs \<Longrightarrow> distinct ys \<Longrightarrow> length xs = length ys"
  using distinct_card [of xs] distinct_card [of ys] by simp

lemma count_completed:
  assumes ok: "sys_ok digest \<sigma>" and v: "view (sys_db \<sigma>) r = Some run" and c: "wr_status run = COMPLETED"
  shows "count_effects (Some r) op (sys_ledger \<sigma>) = length (filter (\<lambda>t. st_operation t = op) (wr_steps run))"
proof -
  let ?d = "sys_db \<sigma>" and ?L = "lg_effects (sys_ledger \<sigma>)"
  let ?es = "filter (\<lambda>e. se_operation e = op \<and> sql_like (r @ '':%'') (se_operation_key e)) ?L"
  let ?ts = "filter (\<lambda>t. st_operation t = op) (wr_steps run)"
  have all_done: "st_status t = STEP_COMPLETED" if "t \<in> set (wr_steps run)" for t
    using db_ok_view(2) [OF sys_okD(1) [OF ok] v] c that by (simp add: wf_run_def)
  have 1: "st_operation_key t \<in> se_operation_key ` set ?es" if t: "t \<in> set ?ts" for t
  proof -
    from t have mem: "t \<in> set (wr_steps run)" by simp
    from completed_effect [OF ok v mem all_done [OF mem]] obtain e where
      "filter (\<lambda>e. se_operation_key e = st_operation_key t) ?L = [e]" by blast
    then have "e \<in> set (filter (\<lambda>e. se_operation_key e = st_operation_key t) ?L)" by simp
    then have e: "e \<in> set ?L" "se_operation_key e = st_operation_key t" by simp_all
    have "se_operation e = st_operation t"
      by (rule step_request_effects [OF ok known_step_in_view(1) [OF sys_okD(1) [OF ok] v mem] e])
    with e t mem effect_of_run [OF ok v e(1)] have "e \<in> set ?es" by auto
    then have "se_operation_key e \<in> se_operation_key ` set ?es" by (rule imageI)
    with e(2) show ?thesis by simp
  qed
  have 2: "se_operation_key e \<in> st_operation_key ` set ?ts" if "e \<in> set ?es" for e
  proof -
    from that effect_of_run [OF ok v, of e] obtain t where "t \<in> set ?ts" "st_operation_key t = se_operation_key e"
      by auto
    then show ?thesis by (metis imageI)
  qed
  have "set (map se_operation_key ?es) = set (map st_operation_key ?ts)"
    unfolding set_map by (intro subset_antisym image_subsetI 1 2)
  moreover have "distinct (map se_operation_key ?es)"
    using sys_okD(4) [OF ok] by (simp add: effects_inv_def ledger_ok_def distinct_map_filter)
  moreover have "distinct (map st_operation_key ?ts)" by (rule run_keys_distinct [OF sys_okD(1) [OF ok] v])
  ultimately have "length (map se_operation_key ?es) = length (map st_operation_key ?ts)"
    by (rule same_set_length)
  then show ?thesis by (simp add: count_effects_def)
qed

text \<open>C7: the ledger summary of a completed run counts exactly its steps: as many charges,
  provisions and notifications as the run has steps of each kind, whatever crashed,
  was retried or was delivered twice on the way.\<close>

theorem completed_run_summary:
  assumes "reachable digest \<sigma>" and "view (sys_db \<sigma>) r = Some run" and "wr_status run = COMPLETED"
  shows "summary (Some r) (sys_ledger \<sigma>) =
    \<lparr>lg_charges = length (filter (\<lambda>t. st_operation t = CHARGE) (wr_steps run)),
     lg_provisions = length (filter (\<lambda>t. st_operation t = PROVISION) (wr_steps run)),
     lg_notifications = length (filter (\<lambda>t. st_operation t = NOTIFY) (wr_steps run))\<rparr>"
  using count_completed [OF reachable_ok [OF assms(1)] assms(2,3)] by (simp add: summary_def)

end
