(* ===== verification/Attempts.thy ===== *)
theory Attempts
  imports Guarantees
begin

text \<open>
  The fence tokens in the event log. A claim hands out a token above every token an attempt
  of the run was recorded with, the holder of a claim records at most one attempt with it,
  and no other operation writes one: the tokens of a run's attempts strictly increase, in
  every reachable state. The second part follows a run from its creation to its completion.
\<close>

section \<open>Tokens of recorded attempts\<close>

fun payload_fence :: "payload \<Rightarrow> int option list" where
  "payload_fence (StepAttemptStartedPayload _ _ _ _ f) = [f]"
| "payload_fence _ = []"

definition attempt_fences :: "db \<Rightarrow> string \<Rightarrow> int option list" where
  "attempt_fences d r = concat (map (\<lambda>e. payload_fence (ev_payload e)) (run_events d r))"

lemma fences_append_event:
  assumes "append_event r et p now step attempt version d = Inr d'"
  shows "attempt_fences d' r' = attempt_fences d r' @ (if r' = r then payload_fence p else [])"
  by (rule append_event_Inr [OF assms]) (simp add: attempt_fences_def run_events_append)

lemma fences_same_events: "db_events d' = db_events d \<Longrightarrow> attempt_fences d' r = attempt_fences d r"
  by (simp add: attempt_fences_def run_events_def)

lemma fences_simps [simp]:
  "attempt_fences (update_step r i f d) r' = attempt_fences d r'"
  "attempt_fences (update_run r g d) r' = attempt_fences d r'"
  "attempt_fences (upsert_throttle k until reason now d) r' = attempt_fences d r'"
  "attempt_fences (upsert_lease l d) r' = attempt_fences d r'"
  "attempt_fences (d\<lparr>db_leases := ls\<rparr>) r' = attempt_fences d r'"
  by (rule fences_same_events; simp)+

lemma fences_attempt:
  assumes "record_attempt_body now checked r i owner f d = Inr (s, d')"
  shows "attempt_fences d' r' = attempt_fences d r' @ (if r' = r then [f] else [])"
  using assms by (auto elim!: record_attempt_body_Inr simp: fences_append_event)

lemma fences_retry:
  "schedule_retry_body now checked r i msg nx owner fence thr d = Inr (u, d') \<Longrightarrow>
    attempt_fences d' r' = attempt_fences d r'"
  by (auto elim!: schedule_retry_body_Inr simp: fences_append_event Let_def)

lemma fences_fail:
  "fail_step_body now checked r i msg owner fence d = Inr (u, d') \<Longrightarrow>
    attempt_fences d' r' = attempt_fences d r'"
  by (auto elim!: fail_step_body_Inr simp: fences_append_event)

lemma fences_complete:
  "complete_step_body now checked r i out owner fence d = Inr (u, d') \<Longrightarrow>
    attempt_fences d' r' = attempt_fences d r'"
  by (erule complete_step_body_Inr) (auto simp: fences_append_event)

lemma fences_transaction:
  assumes "\<And>u d'. body d = Inr (u, d') \<Longrightarrow> attempt_fences d' r = attempt_fences d r"
  shows "attempt_fences (snd (transaction body d)) r = attempt_fences d r"
  using assms by (auto simp: transaction_def split: sum.splits)

lemma fences_operations [simp]:
  "attempt_fences (snd (schedule_retry now checked r i msg nx owner fence thr d)) r' = attempt_fences d r'"
  "attempt_fences (snd (fail_step now checked r i msg owner fence d)) r' = attempt_fences d r'"
  "attempt_fences (snd (complete_step now checked r i out owner fence d)) r' = attempt_fences d r'"
  unfolding schedule_retry_def fail_step_def complete_step_def
  by (rule fences_transaction, erule fences_retry fences_fail fences_complete)+

lemma snd_settle [simp]: "snd (settle l out x) = snd x"
  by (simp add: settle_def split: prod.splits sum.splits)

lemma snd_storage_result [simp]: "snd (storage_result x) = snd x"
  by (simp add: storage_result_def split: prod.splits sum.splits)

lemma snd_commit_answer: "snd (commit_answer cfg t s l res d) =
    (if crash_requested (es_crash_at cfg) s AFTER_RESPONSE then d
     else snd (complete_step (cc_now t) (cc_lease t) (st_run_id s) (st_id s) (result_payload res)
       (Some (le_owner_id l)) (Some (le_fence_token l)) d))"
  by (simp add: commit_answer_def split: prod.splits sum.splits)

text \<open>An outcome never records an attempt, nor does a new run.\<close>

lemma fences_commit [simp]: "attempt_fences (snd (commit_phase cfg t s l g d)) r = attempt_fences d r"
proof (cases g)
  case (ToolAnswer res)
  then show ?thesis
    by (simp add: snd_commit_answer)
next
  case (RetryableToolError msg ra thr)
  then show ?thesis
    by (cases "rbind (retry_delay cfg s ra) (deadline (cc_engine t))")
      (simp_all add: handle_retryable_failure_def)
next
  case (PermanentToolError msg)
  then show ?thesis by simp
qed simp

lemma fences_create [simp]:
  "attempt_fences (snd (create_workflow_run r now wd tk dt d)) r' = attempt_fences d r'"
proof -
  have "attempt_fences d' r' = attempt_fences d r'"
    if "create_workflow_run_body r now tool wd d = Inr ((), d')" for tool d'
  proof -
    from that obtain w steps deps d1 d2 d3 where
      *: "insert_run w d = Inr d1" "insert_all insert_step steps d1 = Inr d2"
        "insert_all insert_dependency deps d2 = Inr d3"
      and app: "append_event r WORKFLOW_RUN_CREATED (WorkflowRunCreatedPayload (wd_name wd)
        (materialize r tool wd)) now None None 3 d3 = Inr d'"
      by (auto simp: create_workflow_run_body_def rbind_Inr_iff Let_def)
    have "db_events d3 = db_events d"
      using insert_events(1) [OF *(1)] insert_all_events(1) [OF *(2)] insert_all_events(2) [OF *(3)] by simp
    from fences_same_events [OF this] fences_append_event [OF app] show ?thesis by simp
  qed
  then show ?thesis
    by (auto simp: create_workflow_run_def transaction_def split: sum.splits)
qed

section \<open>The invariant\<close>

text \<open>
  The tokens of a run increase and none is above the token in the lease table; a worker
  that holds the current token and has not attempted yet finds no attempt with it.
\<close>

definition increasing :: "int option list \<Rightarrow> bool" where
  "increasing fs \<longleftrightarrow> None \<notin> set fs \<and> sorted_wrt (<) (map the fs)"

lemma increasing_snoc: "increasing (fs @ [Some f]) \<longleftrightarrow> increasing fs \<and> (\<forall>g \<in> set fs. the g < f)"
  by (auto simp: increasing_def sorted_wrt_append)

definition fences_inv :: "db \<Rightarrow> (nat \<Rightarrow> worker_phase) \<Rightarrow> bool" where
  "fences_inv d W \<longleftrightarrow>
     (\<forall>r. increasing (attempt_fences d r) \<and>
        (\<forall>f \<in> set (attempt_fences d r). \<exists>g. fence_of d r = Some g \<and> the f \<le> g)) \<and>
     (\<forall>p c. W p = Claimed c \<longrightarrow> fence_of d (le_run_id (cl_lease c)) = Some (le_fence_token (cl_lease c)) \<longrightarrow>
        Some (le_fence_token (cl_lease c)) \<notin> set (attempt_fences d (le_run_id (cl_lease c))))"

lemma fences_inv_same:
  assumes "fences_inv d W" and "\<And>r. attempt_fences d' r = attempt_fences d r"
    and "\<And>r. fence_of d' r = fence_of d r" and "\<And>c. ph = Claimed c \<Longrightarrow> W p = Claimed c"
  shows "fences_inv d' (W(p := ph))"
  using assms unfolding fences_inv_def by (metis fun_upd_apply)

lemma fences_inv_db:
  assumes "fences_inv d W" and "\<And>r. attempt_fences d' r = attempt_fences d r"
    and "\<And>r. fence_of d' r = fence_of d r"
  shows "fences_inv d' W"
  using fences_inv_same [OF assms, of "W 0" 0] by simp

lemma fences_inv_claim:
  assumes inv: "fences_inv d W" and leases: "leases_inv d W"
    and run: "le_run_id (cl_lease c) = r" and token: "le_fence_token (cl_lease c) = next_fence d r"
  shows "fences_inv (upsert_lease (cl_lease c) d) (W(p := Claimed c))"
proof -
  let ?d = "upsert_lease (cl_lease c) d" and ?n = "next_fence d r"
  have fence: "fence_of ?d r' = (if r' = r then Some ?n else fence_of d r')" for r'
    by (simp add: fence_of_def lease_of_upsert run token)
  have old: "f < ?n" if "fence_of d r = Some f" for f
    using that by (auto simp: fence_of_def next_fence_def)
  have below: "the f < ?n" if "f \<in> set (attempt_fences d r)" for f
    using inv that old unfolding fences_inv_def by (meson le_less_trans)
  have others: "le_fence_token (cl_lease c') \<noteq> ?n" if "W q = Claimed c'" "le_run_id (cl_lease c') = r" for q c'
    using leases_invD(1) [OF leases, of q "cl_lease c'"] that old by (auto simp: held_def)
  show ?thesis
    unfolding fences_inv_def
  proof (intro conjI allI impI)
    show "increasing (attempt_fences ?d r')" for r'
      using inv by (simp add: fences_inv_def)
    show "\<forall>f \<in> set (attempt_fences ?d r'). \<exists>g. fence_of ?d r' = Some g \<and> the f \<le> g" for r'
      using inv below by (auto simp: fences_inv_def fence intro: less_imp_le)
    show "Some (le_fence_token (cl_lease c')) \<notin> set (attempt_fences ?d (le_run_id (cl_lease c')))"
      if c': "(W(p := Claimed c)) q = Claimed c'"
        "fence_of ?d (le_run_id (cl_lease c')) = Some (le_fence_token (cl_lease c'))" for q c'
    proof (cases "q = p")
      case True
      with c'(1) run token below [of "Some ?n"] show ?thesis by auto
    next
      case False
      with c'(1) have q: "W q = Claimed c'" by simp
      with others [OF q] c'(2) have ne: "le_run_id (cl_lease c') \<noteq> r" by (auto simp: fence)
      then have "fence_of d (le_run_id (cl_lease c')) = Some (le_fence_token (cl_lease c'))"
        using c'(2) by (simp add: fence)
      with q inv show ?thesis unfolding fences_inv_def by simp
    qed
  qed
qed

lemma fences_inv_attempt:
  assumes inv: "fences_inv d W" and leases: "leases_inv d W" and W: "W p = Claimed c"
    and run: "le_run_id (cl_lease c) = r" and cur: "fence_of d r = Some (le_fence_token (cl_lease c))"
    and log: "\<And>r'. attempt_fences d' r' = attempt_fences d r' @ (if r' = r then [Some (le_fence_token (cl_lease c))] else [])"
    and fences: "\<And>r'. fence_of d' r' = fence_of d r'" and ph: "\<And>c'. ph \<noteq> Claimed c'"
  shows "fences_inv d' (W(p := ph))"
proof -
  let ?f = "le_fence_token (cl_lease c)"
  have new: "Some ?f \<notin> set (attempt_fences d r)" using inv W run cur unfolding fences_inv_def by blast
  have below: "the f < ?f" if "f \<in> set (attempt_fences d r)" for f
  proof -
    have "the f \<le> ?f" using inv that cur unfolding fences_inv_def by fastforce
    moreover have "f = Some (the f)" using inv that unfolding fences_inv_def increasing_def
      by (metis option.exhaust_sel)
    ultimately show ?thesis using new that by (metis order_less_le)
  qed
  have others: "le_fence_token (cl_lease c') \<noteq> ?f"
    if "q \<noteq> p" "W q = Claimed c'" "le_run_id (cl_lease c') = r" for q c'
    using leases_invD(2) [OF leases that(1), of "cl_lease c'" "cl_lease c"] that W run by simp
  show ?thesis
    unfolding fences_inv_def
  proof (intro conjI allI impI)
    show "increasing (attempt_fences d' r')" for r'
      using inv below by (simp add: fences_inv_def log increasing_snoc)
    show "\<forall>f \<in> set (attempt_fences d' r'). \<exists>g. fence_of d' r' = Some g \<and> the f \<le> g" for r'
      using inv cur by (auto simp: fences_inv_def log fences)
    show "Some (le_fence_token (cl_lease c')) \<notin> set (attempt_fences d' (le_run_id (cl_lease c')))"
      if "(W(p := ph)) q = Claimed c'"
        "fence_of d' (le_run_id (cl_lease c')) = Some (le_fence_token (cl_lease c'))" for q c'
    proof -
      have q: "q \<noteq> p" "W q = Claimed c'" using that(1) ph by (auto split: if_splits)
      have "Some (le_fence_token (cl_lease c')) \<notin> set (attempt_fences d (le_run_id (cl_lease c')))"
        using inv q(2) that(2) unfolding fences_inv_def fences by blast
      with others [OF q] show ?thesis by (auto simp: log)
    qed
  qed
qed

lemma fences_inv_create:
  assumes ok: "sys_ok digest \<sigma>" and inv: "fences_inv (sys_db \<sigma>) (sys_workers \<sigma>)"
    and new: "r \<notin> run_ids (sys_db \<sigma>)" "uuid_ok r" "accepted wd"
  shows "fences_inv (snd (create_workflow_run r now wd tk dt (sys_db \<sigma>))) (sys_workers \<sigma>)"
proof -
  obtain d' where "create_workflow_run r now wd tk dt (sys_db \<sigma>) = (Inr (created_run r now (selected_tool tk dt) wd), d')"
    and "db_leases d' = db_leases (sys_db \<sigma>)"
    by (rule create_ok [OF sys_okD(1) [OF ok] new, of now tk dt]) blast
  then have "fence_of (snd (create_workflow_run r now wd tk dt (sys_db \<sigma>))) r' = fence_of (sys_db \<sigma>) r'" for r'
    by (simp add: fence_of_def lease_of_def)
  then show ?thesis by (intro fences_inv_db [OF inv]) simp_all
qed

lemma fences_inv_claimed:
  assumes ok: "sys_ok digest \<sigma>" and inv: "fences_inv (sys_db \<sigma>) (sys_workers \<sigma>)"
    and c: "claim_phase cfg worker now (sys_db \<sigma>) = (ph, d')"
  shows "fences_inv d' ((sys_workers \<sigma>)(p := ph))"
  using c
proof (cases rule: claim_phase_cases)
  case idle
  then show ?thesis by (intro fences_inv_same [OF inv]) auto
next
  case (claimed c ttl)
  from claimed(1) obtain row :: step_row where
    "cl_lease c = \<lparr>le_run_id = sr_run_id row, le_owner_id = worker,
        le_fence_token = next_fence (sys_db \<sigma>) (sr_run_id row), le_expires_at = now + ttl, le_updated_at = now\<rparr>"
    "d' = upsert_lease (cl_lease c) (sys_db \<sigma>)"
    by (rule claim_Some) blast
  with fences_inv_claim [OF inv sys_okD(2) [OF ok], of c "sr_run_id row" p] claimed(2)
  show ?thesis by simp
qed

lemma fences_inv_attempted:
  assumes ok: "sys_ok digest \<sigma>" and inv: "fences_inv (sys_db \<sigma>) (sys_workers \<sigma>)"
    and W: "sys_workers \<sigma> p = Claimed c" and a: "attempt_phase cfg now checked c (sys_db \<sigma>) = (ph, d')"
  shows "fences_inv d' ((sys_workers \<sigma>)(p := ph))"
  using a
proof (cases rule: attempt_phase_cases)
  case refused
  then show ?thesis by (intro fences_inv_same [OF inv]) auto
next
  case (recorded s)
  have r: "le_run_id (cl_lease c) = st_run_id (cl_step c)"
    using identity_invD(2) [OF sys_okD(3) [OF ok], of p] W by simp
  have w: "worker_write (le_run_id (cl_lease c)) (st_id (cl_step c)) (le_owner_id (cl_lease c))
      (le_fence_token (cl_lease c)) None (sys_db \<sigma>) d'"
    unfolding r using recorded(1) by (rule write_attempt)
  have held: "held (sys_db \<sigma>) (cl_lease c)"
    using leases_invD(1) [OF sys_okD(2) [OF ok], of p] W by simp
  show ?thesis
  proof (rule fences_inv_attempt [OF inv sys_okD(2) [OF ok] W refl])
    show "fence_of d' r' = fence_of (sys_db \<sigma>) r'" for r'
      using worker_write_facts(4) [OF w] by (simp add: fence_of_def lease_of_def)
  qed (use held_write(1) [OF sys_okD(1) [OF ok] held w] fences_attempt [OF recorded(1)] recorded(2) r in auto)
qed

lemma fences_inv_step:
  assumes step: "sys_step digest \<sigma> \<tau>" and ok: "sys_ok digest \<sigma>"
    and inv: "fences_inv (sys_db \<sigma>) (sys_workers \<sigma>)"
  shows "fences_inv (sys_db \<tau>) (sys_workers \<tau>)"
  using step
proof cases
  case (step_create r wd now tool_key default_tool)
  then show ?thesis using fences_inv_create [OF ok inv] by simp
next
  case (step_claim p cfg worker now)
  obtain ph d' where "claim_phase cfg worker now (sys_db \<sigma>) = (ph, d')" by fastforce
  with fences_inv_claimed [OF ok inv this] step_claim show ?thesis by simp
next
  case (step_attempt p c cfg now checked)
  obtain ph d' where "attempt_phase cfg now checked c (sys_db \<sigma>) = (ph, d')" by fastforce
  with fences_inv_attempted [OF ok inv step_attempt(2) this] step_attempt show ?thesis by simp
next
  case (step_commit p s l g cfg t)
  obtain ph d' where c: "commit_phase cfg t s l g (sys_db \<sigma>) = (ph, d')" by fastforce
  note cases = commit_phase_cases [OF c]
  have "fence_of d' r = fence_of (sys_db \<sigma>) r" for r
    using cases worker_write_facts(4) by (auto simp: fence_of_def lease_of_def)
  moreover have "attempt_fences d' r = attempt_fences (sys_db \<sigma>) r" for r
    using fences_commit [of cfg t s l g "sys_db \<sigma>" r] by (simp add: c)
  ultimately have "fences_inv d' ((sys_workers \<sigma>)(p := ph))"
    using cases by (intro fences_inv_same [OF inv]) auto
  then show ?thesis by (simp add: step_commit c)
next
  case (step_release p l res now)
  have "fences_inv (snd (release_lease now (le_run_id l) (le_owner_id l) (le_fence_token l) (sys_db \<sigma>)))
      ((sys_workers \<sigma>)(p := Finished res))"
    by (intro fences_inv_same [OF inv] fences_same_events) (simp_all add: release_changes)
  then show ?thesis by (simp add: step_release release_phase_def)
next
  case (step_heartbeat now l ttl)
  have "fences_inv (snd (heartbeat_round now l ttl (sys_db \<sigma>))) (sys_workers \<sigma>)"
    unfolding heartbeat_db by (intro fences_inv_db [OF inv] fences_same_events) (simp_all add: renew_changes)
  then show ?thesis by (simp add: step_heartbeat)
next
  case (step_respond p s l g)
  then show ?thesis using fences_inv_same [OF inv, of "sys_db \<sigma>" "Responded s l g" p] by simp
next
  case (step_crash p)
  then show ?thesis using fences_inv_same [OF inv, of "sys_db \<sigma>" Idle p] by simp
qed (use inv in simp_all)

lemma reachable_fences: "reachable digest \<sigma> \<Longrightarrow> fences_inv (sys_db \<sigma>) (sys_workers \<sigma>)"
proof (induction rule: reachable.induct)
  case reachable_init
  show ?case
    by (simp add: fences_inv_def sys_init_def increasing_def attempt_fences_def run_events_def empty_db_def)
next
  case (reachable_step \<sigma> \<tau>)
  then show ?case using fences_inv_step reachable_ok by blast
qed

text \<open>C5: fencing across recovery. In every reachable state the fence tokens of a run's
  recorded attempts are all present and strictly increase in the order of the log, whatever crashed, timed out
  or was taken over in between: no two attempts ever carry the same token, and a later
  attempt carries a higher one.\<close>

theorem attempts_strictly_fenced:
  assumes "reachable digest \<sigma>"
  shows "increasing (attempt_fences (sys_db \<sigma>) r)"
  using reachable_fences [OF assms] unfolding fences_inv_def by blast

section \<open>From one state to a later one\<close>

lemma steps_reachable: "(sys_step digest)\<^sup>*\<^sup>* \<sigma> \<tau> \<Longrightarrow> reachable digest \<sigma> \<Longrightarrow> reachable digest \<tau>"
  by (induction rule: rtranclp_induct) (auto intro: reachable_step)

text \<open>A run never disappears, and its recorded definition never changes.\<close>

lemma run_follows:
  assumes "(sys_step digest)\<^sup>*\<^sup>* \<sigma> \<tau>" and "reachable digest \<sigma>" and "view (sys_db \<sigma>) r = Some run"
  obtains run' where "view (sys_db \<tau>) r = Some run'" and "extends run run'"
proof -
  from assms(1) have "\<exists>run'. view (sys_db \<tau>) r = Some run' \<and> extends run run'"
  proof (induction rule: rtranclp_induct)
    case base
    then show ?case using assms(3) by simp
  next
    case (step \<upsilon> \<tau>)
    then obtain run' where run': "view (sys_db \<upsilon>) r = Some run'" "extends run run'" by blast
    have r: "reachable digest \<upsilon>" "reachable digest \<tau>"
      using steps_reachable [OF step(1) assms(2)] step(2) by (auto intro: reachable_step)
    obtain run'' where "view (sys_db \<tau>) r = Some run''" "extends run' run''"
      by (rule view_extends [OF sys_okD(1) [OF reachable_ok [OF r(1)]] sys_okD(1) [OF reachable_ok [OF r(2)]]
            sys_step_log [OF step(2)] run'(1)])
    with run'(2) show ?case by (blast intro: extends_trans)
  qed
  with that show thesis by blast
qed

lemma extends_columns:
  assumes "extends run run'"
  shows "map st_id (wr_steps run') = map st_id (wr_steps run)"
    and "map st_operation (wr_steps run') = map st_operation (wr_steps run)"
proof -
  have ids: "map st_id ss = map fst (map immutable ss)"
    and ops: "map st_operation ss = map (fst \<circ> snd \<circ> snd \<circ> snd) (map immutable ss)" for ss :: "step_record list"
    by (simp_all add: immutable_def)
  have "map immutable (wr_steps run') = map immutable (wr_steps run)" using assms by (simp add: extends_def)
  then show "map st_id (wr_steps run') = map st_id (wr_steps run)"
    and "map st_operation (wr_steps run') = map st_operation (wr_steps run)"
    unfolding ids ops by simp_all
qed

end
