(* ===== verification/Fencing.thy ===== *)
theory Fencing
  imports System Interfaces
begin

text \<open>
  Leases and fence tokens of \<open>crashsafe/storage.py\<close> as a \<open>fenced_store\<close>: a claim hands out a
  new largest token of its run, leased transitions need the current token, and every other
  operation leaves the tokens alone. \<open>rebuild_projection\<close> is the one operation outside this
  contract: it forgets the run's token, so the next claim starts again at 1.
\<close>

section \<open>What each operation does to the tokens\<close>

definition fence_token :: "db \<Rightarrow> string \<Rightarrow> int" where
  "fence_token d r = (case fence_of d r of None \<Rightarrow> 0 | Some f \<Rightarrow> f)"

definition leases_ok :: "db \<Rightarrow> bool" where
  "leases_ok d \<longleftrightarrow> distinct (map le_run_id (db_leases d))"

fun keeps_tokens :: "storage_op \<Rightarrow> bool" where
  "keeps_tokens (Claim _ _ _) \<longleftrightarrow> False"
| "keeps_tokens (Rebuild _) \<longleftrightarrow> False"
| "keeps_tokens _ \<longleftrightarrow> True"

text \<open>The lease table up to deadlines.\<close>

definition tokens :: "db \<Rightarrow> (string \<times> int) list" where
  "tokens d = map (\<lambda>l. (le_run_id l, le_fence_token l)) (db_leases d)"

lemma fence_of_tokens: "fence_of d r = map_of (tokens d) r"
proof -
  have "map_option le_fence_token (find (\<lambda>l. le_run_id l = r) ls) =
      map_of (map (\<lambda>l. (le_run_id l, le_fence_token l)) ls) r" for ls
    by (induction ls) auto
  then show ?thesis by (simp add: fence_of_def lease_of_def tokens_def)
qed

lemma leases_ok_tokens: "leases_ok d \<longleftrightarrow> distinct (map fst (tokens d))"
  by (simp add: leases_ok_def tokens_def comp_def)

lemma tokens_update:
  assumes "\<And>l. le_run_id (f l) = le_run_id l" and "\<And>l. le_fence_token (f l) = le_fence_token l"
  shows "tokens (d\<lparr>db_leases := update_where p f (db_leases d)\<rparr>) = tokens d"
proof -
  have "map (\<lambda>l. (le_run_id l, le_fence_token l)) (update_where p f ls) =
      map (\<lambda>l. (le_run_id l, le_fence_token l)) ls" for ls
    by (induction ls) (simp_all add: assms)
  then show ?thesis by (simp add: tokens_def)
qed

lemma insert_leases:
  "insert_run w d = Inr d' \<Longrightarrow> db_leases d' = db_leases d"
  "insert_step s d = Inr d' \<Longrightarrow> db_leases d' = db_leases d"
  "insert_dependency x d = Inr d' \<Longrightarrow> db_leases d' = db_leases d"
  by (auto simp: insert_run_def insert_step_def insert_dependency_def split: if_splits)

lemmas insert_all_leases =
  insert_all_preserves [of insert_step, where f = db_leases, OF _ insert_leases(2)]
  insert_all_preserves [of insert_dependency, where f = db_leases, OF _ insert_leases(3)]

lemma create_leases: "db_leases (snd (create_workflow_run r now wd tk dt d)) = db_leases d"
proof -
  have "db_leases d' = db_leases d" if body: "create_workflow_run_body r now tool wd d = Inr (u, d')" for tool u d'
  proof -
    from body obtain w steps deps created d1 d2 d3 where
      steps: "insert_run w d = Inr d1" "insert_all insert_step steps d1 = Inr d2"
        "insert_all insert_dependency deps d2 = Inr d3"
      and app: "append_event r WORKFLOW_RUN_CREATED created now None None 3 d3 = Inr d'"
      by (auto simp: create_workflow_run_body_def rbind_Inr_iff Let_def)
    have "db_leases d' = db_leases d3" using app by (rule append_event_Inr) simp
    with insert_leases(1) [OF steps(1)] insert_all_leases(1) [OF steps(2)] insert_all_leases(2) [OF steps(3)]
    show ?thesis by simp
  qed
  then show ?thesis by (auto simp: create_workflow_run_def transaction_def split: sum.splits)
qed

fun touches_leases :: "storage_op \<Rightarrow> bool" where
  "touches_leases (Claim _ _ _) \<longleftrightarrow> True"
| "touches_leases (Renew _ _ _ _ _) \<longleftrightarrow> True"
| "touches_leases (Release _ _ _ _) \<longleftrightarrow> True"
| "touches_leases (Rebuild _) \<longleftrightarrow> True"
| "touches_leases _ \<longleftrightarrow> False"

lemma perform_leases:
  assumes "\<not> touches_leases x"
  shows "db_leases (perform x d) = db_leases d"
proof (cases x)
  case (Attempt now at r i owner fence)
  show ?thesis unfolding Attempt perform.simps record_attempt_def
    by (rule transaction_preserves) (auto dest: attempt_log)
next
  case (Retry now at r i error nx owner fence throttle)
  show ?thesis unfolding Retry perform.simps schedule_retry_def
    by (rule transaction_preserves) (auto dest: retry_log)
next
  case (Fail now at r i error owner fence)
  show ?thesis unfolding Fail perform.simps fail_step_def
    by (rule transaction_preserves) (auto dest: fail_log)
next
  case (Complete now at r i out owner fence)
  show ?thesis unfolding Complete perform.simps complete_step_def
    by (rule transaction_preserves) (auto dest: complete_log)
qed (use assms in \<open>simp_all add: create_leases\<close>)

lemma perform_tokens:
  assumes "keeps_tokens x"
  shows "tokens (perform x d) = tokens d"
proof (cases "touches_leases x")
  case True
  with assms show ?thesis
    by (cases x) (simp_all add: renew_lease_def release_lease_def transaction_def Let_def tokens_update)
qed (simp add: tokens_def perform_leases)

lemma upsert_leases_ok:
  assumes "leases_ok d" shows "leases_ok (upsert_lease l d)"
proof -
  have keep: "map le_run_id (update_where (\<lambda>x. le_run_id x = le_run_id l) (\<lambda>_. l) ls) = map le_run_id ls" for ls
    by (induction ls) auto
  show ?thesis
  proof (cases "lease_of d (le_run_id l)")
    case None
    then have "le_run_id l \<notin> le_run_id ` set (db_leases d)" by (auto simp: lease_of_def find_None_iff)
    with assms None show ?thesis by (simp add: leases_ok_def upsert_lease_def)
  qed (use assms keep in \<open>simp add: leases_ok_def upsert_lease_def\<close>)
qed

section \<open>The lease table as a fenced store\<close>

definition acquires :: "db \<Rightarrow> string \<times> int \<times> db \<Rightarrow> bool" where
  "acquires d x = (case x of (r, f, d') \<Rightarrow> \<exists>owner ttl now c.
     claim_runnable_step owner ttl now d = (Inr (Some c), d') \<and> le_run_id (cl_lease c) = r \<and>
     le_fence_token (cl_lease c) = f)"

definition commits :: "db \<Rightarrow> string \<times> int \<times> db \<Rightarrow> bool" where
  "commits d x = (case x of (r, f, d') \<Rightarrow> \<exists>i owner out. worker_write r i owner f out d d')"

definition keeps :: "db \<Rightarrow> db \<Rightarrow> bool" where
  "keeps d d' \<longleftrightarrow> d' = d \<or> (\<exists>x. keeps_tokens x \<and> d' = perform x d)"

lemma token_same: "tokens d' = tokens d \<Longrightarrow> fence_token d' = fence_token d"
  by (rule ext) (simp add: fence_token_def fence_of_tokens)

interpretation lease_table: fenced_store fence_token acquires commits keeps leases_ok
proof
  fix d d' :: db and r :: string and f :: int
  assume ok: "leases_ok d"
  show "leases_ok d' \<and> fence_token d r < f \<and> fence_token d' r = f \<and>
      (\<forall>r'. r' \<noteq> r \<longrightarrow> fence_token d' r' = fence_token d r')" if acq: "acquires d (r, f, d')"
  proof -
    from acq obtain owner ttl now c where c: "claim_runnable_step owner ttl now d = (Inr (Some c), d')"
      "le_run_id (cl_lease c) = r" "le_fence_token (cl_lease c) = f" by (auto simp: acquires_def)
    from c(1) obtain row where "select_runnable d now True = Some row" "le_run_id (cl_lease c) = sr_run_id row"
      "cl_lease c = \<lparr>le_run_id = sr_run_id row, le_owner_id = owner,
        le_fence_token = next_fence d (sr_run_id row), le_expires_at = now + ttl, le_updated_at = now\<rparr>"
      "cl_step c = step_from_row row (dependencies d (sr_run_id row))"
      "d' = upsert_lease (cl_lease c) d" by (rule claim_Some)
    then have d': "d' = upsert_lease (cl_lease c) d" and f: "f = next_fence d r" using c(2,3) by auto
    have "leases_ok d'" unfolding d' by (rule upsert_leases_ok [OF ok])
    moreover have "fence_of d' r' = (if r' = r then Some f else fence_of d r')" for r'
      using c(2,3) by (simp add: fence_of_def d' lease_of_upsert)
    moreover have "fence_token d r < f"
      by (simp add: f next_fence_def fence_token_def fence_of_def split: option.split)
    ultimately show ?thesis by (simp add: fence_token_def)
  qed
  show "leases_ok d' \<and> fence_token d r = f \<and> fence_token d' = fence_token d" if "commits d (r, f, d')"
  proof -
    from that obtain i owner out where w: "worker_write r i owner f out d d'" by (auto simp: commits_def)
    from worker_write_facts(1) [OF w] obtain checked where
      "require_lease d r checked (Some owner) (Some f) = Inr ()" by blast
    from require_lease_current [OF this] ok have "fence_token d r = f"
      by (auto simp: leases_ok_def fence_token_def fence_of_def)
    moreover have "tokens d' = tokens d" using worker_write_facts(4) [OF w] by (simp add: tokens_def)
    ultimately show ?thesis using ok token_same [of d' d] by (simp add: leases_ok_tokens)
  qed
  show "leases_ok d' \<and> fence_token d' = fence_token d" if "keeps d d'"
  proof -
    from that have "tokens d' = tokens d" by (auto simp: keeps_def perform_tokens)
    then show ?thesis using ok token_same [of d' d] by (simp add: leases_ok_tokens)
  qed
qed

text \<open>Operations after a claim, as steps of the fenced store.\<close>

lemma perform_later:
  assumes "\<And>r. x \<noteq> Rebuild r"
  shows "(\<exists>q f. acquires d (q, f, perform x d)) \<or> (\<exists>q f. commits d (q, f, perform x d)) \<or> keeps d (perform x d)"
proof (cases x)
  case (Claim owner ttl now)
  obtain a d' where c: "claim_runnable_step owner ttl now d = (a, d')" by fastforce
  show ?thesis
  proof (cases a)
    case (Inl e)
    with claim_never_raises [of owner ttl now d e] c show ?thesis by simp
  next
    case (Inr oc)
    show ?thesis
    proof (cases oc)
      case None
      with c Inr have "d' = d" by (simp add: claim_None)
      with c Claim show ?thesis by (simp add: keeps_def)
    next
      case (Some cl)
      with c Inr Claim have "acquires d (le_run_id (cl_lease cl), le_fence_token (cl_lease cl), perform x d)"
        by (auto simp: acquires_def)
      then show ?thesis by blast
    qed
  qed
next
  case (Rebuild r)
  with assms [of r] show ?thesis by simp
qed (auto simp: keeps_def intro!: exI [of _ x])

lemma run_later:
  assumes "\<forall>r. Rebuild r \<notin> set xs"
  shows "lease_table.later d d' \<Longrightarrow> lease_table.later d (fold perform xs d')"
  using assms
proof (induction xs arbitrary: d')
  case Nil
  then show ?case by simp
next
  case (Cons x xs)
  from Cons.prems(2) have "\<And>r. x \<noteq> Rebuild r" and rest: "\<forall>r. Rebuild r \<notin> set xs" by auto
  from lease_table.later_step [OF Cons.prems(1) perform_later [OF this(1)]]
  have "lease_table.later d (perform x d')" .
  from Cons.IH [OF this rest] show ?case by simp
qed

lemma stale_lease_lost:
  assumes "db_ok d" and "claim_runnable_step owner ttl now d = (Inr (Some c), d')"
    and "r = le_run_id (cl_lease c)" and "f < le_fence_token (cl_lease c)"
    and "\<forall>r. Rebuild r \<notin> set xs" and "t = fold perform xs d'"
  shows "require_lease t r checked (Some owner') (Some f) = Inl (LeaseLostError owner' r)"
proof -
  have ok: "leases_ok d" using db_okD(6) [OF assms(1)] by (simp add: leases_ok_def)
  have acq: "acquires d (r, le_fence_token (cl_lease c), d')"
    using assms(2,3) by (auto simp: acquires_def)
  then have d': "leases_ok d'" "fence_token d' r = le_fence_token (cl_lease c)"
    using lease_table.acquire_new [OF ok acq] by simp_all
  have "lease_table.later d' t" unfolding assms(6) by (rule run_later [OF assms(5) lease_table.later_refl])
  from lease_table.later_monotone [OF this d'(1), of r]
  have t: "leases_ok t" "f < fence_token t r" using assms(4) d'(2) by auto
  have "require_lease t r checked (Some owner') (Some f) \<noteq> Inr ()"
  proof
    assume "require_lease t r checked (Some owner') (Some f) = Inr ()"
    from require_lease_current [OF this] t(1) obtain m where "lease_of t r = Some m" "le_fence_token m = f"
      by (auto simp: leases_ok_def)
    with t(2) show False by (simp add: fence_token_def fence_of_def)
  qed
  then show ?thesis by (auto simp: require_lease_def guard_def split: if_splits)
qed

end
