(* ===== verification/Recovery.thy ===== *)
theory Recovery
  imports Fencing
begin

text \<open>
  Submission, repair and takeover: what \<open>create_workflow_run\<close> leaves behind, how
  \<open>rebuild_projection\<close> restores damaged rows from the log, and how a takeover shuts out the
  former owner of a lease.
\<close>

section \<open>Submission\<close>

text \<open>C16: the two validators agree. A submitted definition is accepted by the graph validation
  of the API exactly when the reducer accepts the step definitions that
  \<open>create_workflow_run\<close> materialises from it, so an accepted submission is never rejected
  by recovery later, and nothing else is.\<close>

theorem validators_agree:
  "validate_definitions r (materialize r tool wd) = Inr () \<longleftrightarrow>
    wd_steps wd \<noteq> [] \<and> validate_graph wd = None"
  by (simp add: validate_materialize validate_graph_sound)

lemma get_of_view: "get_workflow_run r d =
    (case view d r of None \<Rightarrow> Inl (WorkflowRunNotFoundError r) | Some run \<Rightarrow> Inr run)"
  by (auto simp: view_def get_workflow_run_def split: option.splits)

text \<open>Creating a run of an accepted definition under a fresh UUID succeeds, returns the
  run with every step pending and no attempts made, and leaves every other run, every lease
  and every throttle as it was.\<close>

theorem create_makes_pending_run:
  assumes "db_ok d" and "r \<notin> run_ids d" and "uuid_ok r" and "accepted wd"
    and "run = created_run r now (selected_tool tool_key default_tool) wd"
  shows "\<exists>d'. create_workflow_run r now wd tool_key default_tool d = (Inr run, d') \<and>
    get_workflow_run r d' = Inr run \<and> wr_status run = RUNNING \<and>
    map st_id (wr_steps run) = map ws_id (wd_steps wd) \<and>
    (\<forall>s \<in> set (wr_steps run). st_status s = STEP_PENDING \<and> st_attempts s = 0) \<and>
    db_leases d' = db_leases d \<and> db_throttles d' = db_throttles d \<and>
    (\<forall>r'. r' \<noteq> r \<longrightarrow> get_workflow_run r' d' = get_workflow_run r' d)"
proof -
  have "wd_steps wd \<noteq> []" "sound_graph (wd_steps wd)" using accepted_sound [OF assms(4)] by auto
  from create_body_ok [OF assms(1-3) this, of now "selected_tool tool_key default_tool"]
  obtain d' where d': "create_workflow_run_body r now (selected_tool tool_key default_tool) wd d = Inr ((), d')"
    "view d' r = Some run" "db_leases d' = db_leases d" "db_throttles d' = db_throttles d"
    and other: "\<And>r'. r' \<noteq> r \<Longrightarrow> view d' r' = view d r'"
    unfolding assms(5) by metis
  have ids: "map st_id (wr_steps run) = map ws_id (wd_steps wd)"
    unfolding assms(5) using materialize_simps(1) [of r "selected_tool tool_key default_tool" wd]
    by (simp add: new_step_def comp_def)
  have "create_workflow_run r now wd tool_key default_tool d = (Inr run, d')"
    using d'(1,2) by (simp add: create_workflow_run_def transaction_def get_workflow_run_view)
  moreover have "wr_status run = RUNNING"
    "\<forall>s \<in> set (wr_steps run). st_status s = STEP_PENDING \<and> st_attempts s = 0"
    unfolding assms(5) by (auto simp: new_step_def)
  ultimately show ?thesis using ids d'(2-4) other by (auto simp: get_of_view)
qed

section \<open>Repair\<close>

text \<open>C14: repair. However the projection rows and the lease of one run were damaged, as long as
  its events are intact, \<open>rebuild_projection\<close> returns the run as it was and restores its rows;
  all other runs and the log stay as they were. The run's lease is gone: its next claim
  hands out fence token 1 again.\<close>

theorem rebuild_repairs:
  assumes "db_ok old" and "get_workflow_run r old = Inr run"
    and "delete_projection r d = delete_projection r old"
  shows "\<exists>d'. rebuild_projection r d = (Inr run, d') \<and> get_workflow_run r d' = Inr run \<and>
    projection_matches_history r d' = Inr True \<and> db_events d' = db_events old \<and>
    (\<forall>r'. r' \<noteq> r \<longrightarrow> get_workflow_run r' d' = get_workflow_run r' old) \<and> next_fence d' r = 1"
proof -
  have v: "view old r = Some run" using assms(2) by (simp add: get_workflow_run_view)
  have "db_events d = db_events old"
    using arg_cong [OF assms(3), of db_events] by simp
  then obtain p where p: "rebuild_read r d = Inr (run, p)" by (rule rebuild_read_ok [OF assms(1) v])
  obtain d' where d': "rebuild_write r run p d = (Inr run, d')" "db_ok d'" "view d' r = Some run"
    "run_ids d' = run_ids old" "db_events d' = db_events old"
    "db_leases d' = filter (\<lambda>l. le_run_id l \<noteq> r) (db_leases old)"
    "\<And>r'. r' \<noteq> r \<Longrightarrow> view d' r' = view old r'"
    by (rule rebuild_write_ok [OF assms(1) v assms(3), of p]) blast
  have "rebuild_projection r d = (Inr run, d')" using p d'(1) by (simp add: rebuild_projection_def)
  moreover have "lease_of d' r = None" by (auto simp: lease_of_def d'(6) find_None_iff)
  moreover have "projection_matches_history r d' = Inr True"
    using db_okD(1) [OF d'(2)] view_in_run_ids [OF d'(3)] by (intro consistent_projection_matches)
  ultimately show ?thesis using d'(3,5,7) by (simp add: get_of_view next_fence_def)
qed

section \<open>Takeover\<close>

text \<open>C13: a takeover shuts the former owner out. Once a run was claimed with a larger token,
  every transition that is submitted with an older token raises \<open>LeaseLostError\<close> and changes
  nothing, whatever operations other than a rebuild have been performed since, whatever the
  clocks read and whoever submits it.\<close>

theorem takeover_rejects_stale_token:
  assumes "db_ok d" and "claim_runnable_step owner ttl now d = (Inr (Some c), d')"
    and "r = le_run_id (cl_lease c)" and "f < le_fence_token (cl_lease c)"
    and "\<forall>r. Rebuild r \<notin> set xs" and "t = fold perform xs d'" and "get_step_row t r i = Inr row"
  shows "record_attempt now' checked r i (Some o') (Some f) t = (Inl (LeaseLostError o' r), t) \<and>
    schedule_retry now' checked r i msg nx (Some o') (Some f) thr t = (Inl (LeaseLostError o' r), t) \<and>
    fail_step now' checked r i msg (Some o') (Some f) t = (Inl (LeaseLostError o' r), t) \<and>
    complete_step now' checked r i out (Some o') (Some f) t = (Inl (LeaseLostError o' r), t)"
proof -
  have "require_lease t r checked (Some o') (Some f) = Inl (LeaseLostError o' r)"
    by (rule stale_lease_lost [OF assms(1-6)])
  moreover have "sr_run_id row = r" using get_step_row_Inr [OF assms(7)] by simp
  ultimately show ?thesis
    using assms(7) by (simp add: op_defs body_defs)
qed

end
