(* ===== verification/Milliseconds.thy ===== *)
theory Milliseconds
  imports Durations
begin

text \<open>
  \<open>_milliseconds\<close> of \<open>crashsafe/observability.py\<close>: \<open>round(delta.total_seconds() * 1000)\<close>, with the
  two roundings of IEEE double arithmetic written out. A double is its exact rational value;
  durations are far from the overflow threshold, so that case is not modelled here.
\<close>

text \<open>\<open>delta.total_seconds()\<close> divides the microseconds exactly and rounds once.\<close>

definition milliseconds :: "int \<Rightarrow> int" where
  "milliseconds us = round_half_even (to_double (to_double (of_int us / 1000000) * 1000))"

section \<open>Accuracy\<close>

lemma combine_errors:
  assumes "a \<le> x / 2 ^ 53" and "b \<le> y * 1000 / 2 ^ 53" and "y \<le> 2 * x"
  shows "b + 1000 * a \<le> 3000 * ((x :: rat) / 2 ^ 53)"
  using assms by simp

text \<open>Both roundings together: less than an eighth of a millisecond over any two datetimes.\<close>

lemma double_milliseconds:
  assumes "\<bar>us\<bar> \<le> 1000 * 2 ^ 49"
  shows "\<bar>to_double (to_double (of_int us / 1000000) * 1000) - of_int us / 1000\<bar> \<le> 1 / 4"
proof (cases "us = 0")
  case True
  then show ?thesis by (simp add: to_double_def round_half_even_def Let_def)
next
  case False
  define x where "x = (of_int us / 1000000 :: rat)"
  define y where "y = to_double x"
  define z where "z = to_double (y * 1000)"
  have us: "1 \<le> \<bar>of_int us :: rat\<bar>" "\<bar>of_int us :: rat\<bar> \<le> 1000 * 2 ^ 49"
  proof -
    have "1 \<le> \<bar>us\<bar>" using False by simp
    then show "1 \<le> \<bar>of_int us :: rat\<bar>" by (metis of_int_1_le_iff of_int_abs)
    have "of_int \<bar>us\<bar> \<le> (of_int (1000 * 2 ^ 49) :: rat)" using assms by (simp only: of_int_le_iff)
    then show "\<bar>of_int us :: rat\<bar> \<le> 1000 * 2 ^ 49" by simp
  qed
  have ax: "\<bar>x\<bar> = \<bar>of_int us\<bar> / 1000000" by (simp add: x_def)
  have "1 / 2 ^ 1000 \<le> (1 / 1000000 :: rat)" by simp
  then have xl: "1 / 2 ^ 1000 \<le> \<bar>x\<bar>" using us(1) ax by linarith
  from to_double_error [OF xl] have ey: "\<bar>y - x\<bar> \<le> \<bar>x\<bar> / 2 ^ 53" by (simp only: y_def)
  moreover have "\<bar>x\<bar> / 2 ^ 53 \<le> \<bar>x\<bar> / 2" by (intro divide_left_mono) simp_all
  ultimately have near: "\<bar>y - x\<bar> \<le> \<bar>x\<bar> / 2" by linarith
  have y: "\<bar>x\<bar> / 2 \<le> \<bar>y\<bar>" using near by linarith
  have y2: "\<bar>y\<bar> \<le> 2 * \<bar>x\<bar>" using near by linarith
  have "1 / 2 ^ 1000 \<le> (1 / 2000 :: rat)" by simp
  then have "1 / 2 ^ 1000 \<le> \<bar>y * 1000\<bar>" using y ax us(1) unfolding abs_mult by linarith
  from to_double_error [OF this] have ez: "\<bar>z - y * 1000\<bar> \<le> \<bar>y * 1000\<bar> / 2 ^ 53" by (simp only: z_def)
  have "\<bar>z - x * 1000\<bar> \<le> \<bar>z - y * 1000\<bar> + 1000 * \<bar>y - x\<bar>"
  proof -
    have "z - x * 1000 = (z - y * 1000) + 1000 * (y - x)" by simp
    then have "\<bar>z - x * 1000\<bar> \<le> \<bar>z - y * 1000\<bar> + \<bar>1000 * (y - x)\<bar>" by (simp only: abs_triangle_ineq)
    then show ?thesis by (simp only: abs_mult abs_numeral)
  qed
  also have "\<dots> \<le> 3000 * (\<bar>x\<bar> / 2 ^ 53)" using ey ez y2 unfolding abs_mult abs_numeral by (rule combine_errors)
  also have "\<dots> \<le> 1 / 4" using us(2) unfolding ax by simp
  finally show ?thesis by (simp add: z_def y_def x_def)
qed

lemma scale_bound: "\<bar>a - b / 1000\<bar> \<le> 3 / 4 \<Longrightarrow> \<bar>1000 * a - b :: rat\<bar> \<le> 750"
  by linarith

text \<open>Durations in the timeline are right to the millisecond in spite of floating-point
  rounding: over any distance of two datetimes the result is less than one millisecond away
  from the true duration, and exact when that is a whole number of milliseconds.\<close>

theorem milliseconds_accurate:
  assumes "datetime_range t" and "datetime_range t'"
  shows "\<bar>1000 * milliseconds (t' - t) - (t' - t)\<bar> < 1000 \<and>
    (1000 dvd t' - t \<longrightarrow> 1000 * milliseconds (t' - t) = t' - t)"
proof
  let ?us = "t' - t"
  let ?w = "to_double (to_double (of_int ?us / 1000000) * 1000)"
  have "\<bar>?us\<bar> \<le> 1000 * 2 ^ 49"
    using assms by (simp add: datetime_range_def microseconds_per_day_def) linarith
  note w = double_milliseconds [OF this]
  have "\<bar>of_int (milliseconds ?us) - ?w\<bar> \<le> 1 / 2"
    using round_half_even_bounds [of ?w] unfolding milliseconds_def by linarith
  with w have "\<bar>of_int (milliseconds ?us) - of_int ?us / 1000 :: rat\<bar> \<le> 3 / 4" by linarith
  then have "\<bar>1000 * of_int (milliseconds ?us) - of_int ?us :: rat\<bar> \<le> 750" by (rule scale_bound)
  then have "\<bar>of_int (1000 * milliseconds ?us - ?us) :: rat\<bar> \<le> of_int 750" by simp
  then have "\<bar>1000 * milliseconds ?us - ?us\<bar> \<le> 750" by (simp only: of_int_abs [symmetric] of_int_le_iff)
  then show "\<bar>1000 * milliseconds ?us - ?us\<bar> < 1000" by linarith
  show "1000 dvd ?us \<longrightarrow> 1000 * milliseconds ?us = ?us"
  proof
    assume "1000 dvd ?us"
    then obtain k where k: "?us = 1000 * k" by auto
    with w have "\<bar>?w - of_int k\<bar> \<le> 1 / 4" by simp
    then have "\<bar>?w - of_int k\<bar> < 1 / 2" by linarith
    from round_half_even_near [OF this] show "1000 * milliseconds ?us = ?us" by (simp add: milliseconds_def k)
  qed
qed

end
