(* ===== verification/Timeline.thy ===== *)
theory Timeline
  imports Milliseconds History_Facts Engine
begin

text \<open>
  \<open>crashsafe/observability.py\<close>: the timeline of a run, built from the same events as the
  projection, and its textual parts. One round of the loop of \<open>build_timeline\<close> is
  \<open>timeline_event\<close>; \<open>repr\<close> stands for Python's rendering of arrays and objects. The box
  drawing of \<open>format_timeline\<close> is in theory Rendering.
\<close>

section \<open>Entries\<close>

record timeline_entry =
  te_sequence :: int
  te_elapsed_ms :: int
  te_occurred_at :: timestamp
  te_event_type :: event_type
  te_step_id :: "string option"
  te_operation :: "step_name option"
  te_attempt :: "int option"
  te_worker_id :: "string option"
  te_fence_token :: "int option"
  te_wait_ms :: "int option"
  te_detail :: "string option"

record timeline_summary =
  ts_status :: workflow_run_status
  ts_duration_ms :: int
  ts_attempts :: nat
  ts_retries :: nat
  ts_planned_wait_ms :: int
  ts_step_duration_ms :: "string \<rightharpoonup> int"

record timeline =
  tl_run_id :: string
  tl_entries :: "timeline_entry list"
  tl_summary :: timeline_summary

datatype timeline_error = NoEvents | BadHistory history_error | BadPayload | UnexpectedPayload event_type

text \<open>\<open>str(value)\<close> and the truth value of a JSON value.\<close>

fun py_str :: "(json \<Rightarrow> string) \<Rightarrow> json \<Rightarrow> string" where
  "py_str repr (JStr s) = s"
| "py_str repr (JInt i) = show_int i"
| "py_str repr (JBool True) = ''True''"
| "py_str repr (JBool False) = ''False''"
| "py_str repr JNull = ''None''"
| "py_str repr j = repr j"

fun truthy :: "json \<Rightarrow> bool" where
  "truthy JNull \<longleftrightarrow> False"
| "truthy (JBool b) \<longleftrightarrow> b"
| "truthy (JInt i) \<longleftrightarrow> i \<noteq> 0"
| "truthy (JStr s) \<longleftrightarrow> s \<noteq> []"
| "truthy (JArr xs) \<longleftrightarrow> xs \<noteq> []"
| "truthy (JObj fs) \<longleftrightarrow> fs \<noteq> []"

definition completion_detail :: "(json \<Rightarrow> string) \<Rightarrow> json \<Rightarrow> string" where
  "completion_detail repr out =
     (let reference = (case json_get out ''reference_id'' of Some x \<Rightarrow> x
            | None \<Rightarrow> (case json_get out ''receipt'' of Some x \<Rightarrow> x | None \<Rightarrow> JStr ''persisted''));
          suffix = (case json_get out ''deduplicated'' of
            Some x \<Rightarrow> if truthy x then '' deduplicated'' else [] | None \<Rightarrow> [])
      in ''result='' @ py_str repr reference @ suffix)"

section \<open>The loop\<close>

record timeline_state =
  tm_entries :: "timeline_entry list"
  tm_attempts :: nat
  tm_retries :: nat
  tm_planned_wait_ms :: int
  tm_first_attempt_at :: "string \<rightharpoonup> timestamp"
  tm_step_duration_ms :: "string \<rightharpoonup> int"

definition timeline_start :: timeline_state where
  "timeline_start = \<lparr>tm_entries = [], tm_attempts = 0, tm_retries = 0, tm_planned_wait_ms = 0,
     tm_first_attempt_at = Map.empty, tm_step_duration_ms = Map.empty\<rparr>"

text \<open>\<open>operations.get(event.step_id or "")\<close>; of equal ids the last step counts.\<close>

definition operation_of :: "workflow_run \<Rightarrow> string option \<Rightarrow> step_name option" where
  "operation_of run i = map_option st_operation
     (find (\<lambda>s. st_id s = (case i of None \<Rightarrow> [] | Some x \<Rightarrow> x)) (rev (wr_steps run)))"

definition base_entry :: "workflow_run \<Rightarrow> timestamp \<Rightarrow> workflow_run_event \<Rightarrow> timeline_entry" where
  "base_entry run origin e = \<lparr>te_sequence = ev_sequence e,
     te_elapsed_ms = milliseconds (ev_occurred_at e - origin), te_occurred_at = ev_occurred_at e,
     te_event_type = ev_event_type e, te_step_id = ev_step_id e,
     te_operation = operation_of run (ev_step_id e), te_attempt = ev_attempt e,
     te_worker_id = None, te_fence_token = None, te_wait_ms = None, te_detail = None\<rparr>"

text \<open>The three dictionaries updated in the loop.\<close>

definition set_first_attempt :: "workflow_run_event \<Rightarrow> timeline_state \<Rightarrow> timeline_state" where
  "set_first_attempt e m = (case ev_step_id e of None \<Rightarrow> m
     | Some i \<Rightarrow> (case tm_first_attempt_at m i of Some _ \<Rightarrow> m
         | None \<Rightarrow> m\<lparr>tm_first_attempt_at := (tm_first_attempt_at m)(i \<mapsto> ev_occurred_at e)\<rparr>))"

definition set_duration :: "workflow_run_event \<Rightarrow> timeline_state \<Rightarrow> timeline_state" where
  "set_duration e m = (case ev_step_id e of None \<Rightarrow> m
     | Some i \<Rightarrow> (case tm_first_attempt_at m i of None \<Rightarrow> m
         | Some t \<Rightarrow> m\<lparr>tm_step_duration_ms :=
             (tm_step_duration_ms m)(i \<mapsto> milliseconds (ev_occurred_at e - t))\<rparr>))"

definition with_entry :: "timeline_entry \<Rightarrow> timeline_state \<Rightarrow> timeline_state" where
  "with_entry x m = m\<lparr>tm_entries := tm_entries m @ [x]\<rparr>"

definition timeline_payload :: "(json \<Rightarrow> string) \<Rightarrow> workflow_run \<Rightarrow> workflow_run_event \<Rightarrow> timeline_entry
    \<Rightarrow> payload \<Rightarrow> timeline_state \<Rightarrow> timeline_error + timeline_state" where
  "timeline_payload repr run e x p m = (case ev_event_type e of
     WORKFLOW_RUN_CREATED \<Rightarrow> Inr (with_entry
       (x\<lparr>te_detail := Some (show_nat (length (wr_steps run)) @ '' materialized steps persisted'')\<rparr>) m)
   | STEP_ATTEMPT_STARTED \<Rightarrow> (case p of
       StepAttemptStartedPayload op req key worker fence \<Rightarrow>
         Inr (with_entry (x\<lparr>te_worker_id := worker, te_fence_token := fence,
                te_detail := Some (''intent persisted; key='' @ key)\<rparr>)
              (set_first_attempt e (m\<lparr>tm_attempts := tm_attempts m + 1\<rparr>)))
     | _ \<Rightarrow> Inl (UnexpectedPayload STEP_ATTEMPT_STARTED))
   | STEP_RETRY_SCHEDULED \<Rightarrow> (case p of
       StepRetryScheduledPayload error next \<Rightarrow>
         (let wait = max 0 (milliseconds (next - ev_occurred_at e)) in
          Inr (with_entry (x\<lparr>te_wait_ms := Some wait, te_detail := Some error\<rparr>)
            (m\<lparr>tm_retries := tm_retries m + 1, tm_planned_wait_ms := tm_planned_wait_ms m + wait\<rparr>)))
     | _ \<Rightarrow> Inl (UnexpectedPayload STEP_RETRY_SCHEDULED))
   | STEP_COMPLETED_EVENT \<Rightarrow> (case p of
       StepCompletedPayload out \<Rightarrow>
         Inr (with_entry (x\<lparr>te_detail := Some (completion_detail repr out)\<rparr>) (set_duration e m))
     | _ \<Rightarrow> Inl (UnexpectedPayload STEP_COMPLETED_EVENT))
   | STEP_FAILED_EVENT \<Rightarrow> (case p of
       StepFailedPayload error \<Rightarrow> Inr (with_entry (x\<lparr>te_detail := Some error\<rparr>) m)
     | _ \<Rightarrow> Inl (UnexpectedPayload STEP_FAILED_EVENT))
   | WORKFLOW_RUN_COMPLETED \<Rightarrow> Inr (with_entry (x\<lparr>te_detail := Some ''all committed steps complete''\<rparr>) m)
   | WORKFLOW_RUN_FAILED \<Rightarrow> Inr (with_entry (x\<lparr>te_detail := Some (case p of
         WorkflowRunFailedPayload _ error \<Rightarrow> error | _ \<Rightarrow> ''workflow run failed'')\<rparr>) m))"

definition timeline_event :: "(json \<Rightarrow> string) \<Rightarrow> workflow_run \<Rightarrow> timestamp \<Rightarrow> workflow_run_event
    \<Rightarrow> timeline_state \<Rightarrow> timeline_error + timeline_state" where
  "timeline_event repr run origin e m =
     (case parse_payload (ev_event_type e) (ev_payload e) of
        None \<Rightarrow> Inl BadPayload
      | Some p \<Rightarrow> timeline_payload repr run e (base_entry run origin e) p m)"

fun timeline_events :: "(json \<Rightarrow> string) \<Rightarrow> workflow_run \<Rightarrow> timestamp \<Rightarrow> workflow_run_event list
    \<Rightarrow> timeline_state \<Rightarrow> timeline_error + timeline_state" where
  "timeline_events repr run origin [] m = Inr m"
| "timeline_events repr run origin (e # es) m =
     rbind (timeline_event repr run origin e m) (timeline_events repr run origin es)"

definition build_timeline :: "(json \<Rightarrow> string) \<Rightarrow> workflow_run_event list \<Rightarrow> timeline_error + timeline" where
  "build_timeline repr events = (case events of
     [] \<Rightarrow> Inl NoEvents
   | first # _ \<Rightarrow> (case reduce_workflow_run_history events of
       Inl e \<Rightarrow> Inl (BadHistory e)
     | Inr run \<Rightarrow>
         rbind (timeline_events repr run (ev_occurred_at first) events timeline_start) (\<lambda>m.
           Inr \<lparr>tl_run_id = ev_run_id first, tl_entries = tm_entries m,
             tl_summary = \<lparr>ts_status = wr_status run,
               ts_duration_ms = milliseconds (ev_occurred_at (last events) - ev_occurred_at first),
               ts_attempts = tm_attempts m, ts_retries = tm_retries m,
               ts_planned_wait_ms = tm_planned_wait_ms m,
               ts_step_duration_ms = tm_step_duration_ms m\<rparr>\<rparr>)))"

section \<open>Text\<close>

fun event_label :: "event_type \<Rightarrow> string" where
  "event_label WORKFLOW_RUN_CREATED = ''RUN CREATED''"
| "event_label STEP_ATTEMPT_STARTED = ''ATTEMPT STARTED''"
| "event_label STEP_RETRY_SCHEDULED = ''RETRY SCHEDULED''"
| "event_label STEP_COMPLETED_EVENT = ''STEP COMPLETED''"
| "event_label STEP_FAILED_EVENT = ''STEP FAILED''"
| "event_label WORKFLOW_RUN_COMPLETED = ''RUN COMPLETED''"
| "event_label WORKFLOW_RUN_FAILED = ''RUN FAILED''"

text \<open>\<open>f"{x:.3f}"\<close> rounds the double, half to even, to thousandths.\<close>

definition fixed3 :: "rat \<Rightarrow> string" where
  "fixed3 x = (let n = round_half_even (x * 1000); a = \<bar>n\<bar> in
     (if n < 0 then ''-'' else []) @ show_int (a div 1000) @ ''.'' @
     show_int (a div 100 mod 10) @ show_int (a div 10 mod 10) @ show_int (a mod 10))"

definition format_duration :: "int \<Rightarrow> string" where
  "format_duration ms = (if ms < 1000 then show_int ms @ ''ms''
     else fixed3 (to_double (of_int ms / 1000)) @ ''s'')"

text \<open>\<open>detail.split("; key=", maxsplit=1)\<close> at the first occurrence, if there is one.\<close>

fun split_once :: "string \<Rightarrow> string \<Rightarrow> (string \<times> string) option" where
  "split_once sep [] = (if sep = [] then Some ([], []) else None)"
| "split_once sep (c # cs) =
     (if take (length sep) (c # cs) = sep then Some ([], drop (length sep) (c # cs))
      else map_option (\<lambda>(a, b). (c # a, b)) (split_once sep cs))"

definition timeline_details :: "string option \<Rightarrow> int option \<Rightarrow> string list" where
  "timeline_details detail wait =
     (let values = (case wait of None \<Rightarrow> [] | Some ms \<Rightarrow> [''wait '' @ format_duration ms]) in
      case detail of None \<Rightarrow> values
      | Some d \<Rightarrow>
          if d = [] then values
          else (case split_once ''; key='' d of
              Some (message, key) \<Rightarrow> values @ [message, ''key  '' @ key]
            | None \<Rightarrow> (case values of
                [] \<Rightarrow> [d]
              | v # vs \<Rightarrow> (v @ [CHR '' '', char_of (183 :: nat), CHR '' ''] @ d) # vs)))"

section \<open>The loop follows the reducer\<close>

definition total_attempts :: "workflow_run \<Rightarrow> int" where
  "total_attempts run = sum_list (map st_attempts (wr_steps run))"

definition attempted_ids :: "workflow_run \<Rightarrow> string set" where
  "attempted_ids run = {st_id s |s. s \<in> set (wr_steps run) \<and> 0 < st_attempts s}"

lemma in_attempted_ids: "i \<in> attempted_ids run \<longleftrightarrow> (\<exists>s \<in> set (wr_steps run). st_id s = i \<and> 0 < st_attempts s)"
  by (auto simp: attempted_ids_def)

definition follows :: "workflow_run \<Rightarrow> timeline_state \<Rightarrow> bool" where
  "follows run m \<longleftrightarrow> total_attempts run = int (tm_attempts m) \<and>
     dom (tm_first_attempt_at m) = attempted_ids run \<and>
     dom (tm_step_duration_ms m) = set (completed_ids (wr_steps run)) \<and> 0 \<le> tm_planned_wait_ms m"

lemma state_updates [simp]:
  "tm_attempts (with_entry x m) = tm_attempts m" "tm_retries (with_entry x m) = tm_retries m"
  "tm_planned_wait_ms (with_entry x m) = tm_planned_wait_ms m"
  "tm_first_attempt_at (with_entry x m) = tm_first_attempt_at m"
  "tm_step_duration_ms (with_entry x m) = tm_step_duration_ms m"
  "tm_entries (with_entry x m) = tm_entries m @ [x]"
  "tm_attempts (set_first_attempt e m) = tm_attempts m" "tm_retries (set_first_attempt e m) = tm_retries m"
  "tm_planned_wait_ms (set_first_attempt e m) = tm_planned_wait_ms m"
  "tm_step_duration_ms (set_first_attempt e m) = tm_step_duration_ms m"
  "tm_entries (set_first_attempt e m) = tm_entries m"
  "tm_attempts (set_duration e m) = tm_attempts m" "tm_retries (set_duration e m) = tm_retries m"
  "tm_planned_wait_ms (set_duration e m) = tm_planned_wait_ms m"
  "tm_first_attempt_at (set_duration e m) = tm_first_attempt_at m"
  "tm_entries (set_duration e m) = tm_entries m"
  by (auto simp: with_entry_def set_first_attempt_def set_duration_def split: option.splits)

lemma dom_first_attempt: "ev_step_id e = Some i \<Longrightarrow>
    dom (tm_first_attempt_at (set_first_attempt e m)) = insert i (dom (tm_first_attempt_at m))"
  by (auto simp: set_first_attempt_def split: option.splits)

lemma dom_duration: "ev_step_id e = Some i \<Longrightarrow> i \<in> dom (tm_first_attempt_at m) \<Longrightarrow>
    dom (tm_step_duration_ms (set_duration e m)) = insert i (dom (tm_step_duration_ms m))"
  by (auto simp: set_duration_def)

lemma sum_list_update_where:
  assumes "distinct (map k xs)" and "s \<in> set xs"
  shows "sum_list (map f (update_where (\<lambda>x. k x = k s) (\<lambda>_. s') xs)) = sum_list (map f xs) - f s + (f s' :: int)"
  using assms
proof (induction xs)
  case (Cons x xs)
  show ?case
  proof (cases "x = s")
    case True
    then have "\<And>y. y \<in> set xs \<Longrightarrow> k y \<noteq> k s" using Cons.prems(1) by (metis distinct.simps(2) image_eqI list.simps(9) set_map)
    with True show ?thesis by (simp add: update_where_id)
  next
    case False
    with Cons.prems have "s \<in> set xs" "k x \<noteq> k s" by auto
    with Cons show ?thesis by simp
  qed
qed simp

text \<open>One step event and its timeline round.\<close>

text \<open>What the reading of an event changes in the sums and sets of the run's steps.\<close>

lemma step_event_sums:
  assumes wf: "wf_run r" and s: "s \<in> set (wr_steps r)" and a: "apply_step_event r s e n p = Inr s'"
    and r': "r' = r\<lparr>wr_steps := update_where (\<lambda>x. st_id x = st_id s) (\<lambda>_. s') (wr_steps r)\<rparr>"
  shows "total_attempts r' = total_attempts r - st_attempts s + st_attempts s'"
    and "0 < st_attempts s' \<Longrightarrow> attempted_ids r' = insert (st_id s) (attempted_ids r)"
    and "set (completed_ids (wr_steps r')) = (if st_status s' = STEP_COMPLETED
      then insert (st_id s) (set (completed_ids (wr_steps r))) else set (completed_ids (wr_steps r)))"
    and "st_id s \<in> attempted_ids r \<longleftrightarrow> 0 < st_attempts s"
proof -
  have dist: "distinct (map st_id (wr_steps r))" using wf by (simp add: wf_run_def step_ids_def)
  have id: "st_id s' = st_id s" using apply_step_event_facts(1) [OF a] by (rule immutable_eqD)
  show "total_attempts r' = total_attempts r - st_attempts s + st_attempts s'"
    using sum_list_update_where [OF dist s, of st_attempts s'] by (simp add: total_attempts_def r')
  have others: "\<And>y. y \<in> set (wr_steps r) \<Longrightarrow> st_id y = st_id s \<Longrightarrow> y = s"
    using distinct_id_eq dist s by metis
  have mem': "y \<in> set (wr_steps r') \<longleftrightarrow> y = s' \<or> y \<in> set (wr_steps r) \<and> st_id y \<noteq> st_id s" for y
    using s by (auto simp: r' set_update_where)
  have "attempted_ids r' = (attempted_ids r - {st_id s}) \<union> (if 0 < st_attempts s' then {st_id s} else {})"
    unfolding set_eq_iff in_attempted_ids Bex_def mem' by (simp add: in_attempted_ids) (metis id)
  then show "0 < st_attempts s' \<Longrightarrow> attempted_ids r' = insert (st_id s) (attempted_ids r)" by auto
  have comp: "set (completed_ids (wr_steps r')) = (set (completed_ids (wr_steps r)) - {st_id s}) \<union>
      (if st_status s' = STEP_COMPLETED then {st_id s} else {})"
    unfolding set_eq_iff in_completed_ids Bex_def mem' by (simp add: in_completed_ids) (metis id)
  have "st_status s \<noteq> STEP_COMPLETED" using apply_step_event_facts(2) [OF a] by (simp add: runnable_status_iff)
  then have "st_id s \<notin> set (completed_ids (wr_steps r))" unfolding in_completed_ids using others by metis
  then show "set (completed_ids (wr_steps r')) = (if st_status s' = STEP_COMPLETED
      then insert (st_id s) (set (completed_ids (wr_steps r))) else set (completed_ids (wr_steps r)))"
    using comp by auto
  show "st_id s \<in> attempted_ids r \<longleftrightarrow> 0 < st_attempts s" unfolding in_attempted_ids using s others by metis
qed

lemma follows_step:
  assumes wf: "wf_run r" and s: "s \<in> set (wr_steps r)" and i: "ev_step_id e = Some (st_id s)"
    and a: "apply_step_event r s e n p = Inr s'" and fm: "follows r m"
    and p: "payload_model p = Some (ev_event_type e)" and t: "timeline_payload repr run e x p m = Inr m'"
    and r': "r' = r\<lparr>wr_steps := update_where (\<lambda>x. st_id x = st_id s) (\<lambda>_. s') (wr_steps r)\<rparr>"
  shows "follows r' m'"
proof -
  note total = step_event_sums(1) [OF wf s a r'] and att' = step_event_sums(2) [OF wf s a r']
    and comp' = step_event_sums(3) [OF wf s a r'] and mem = step_event_sums(4) [OF wf s a r']
  have ok: "fields_ok s" using wf s by (simp add: wf_run_def)
  have fm': "total_attempts r = int (tm_attempts m)" "dom (tm_first_attempt_at m) = attempted_ids r"
    "dom (tm_step_duration_ms m) = set (completed_ids (wr_steps r))" "0 \<le> tm_planned_wait_ms m"
    using fm by (simp_all add: follows_def)
  have same: "insert (st_id s) (attempted_ids r) = attempted_ids r" if "0 < st_attempts s"
    using mem that by (simp add: insert_absorb)
  from a show ?thesis
  proof (cases rule: apply_step_event_cases)
    case start
    then have "ev_event_type e = STEP_ATTEMPT_STARTED" using p by auto
    with t start obtain x' where "m' = with_entry x' (set_first_attempt e (m\<lparr>tm_attempts := tm_attempts m + 1\<rparr>))"
      by (auto simp: timeline_payload_def)
    moreover have "0 \<le> st_attempts s" using ok by (simp add: fields_ok_def)
    ultimately show ?thesis
      using start(1,3) fm' total att' comp' by (simp add: follows_def start_attempt_def dom_first_attempt [OF i])
  next
    case (retry er nx)
    then have "ev_event_type e = STEP_RETRY_SCHEDULED" using p by auto
    with t retry obtain x' w where "m' = with_entry x' (m\<lparr>tm_retries := tm_retries m + 1,
        tm_planned_wait_ms := tm_planned_wait_ms m + max 0 w\<rparr>)"
      by (auto simp: timeline_payload_def Let_def)
    moreover have "0 < st_attempts s" using ok retry(3) by (simp add: fields_ok_def)
    ultimately show ?thesis
      using retry(1) fm' total att' comp' same by (simp add: follows_def schedule_step_retry_def)
  next
    case (completed out)
    then have "ev_event_type e = STEP_COMPLETED_EVENT" using p by auto
    with t completed obtain x' where "m' = with_entry x' (set_duration e m)"
      by (auto simp: timeline_payload_def)
    moreover have "0 < st_attempts s" using ok completed(3) by (simp add: fields_ok_def)
    ultimately show ?thesis
      using completed(1) fm' total att' comp' same mem by (simp add: follows_def finish_step_def dom_duration [OF i])
  next
    case (failed er)
    then have "ev_event_type e = STEP_FAILED_EVENT" using p by auto
    with t failed obtain x' where "m' = with_entry x' m" by (auto simp: timeline_payload_def)
    moreover have "0 < st_attempts s" using ok failed(3) by (simp add: fields_ok_def)
    ultimately show ?thesis
      using failed(1) fm' total att' comp' same by (simp add: follows_def mark_step_failed_def)
  qed
qed

text \<open>A parsed event always has its round, which adds its entry.\<close>

lemma timeline_round:
  assumes "payload_model p = Some (ev_event_type e)"
  shows "\<exists>m'. timeline_payload repr run e x p m = Inr m' \<and>
    map te_sequence (tm_entries m') = map te_sequence (tm_entries m) @ [te_sequence x] \<and>
    tm_retries m' = tm_retries m + (if ev_event_type e = STEP_RETRY_SCHEDULED then 1 else 0)"
  using assms by (cases p; cases "ev_event_type e"; simp add: timeline_payload_def Let_def)

lemma follows_same:
  assumes "follows r m" and "wr_steps r' = wr_steps r" and "timeline_payload repr run e x p m = Inr m'"
    and "ev_event_type e = WORKFLOW_RUN_COMPLETED \<or> ev_event_type e = WORKFLOW_RUN_FAILED"
  shows "follows r' m'"
proof -
  obtain y where "m' = with_entry y m" using assms(3,4) by (auto simp: timeline_payload_def)
  with assms(1,2) show ?thesis by (simp add: follows_def total_attempts_def attempted_ids_def)
qed

lemma follows_event:
  assumes a: "apply_event run_id (Some r) n e = Inr r'" and wf: "wf_run r" and m: "follows r m"
    and t: "timeline_event repr run origin e m = Inr m'"
  shows "follows r' m'"
proof -
  note hd = apply_event_payload [OF a]
  have t: "timeline_payload repr run e (base_entry run origin e) (ev_payload e) m = Inr m'"
    using t hd(3) by (simp add: timeline_event_def parse_payload_def)
  from hd(4) show ?thesis
  proof (cases rule: apply_payload_cases)
    case (created name defs)
    then show ?thesis by (simp add: apply_created_def)
  next
    case (completed q)
    then show ?thesis
      using hd(3) by (intro follows_same [OF m _ t]) (auto simp: apply_run_completed_def split: if_splits)
  next
    case (failed q j er)
    then show ?thesis
      using hd(3) by (intro follows_same [OF m _ t])
        (auto simp: apply_run_failed_def rbind_Inr_iff split: if_splits)
  next
    case (step q)
    have "distinct (step_ids r)" using wf by (simp add: wf_run_def)
    with step obtain j k s s' where *: "ev_step_id e = Some j" "s \<in> set (wr_steps r)" "st_id s = j"
      "apply_step_event r s e k (ev_payload e) = Inr s'"
      "r' = r\<lparr>wr_steps := update_where (\<lambda>x. st_id x = j) (\<lambda>_. s') (wr_steps r)\<rparr>"
      by (auto elim: apply_step_payload_elim)
    then show ?thesis using follows_step [OF wf *(2) _ *(4) m hd(3) t] by simp
  qed
qed

lemma follows_created:
  assumes a: "apply_event run_id None n e = Inr r"
    and t: "timeline_event repr run origin e timeline_start = Inr m'"
  shows "follows r m'"
proof -
  note hd = apply_event_payload [OF a]
  from hd(4) obtain name defs where p: "ev_payload e = WorkflowRunCreatedPayload name defs"
    and r: "r = new_run run_id (ev_occurred_at e) name defs"
    by (cases rule: apply_payload_cases) (auto simp: apply_created_def rbind_Inr_iff split: if_splits)
  then have "ev_event_type e = WORKFLOW_RUN_CREATED" using hd(3) by simp
  then obtain x where "m' = with_entry x timeline_start"
    using t hd(3) by (auto simp: timeline_event_def parse_payload_def timeline_payload_def)
  then show ?thesis
    by (auto simp: follows_def r new_run_def timeline_start_def total_attempts_def attempted_ids_def
        completed_ids_def comp_def new_step_def)
qed

lemma apply_event_typed:
  "apply_event run_id r n e = Inr r' \<Longrightarrow> payload_model (ev_payload e) = Some (ev_event_type e)"
  by (rule apply_event_payload(3))

text \<open>The events of a history that folds: the loop ends, with one entry per event.\<close>

definition retry_event :: "workflow_run_event \<Rightarrow> bool" where
  "retry_event e \<longleftrightarrow> ev_event_type e = STEP_RETRY_SCHEDULED"

lemma timeline_events_total:
  assumes "\<forall>e \<in> set es. payload_model (ev_payload e) = Some (ev_event_type e)"
  shows "\<exists>m'. timeline_events repr run origin es m = Inr m' \<and>
    map te_sequence (tm_entries m') = map te_sequence (tm_entries m) @ map ev_sequence es \<and>
    tm_retries m' = tm_retries m + length (filter retry_event es)"
  using assms
proof (induction es arbitrary: m)
  case Nil
  then show ?case by simp
next
  case (Cons e es)
  from Cons.prems have "payload_model (ev_payload e) = Some (ev_event_type e)" by simp
  with timeline_round [OF this, of repr run "base_entry run origin e" m] obtain q where
    q: "timeline_event repr run origin e m = Inr q"
      "map te_sequence (tm_entries q) = map te_sequence (tm_entries m) @ [ev_sequence e]"
      "tm_retries q = tm_retries m + (if retry_event e then 1 else 0)"
    by (auto simp: timeline_event_def parse_payload_def base_entry_def retry_event_def)
  from Cons.IH [of q] Cons.prems obtain m' where "timeline_events repr run origin es q = Inr m'"
    "map te_sequence (tm_entries m') = map te_sequence (tm_entries q) @ map ev_sequence es"
    "tm_retries m' = tm_retries q + length (filter retry_event es)" by auto
  with q show ?case by (intro exI [of _ m']) simp
qed

lemma fold_events_typed:
  "fold_events run_id r n es = Inr r' \<Longrightarrow> e \<in> set es \<Longrightarrow> payload_model (ev_payload e) = Some (ev_event_type e)"
  by (induction es arbitrary: r n) (auto simp: rbind_Inr_iff dest: apply_event_typed)

lemma fold_events_follow:
  assumes "fold_events run_id (Some r) n es = Inr (Some r')" and "wf_run r" and "follows r m"
    and "timeline_events repr run origin es m = Inr m'"
  shows "follows r' m'"
  using assms
proof (induction es arbitrary: r n m)
  case Nil
  then show ?case by simp
next
  case (Cons e es)
  then obtain q where q: "apply_event run_id (Some r) n e = Inr q"
    and f: "fold_events run_id (Some q) (n + 1) es = Inr (Some r')"
    by (auto simp: rbind_Inr_iff)
  from Cons.prems(4) obtain l where l: "timeline_event repr run origin e m = Inr l"
    and ls: "timeline_events repr run origin es l = Inr m'" by (auto simp: rbind_Inr_iff)
  have "wf_run q" using wf_apply_payload [OF apply_event_payload(4) [OF q]] Cons.prems(2) by simp
  moreover have "follows q l" using follows_event [OF q Cons.prems(2,3) l] .
  ultimately show ?case using Cons.IH [OF f _ _ ls] by simp
qed

lemma first_event_extends:
  assumes "reduce_workflow_run_history es = Inr run"
  shows "wr_run_id run = ev_run_id (hd es)"
proof -
  from reduce_fold [OF assms] obtain e es' r where es: "es = e # es'"
    and a: "apply_event (ev_run_id e) None 1 e = Inr r"
    and f: "fold_events (ev_run_id e) (Some r) 2 es' = Inr (Some run)"
    by (cases es) (auto simp: rbind_Inr_iff)
  have "wf_run r" using wf_apply_payload [OF apply_event_payload(4) [OF a]] by simp
  from fold_events_extends(1) [OF f this] first_event_creates(3) [OF a] show ?thesis
    by (simp add: es extends_def)
qed

lemma timeline_of_run:
  assumes "reduce_workflow_run_history es = Inr run"
  obtains m where
    "timeline_events repr run (ev_occurred_at (hd es)) es timeline_start = Inr m"
    "follows run m" "map te_sequence (tm_entries m) = map ev_sequence es"
    "tm_retries m = length (filter retry_event es)"
proof -
  from reduce_fold [OF assms] obtain e es' r where es: "es = e # es'"
    and a: "apply_event (ev_run_id e) None 1 e = Inr r"
    and f: "fold_events (ev_run_id e) (Some r) 2 es' = Inr (Some run)"
    and fold: "fold_events (ev_run_id e) None 1 es = Inr (Some run)"
    by (cases es) (auto simp: rbind_Inr_iff)
  have "\<forall>e \<in> set es. payload_model (ev_payload e) = Some (ev_event_type e)"
    using fold_events_typed [OF fold] by blast
  from timeline_events_total [OF this, of repr run "ev_occurred_at (hd es)" timeline_start]
  obtain m where m: "timeline_events repr run (ev_occurred_at (hd es)) es timeline_start = Inr m"
    "map te_sequence (tm_entries m) = map ev_sequence es" "tm_retries m = length (filter retry_event es)"
    by (auto simp: timeline_start_def)
  from m(1) obtain l where l: "timeline_event repr run (ev_occurred_at (hd es)) e timeline_start = Inr l"
    "timeline_events repr run (ev_occurred_at (hd es)) es' l = Inr m" by (auto simp: es rbind_Inr_iff)
  have "wf_run r" using wf_apply_payload [OF apply_event_payload(4) [OF a]] by simp
  from fold_events_follow [OF f this follows_created [OF a l(1)] l(2)] m show thesis by (intro that)
qed

lemma build_timeline_Inr:
  assumes "reduce_workflow_run_history es = Inr run"
  obtains m where "follows run m" "map te_sequence (tm_entries m) = map ev_sequence es"
    "tm_retries m = length (filter retry_event es)"
    "build_timeline repr es = Inr \<lparr>tl_run_id = wr_run_id run, tl_entries = tm_entries m,
       tl_summary = \<lparr>ts_status = wr_status run,
         ts_duration_ms = milliseconds (ev_occurred_at (last es) - ev_occurred_at (hd es)),
         ts_attempts = tm_attempts m, ts_retries = tm_retries m,
         ts_planned_wait_ms = tm_planned_wait_ms m, ts_step_duration_ms = tm_step_duration_ms m\<rparr>\<rparr>"
proof -
  from timeline_of_run [OF assms, of repr] obtain m where
    m: "timeline_events repr run (ev_occurred_at (hd es)) es timeline_start = Inr m"
    "follows run m" "map te_sequence (tm_entries m) = map ev_sequence es"
    "tm_retries m = length (filter retry_event es)" by metis
  obtain e es' where es: "es = e # es'" using reduce_fold(1) [OF assms] by (cases es) auto
  show thesis
    using m(1) assms first_event_extends [OF assms]
    by (intro that [OF m(2-4)]) (simp add: build_timeline_def es del: timeline_events.simps)
qed

text \<open>A timeline is built for exactly the histories the reducer accepts: nothing but the
  reducer's own error (or an empty history) makes it fail, so no payload has an unexpected
  class and none fails to parse a second time.\<close>

theorem timeline_errors:
  "build_timeline repr es = Inl x \<longleftrightarrow>
    (\<exists>e. reduce_workflow_run_history es = Inl e \<and> x = (if es = [] then NoEvents else BadHistory e))"
proof (cases "reduce_workflow_run_history es")
  case (Inl e)
  then show ?thesis by (cases es) (auto simp: build_timeline_def reduce_workflow_run_history_def)
next
  case (Inr run)
  from build_timeline_Inr [OF Inr, of repr] Inr show ?thesis by (metis sum.distinct(1))
qed

text \<open>C30: the timeline agrees with the run the reducer computes. It has one entry per event,
  in the order of the sequence numbers, and its summary shows the run's status, as many
  attempts as the steps record together, the retries of the history, and a duration for
  exactly the completed steps; the planned wait is never negative.\<close>

theorem timeline_agrees:
  assumes "build_timeline repr es = Inr t"
  shows "\<exists>run. reduce_workflow_run_history es = Inr run \<and> tl_run_id t = wr_run_id run \<and>
    map te_sequence (tl_entries t) = map (\<lambda>k. 1 + int k) [0..<length es] \<and>
    ts_status (tl_summary t) = wr_status run \<and>
    int (ts_attempts (tl_summary t)) = sum_list (map st_attempts (wr_steps run)) \<and>
    ts_retries (tl_summary t) = length (filter (\<lambda>e. ev_event_type e = STEP_RETRY_SCHEDULED) es) \<and>
    dom (ts_step_duration_ms (tl_summary t)) = {st_id s |s. s \<in> set (wr_steps run) \<and> st_status s = STEP_COMPLETED} \<and>
    0 \<le> ts_planned_wait_ms (tl_summary t)"
proof -
  obtain run where run: "reduce_workflow_run_history es = Inr run"
    using assms by (auto simp: build_timeline_def split: list.splits sum.splits)
  from build_timeline_Inr [OF run, of repr] obtain m where m: "follows run m"
    "map te_sequence (tm_entries m) = map ev_sequence es" "tm_retries m = length (filter retry_event es)"
    "build_timeline repr es = Inr \<lparr>tl_run_id = wr_run_id run, tl_entries = tm_entries m,
       tl_summary = \<lparr>ts_status = wr_status run,
         ts_duration_ms = milliseconds (ev_occurred_at (last es) - ev_occurred_at (hd es)),
         ts_attempts = tm_attempts m, ts_retries = tm_retries m,
         ts_planned_wait_ms = tm_planned_wait_ms m, ts_step_duration_ms = tm_step_duration_ms m\<rparr>\<rparr>" by metis
  have "map ev_sequence es = map (\<lambda>k. 1 + int k) [0..<length es]"
    using fold_events_header(1) [OF reduce_fold(2) [OF run]] .
  moreover have "set (completed_ids (wr_steps run)) = {st_id s |s. s \<in> set (wr_steps run) \<and> st_status s = STEP_COMPLETED}"
    by (auto simp: completed_ids_def)
  ultimately show ?thesis
    using run m assms by (simp add: follows_def total_attempts_def retry_event_def [abs_def])
qed

section \<open>Printed durations\<close>

text \<open>The last three decimal digits.\<close>

definition three_digits :: "int \<Rightarrow> string" where
  "three_digits n = show_int (n div 100 mod 10) @ show_int (n div 10 mod 10) @ show_int (n mod 10)"

lemma thousandths_survive:
  assumes "1000 \<le> ms" and "ms \<le> 2 ^ 50"
  shows "round_half_even (to_double (of_int ms / 1000) * 1000) = ms"
proof -
  have ms: "1000 \<le> (of_int ms :: rat)" "(of_int ms :: rat) \<le> 2 ^ 50"
  proof -
    show "1000 \<le> (of_int ms :: rat)" using assms(1) by (metis of_int_le_iff of_int_numeral)
    have "of_int ms \<le> (of_int (2 ^ 50) :: rat)" using assms(2) by (simp only: of_int_le_iff)
    then show "(of_int ms :: rat) \<le> 2 ^ 50" by simp
  qed
  let ?x = "of_int ms / 1000 :: rat"
  have "1 / 2 ^ 1000 \<le> (1 :: rat)" by simp
  then have "1 / 2 ^ 1000 \<le> \<bar>?x\<bar>" using ms(1) by linarith
  from to_double_error [OF this] have "\<bar>to_double ?x - ?x\<bar> \<le> \<bar>?x\<bar> / 2 ^ 53" .
  also have "\<dots> \<le> 1 / 8000" using ms by simp
  finally have "\<bar>to_double ?x * 1000 - of_int ms\<bar> < 1 / 2" by linarith
  then show ?thesis by (rule round_half_even_near)
qed

text \<open>Printed durations are exact although they pass through a floating-point division:
  up to 2^50 milliseconds, more than any two datetimes are apart, the text is the whole
  milliseconds below a second, and otherwise the seconds and the last three digits as decimals.\<close>

theorem format_duration_exact:
  assumes "ms \<le> 2 ^ 50"
  shows "format_duration ms = (if ms < 1000 then show_int ms @ ''ms''
    else show_int (ms div 1000) @ ''.'' @ three_digits ms @ ''s'')"
proof (cases "ms < 1000")
  case False
  have r: "round_half_even (to_double (of_int ms / 1000) * 1000) = ms"
    using thousandths_survive [OF _ assms] False by linarith
  have pos: "\<bar>ms\<bar> = ms" "\<not> ms < 0" using False by linarith+
  have "fixed3 (to_double (of_int ms / 1000)) = show_int (ms div 1000) @ ''.'' @ three_digits ms"
    unfolding fixed3_def r Let_def three_digits_def pos(1) using pos(2)
    by (simp only: if_False append.append_Nil)
  then show ?thesis using False by (simp only: format_duration_def if_False append_assoc)
qed (simp add: format_duration_def)

end
