(* ===== verification/Api.thy ===== *)
theory Api
  imports Recovery Timeline
begin

text \<open>
  \<open>crashsafe/api.py\<close>: the HTTP handlers over the storage. A request is what the framework hands
  to a handler after routing and parsing; its validation of the declared types is the
  check of the definition and of the limit. Any other exception of a handler is a 500.
\<close>

section \<open>Handlers\<close>

datatype api_request =
    PostRun workflow_definition
  | GetRun string
  | ListRuns "int option"
  | GetEvents string
  | GetTimeline string
  | GetHealth

datatype api_body =
    RunBody workflow_run
  | RunsBody "workflow_run list"
  | EventsBody "workflow_run_event list"
  | TimelineBody timeline
  | HealthBody

datatype api_response = Created api_body | Ok api_body | NotFound | Unprocessable | ServerError

definition respond :: "('a \<Rightarrow> api_response) \<Rightarrow> storage_error + 'a \<Rightarrow> api_response" where
  "respond f x = (case x of
     Inl e \<Rightarrow> (case e of WorkflowRunNotFoundError r \<Rightarrow> NotFound | _ \<Rightarrow> ServerError)
   | Inr y \<Rightarrow> f y)"

definition post_run :: "string \<Rightarrow> timestamp \<Rightarrow> string \<Rightarrow> workflow_definition \<Rightarrow> db \<Rightarrow> api_response \<times> db" where
  "post_run uuid now tool_key wd d =
     (if \<not> accepted wd then (Unprocessable, d)
      else (case create_workflow_run uuid now wd None tool_key d of
          (Inr run, d') \<Rightarrow> (Created (RunBody run), d') | (Inl e, d') \<Rightarrow> (ServerError, d')))"

definition list_runs :: "int option \<Rightarrow> db \<Rightarrow> api_response" where
  "list_runs limit d =
     (let n = (case limit of None \<Rightarrow> 100 | Some n \<Rightarrow> n) in
      if n < 1 \<or> 500 < n then Unprocessable
      else (case list_workflow_runs (nat n) d of Inr runs \<Rightarrow> Ok (RunsBody runs) | Inl e \<Rightarrow> ServerError))"

definition run_timeline :: "(json \<Rightarrow> string) \<Rightarrow> string \<Rightarrow> db \<Rightarrow> api_response" where
  "run_timeline repr r d = respond (\<lambda>es.
     (case build_timeline repr es of Inr t \<Rightarrow> Ok (TimelineBody t) | Inl e \<Rightarrow> ServerError)) (list_events r d)"

text \<open>The application: \<open>uuid\<close> and \<open>now\<close> are drawn by \<open>create_workflow_run\<close>.\<close>

fun api :: "(json \<Rightarrow> string) \<Rightarrow> string \<Rightarrow> timestamp \<Rightarrow> string \<Rightarrow> api_request \<Rightarrow> db \<Rightarrow> api_response \<times> db" where
  "api repr uuid now tool_key (PostRun wd) d = post_run uuid now tool_key wd d"
| "api repr uuid now tool_key (GetRun r) d = (respond (\<lambda>run. Ok (RunBody run)) (get_workflow_run r d), d)"
| "api repr uuid now tool_key (ListRuns limit) d = (list_runs limit d, d)"
| "api repr uuid now tool_key (GetEvents r) d = (respond (\<lambda>es. Ok (EventsBody es)) (list_events r d), d)"
| "api repr uuid now tool_key (GetTimeline r) d = (run_timeline repr r d, d)"
| "api repr uuid now tool_key GetHealth d = (Ok HealthBody, d)"

section \<open>Reads of a sound database\<close>

lemma run_row_mem: "r \<in> run_ids d \<longleftrightarrow> run_row_of d r \<noteq> None"
  by (simp add: run_row_of_None_ids)

lemma get_run_mem: "r \<in> run_ids d \<Longrightarrow> \<exists>run. get_workflow_run r d = Inr run"
  by (auto simp: get_workflow_run_def run_row_mem split: option.splits)

lemma get_run_unknown: "r \<notin> run_ids d \<Longrightarrow> get_workflow_run r d = Inl (WorkflowRunNotFoundError r)"
  by (auto simp: get_workflow_run_def run_row_mem split: option.splits)

lemma list_events_unknown: "db_ok d \<Longrightarrow> r \<notin> run_ids d \<Longrightarrow> list_events r d = Inl (WorkflowRunNotFoundError r)"
proof -
  assume "db_ok d" and "r \<notin> run_ids d"
  then have "run_events d r = []" using db_okD(4) [of d] by (auto simp: run_events_def filter_empty_conv)
  then show ?thesis by (simp add: list_events_def flip: run_events_def)
qed

lemma read_known:
  assumes "db_ok d" and "r \<in> run_ids d"
  obtains run where "get_workflow_run r d = Inr run" "list_events r d = Inr (run_events d r)"
    "reduce_workflow_run_history (run_events d r) = Inr run"
proof -
  from db_okD(1) [OF assms] obtain run where "view d r = Some run"
    "reduce_workflow_run_history (run_events d r) = Inr run" by (auto simp: consistent_def)
  then show thesis using that list_events_consistent by (simp add: get_of_view)
qed

lemma collect_all: "\<forall>x \<in> set xs. \<exists>y. x = Inr y \<Longrightarrow> \<exists>ys. collect xs = Inr ys"
  by (induction xs) auto

lemma list_runs_ok: "\<exists>runs. list_workflow_runs n d = Inr runs"
proof -
  have "\<forall>w \<in> set (take n (sort_key (\<lambda>w. - rr_created_at w) (db_runs d))). w \<in> set (db_runs d)"
    using in_set_takeD [where n = n and xs = "sort_key (\<lambda>w. - rr_created_at w) (db_runs d)"] by simp
  then have "\<forall>w \<in> set (take n (sort_key (\<lambda>w. - rr_created_at w) (db_runs d))).
      \<exists>run. get_workflow_run (rr_run_id w) d = Inr run"
    using get_run_mem by (auto simp: run_ids_def)
  then show ?thesis unfolding list_workflow_runs_def by (intro collect_all) auto
qed

section \<open>Responses\<close>

fun asks_for :: "api_request \<Rightarrow> string option" where
  "asks_for (GetRun r) = Some r"
| "asks_for (GetEvents r) = Some r"
| "asks_for (GetTimeline r) = Some r"
| "asks_for _ = None"

fun is_post :: "api_request \<Rightarrow> bool" where
  "is_post (PostRun wd) \<longleftrightarrow> True"
| "is_post _ \<longleftrightarrow> False"

lemma timeline_known:
  assumes "reduce_workflow_run_history es = Inr run"
  obtains t where "build_timeline repr es = Inr t" "tl_run_id t = wr_run_id run" "ts_status (tl_summary t) = wr_status run"
  using build_timeline_Inr [OF assms, of repr] by (metis timeline.select_convs timeline_summary.select_convs(1))

lemma read_response:
  assumes "db_ok d" and "asks_for q = Some r" and "api repr uuid now tool_key q d = (resp, d')"
  shows "resp \<noteq> ServerError \<and> (resp = NotFound \<longleftrightarrow> r \<notin> run_ids d) \<and> d' = d"
proof (cases "r \<in> run_ids d")
  case True
  from read_known [OF assms(1) True] obtain run where run: "get_workflow_run r d = Inr run"
    "list_events r d = Inr (run_events d r)" "reduce_workflow_run_history (run_events d r) = Inr run" .
  from timeline_known [OF run(3), of repr] obtain t where "build_timeline repr (run_events d r) = Inr t" .
  then show ?thesis
    using assms(2,3) run(1,2) True by (cases q) (auto simp: respond_def run_timeline_def)
next
  case False
  then show ?thesis
    using assms get_run_unknown list_events_unknown by (cases q) (auto simp: respond_def run_timeline_def)
qed

text \<open>C33: the API never answers 500 on a database the storage has written. Reading handlers
  change nothing, answer 404 for exactly the runs that do not exist, and nothing else makes
  them fail: every stored run has its events and its timeline. An accepted submission under
  a fresh UUID is answered 201 and leaves a sound database that holds it; a refused one
  leaves no trace.\<close>

theorem api_never_fails:
  assumes "db_ok d" and "uuid_ok uuid" and "uuid \<notin> run_ids d"
    and "api repr uuid now tool_key q d = (resp, d')"
  shows "resp \<noteq> ServerError \<and> db_ok d' \<and> (is_post q \<or> d' = d) \<and>
    (resp = NotFound \<longleftrightarrow> (\<exists>r. asks_for q = Some r \<and> r \<notin> run_ids d)) \<and>
    ((\<exists>b. resp = Created b) \<longleftrightarrow> (\<exists>wd. q = PostRun wd \<and> accepted wd)) \<and>
    (\<forall>run. resp = Created (RunBody run) \<longrightarrow> api repr uuid now tool_key (GetRun (wr_run_id run)) d' = (Ok (RunBody run), d'))"
proof (cases "asks_for q")
  case (Some r)
  from read_response [OF assms(1) Some assms(4)] Some show ?thesis
    using assms(1,4) by (cases q) (auto simp: respond_def run_timeline_def split: sum.splits storage_error.splits)
next
  case None
  then consider (post) wd where "q = PostRun wd" | (listing) l where "q = ListRuns l" | (health) "q = GetHealth"
    by (cases q) auto
  then show ?thesis
  proof cases
    case post
    show ?thesis
    proof (cases "accepted wd")
      case True
      have "wd_steps wd \<noteq> []" "sound_graph (wd_steps wd)" using accepted_sound [OF True] by auto
      from create_body_ok [OF assms(1,3,2) this, of now "selected_tool None tool_key"]
      obtain d1 where d1: "create_workflow_run_body uuid now (selected_tool None tool_key) wd d = Inr ((), d1)"
        "view d1 uuid = Some (created_run uuid now (selected_tool None tool_key) wd)" "db_ok d1" by metis
      then have "api repr uuid now tool_key q d =
          (Created (RunBody (created_run uuid now (selected_tool None tool_key) wd)), d1)"
        using True by (simp add: post post_run_def create_workflow_run_def transaction_def get_of_view)
      moreover have "wr_run_id (created_run uuid now (selected_tool None tool_key) wd) = uuid"
        by (simp add: new_run_def)
      ultimately show ?thesis
        using assms(4) d1(2,3) True by (auto simp: post get_of_view respond_def)
    next
      case False
      then show ?thesis using assms(1,4) by (auto simp: post post_run_def)
    qed
  next
    case listing
    obtain runs where "list_workflow_runs (nat (case l of None \<Rightarrow> 100 | Some n \<Rightarrow> n)) d = Inr runs"
      using list_runs_ok by blast
    then have "list_runs l d = Unprocessable \<or> list_runs l d = Ok (RunsBody runs)"
      by (simp add: list_runs_def Let_def)
    then show ?thesis using assms(1,4) by (auto simp: listing)
  next
    case health
    then show ?thesis using assms(1,4) by auto
  qed
qed

text \<open>The three views of a run that the API serves agree: the served events reduce to the
  served run, and the served timeline is built from them and shows the run's status.\<close>

theorem api_views_agree:
  assumes "db_ok d" and "api repr uuid now tool_key (GetRun r) d = (Ok (RunBody run), d)"
    and "api repr uuid now tool_key (GetEvents r) d = (Ok (EventsBody es), d)"
    and "api repr uuid now tool_key (GetTimeline r) d = (Ok (TimelineBody t), d)"
  shows "reduce_workflow_run_history es = Inr run \<and> build_timeline repr es = Inr t \<and>
    tl_run_id t = r \<and> ts_status (tl_summary t) = wr_status run"
proof -
  have "r \<in> run_ids d"
    using assms(2) get_run_unknown [of r d] by (cases "r \<in> run_ids d") (simp_all add: respond_def)
  from read_known [OF assms(1) this] obtain run' where run': "get_workflow_run r d = Inr run'"
    "list_events r d = Inr (run_events d r)" "reduce_workflow_run_history (run_events d r) = Inr run'" .
  from timeline_known [OF run'(3), of repr] obtain t' where t': "build_timeline repr (run_events d r) = Inr t'"
    "tl_run_id t' = wr_run_id run'" "ts_status (tl_summary t') = wr_status run'" .
  have "wr_run_id run' = r" using run'(1) by (auto simp: get_workflow_run_def workflow_run_from_rows_def
      dest: run_row_of_Some split: option.splits)
  with run' t' assms(2-4) show ?thesis by (simp add: respond_def run_timeline_def)
qed

end
