(* ===== verification/Numbers.thy ===== *)
theory Numbers
  imports Engine Milliseconds
begin

text \<open>
  Python's \<open>int(text)\<close> and \<open>float(text)\<close> on ASCII text, which the settings and the process
  names are read with. A zero has no sign here. \<open>int(str(i))\<close> is \<open>i\<close> again.
\<close>

section \<open>Parsing\<close>

definition is_space :: "char \<Rightarrow> bool" where
  "is_space c \<longleftrightarrow> (let n = of_char c :: nat in 9 \<le> n \<and> n \<le> 13 \<or> 28 \<le> n \<and> n \<le> 32)"

definition strip :: "string \<Rightarrow> string" where
  "strip s = rev (dropWhile is_space (rev (dropWhile is_space s)))"

definition is_digit :: "char \<Rightarrow> bool" where
  "is_digit c \<longleftrightarrow> (let n = of_char c :: nat in 48 \<le> n \<and> n \<le> 57)"

definition digit_value :: "char \<Rightarrow> nat" where
  "digit_value c = of_char c - 48"

text \<open>Single underscores may stand between digits.\<close>

fun drop_underscores :: "string \<Rightarrow> string option" where
  "drop_underscores [] = Some []"
| "drop_underscores [c] = (if c = CHR ''_'' then None else Some [c])"
| "drop_underscores (c # d # cs) =
     (if c = CHR ''_'' then None
      else if d = CHR ''_''
      then (case cs of
          e # _ \<Rightarrow> if is_digit c \<and> is_digit e then map_option ((#) c) (drop_underscores cs) else None
        | [] \<Rightarrow> None)
      else map_option ((#) c) (drop_underscores (d # cs)))"

fun nat_of_digits :: "nat \<Rightarrow> string \<Rightarrow> nat option" where
  "nat_of_digits n [] = Some n"
| "nat_of_digits n (c # cs) = (if is_digit c then nat_of_digits (10 * n + digit_value c) cs else None)"

definition split_sign :: "string \<Rightarrow> bool \<times> string" where
  "split_sign s = (case s of
     [] \<Rightarrow> (False, [])
   | c # cs \<Rightarrow> if c = CHR ''-'' then (True, cs) else if c = CHR ''+'' then (False, cs) else (False, s))"

text \<open>\<open>int()\<close> reads at most 4300 digits.\<close>

definition int_of_text :: "string \<Rightarrow> int option" where
  "int_of_text text =
     (case split_sign (strip text) of (neg, body) \<Rightarrow>
        (case drop_underscores body of
           None \<Rightarrow> None
         | Some ds \<Rightarrow>
             if ds = [] \<or> 4300 < length ds then None
             else map_option (\<lambda>n. if neg then - int n else int n) (nat_of_digits 0 ds)))"

definition lower :: "char \<Rightarrow> char" where
  "lower c = (let n = of_char c :: nat in if 65 \<le> n \<and> n \<le> 90 then char_of (n + 32) else c)"

definition power_of_ten :: "int \<Rightarrow> rat" where
  "power_of_ten k = (if 0 \<le> k then 10 ^ nat k else 1 / 10 ^ nat (- k))"

definition split_at :: "(char \<Rightarrow> bool) \<Rightarrow> string \<Rightarrow> string \<times> string option" where
  "split_at P s = (case dropWhile (\<lambda>c. \<not> P c) s of
     [] \<Rightarrow> (s, None) | _ # rest \<Rightarrow> (takeWhile (\<lambda>c. \<not> P c) s, Some rest))"

text \<open>\<open>digits [. digits] [e [sign] digits]\<close> with a digit before the exponent.\<close>

definition exponent_of :: "string option \<Rightarrow> int option" where
  "exponent_of text = (case text of
     None \<Rightarrow> Some 0
   | Some s \<Rightarrow> (case split_sign s of (neg, ds) \<Rightarrow>
       if ds = [] then None
       else map_option (\<lambda>n. if neg then - int n else int n) (nat_of_digits 0 ds)))"

definition decimal_of_text :: "string \<Rightarrow> rat option" where
  "decimal_of_text s =
     (case split_at (\<lambda>c. lower c = CHR ''e'') s of (mantissa, e) \<Rightarrow>
      case split_at (\<lambda>c. c = CHR ''.'') mantissa of (whole, part) \<Rightarrow>
        let fraction = (case part of None \<Rightarrow> [] | Some f \<Rightarrow> f) in
        if whole @ fraction = [] then None
        else (case nat_of_digits 0 (whole @ fraction) of
            None \<Rightarrow> None
          | Some n \<Rightarrow> map_option (\<lambda>k. of_nat n * power_of_ten (k - int (length fraction))) (exponent_of e)))"

definition float_of_text :: "string \<Rightarrow> py_float option" where
  "float_of_text text =
     (case drop_underscores (strip text) of
        None \<Rightarrow> None
      | Some s \<Rightarrow>
          (case split_sign s of (neg, body) \<Rightarrow>
             if map lower body = ''inf'' \<or> map lower body = ''infinity''
             then Some (if neg then NegInf else PosInf)
             else if map lower body = ''nan'' then Some NaN
             else map_option (\<lambda>x. in_float_range (to_double (if neg then - x else x))) (decimal_of_text body)))"

section \<open>Reading a printed integer\<close>

lemma digit_char:
  assumes "n < 10"
  shows "is_digit (char_of (48 + n))" and "digit_value (char_of (48 + n)) = n"
    and "char_of (48 + n) \<noteq> CHR ''_''" and "\<not> is_space (char_of (48 + n))"
    and "char_of (48 + n) \<noteq> CHR ''-''" and "char_of (48 + n) \<noteq> CHR ''+''"
proof -
  have v: "of_char (char_of (48 + n) :: char) = 48 + n" using assms by (simp add: of_char_of)
  show "is_digit (char_of (48 + n))" "digit_value (char_of (48 + n)) = n" "\<not> is_space (char_of (48 + n))"
    using assms by (simp_all add: is_digit_def digit_value_def is_space_def v)
  show "char_of (48 + n) \<noteq> CHR ''_''" "char_of (48 + n) \<noteq> CHR ''-''" "char_of (48 + n) \<noteq> CHR ''+''"
    using v assms by (auto dest: arg_cong [where f = "of_char :: char \<Rightarrow> nat"])
qed

lemma nat_of_digits_snoc:
  "nat_of_digits a (xs @ [c]) = (case nat_of_digits a xs of
     None \<Rightarrow> None | Some n \<Rightarrow> if is_digit c then Some (10 * n + digit_value c) else None)"
  by (induction xs arbitrary: a) auto

lemma show_nat_digits: "\<forall>c \<in> set (show_nat n). is_digit c"
proof (induction n rule: show_nat.induct)
  case (1 n)
  then show ?case by (subst show_nat.simps) (auto simp: digit_char)
qed

lemma nat_of_show: "nat_of_digits 0 (show_nat n) = Some n"
proof (induction n rule: show_nat.induct)
  case (1 n)
  show ?case
  proof (cases "n < 10")
    case True
    then show ?thesis by (subst show_nat.simps) (simp add: digit_char)
  next
    case False
    then show ?thesis using 1 by (subst show_nat.simps) (simp add: nat_of_digits_snoc digit_char)
  qed
qed

lemma show_nat_nonempty: "show_nat n \<noteq> []"
  by (subst show_nat.simps) simp

lemma digit_facts:
  assumes "is_digit c"
  shows "c \<noteq> CHR ''_''" and "\<not> is_space c" and "c \<noteq> CHR ''-''" and "c \<noteq> CHR ''+''"
  using assms by (auto simp: is_digit_def is_space_def Let_def)

lemma drop_underscores_digits: "\<forall>c \<in> set s. c \<noteq> CHR ''_'' \<Longrightarrow> drop_underscores s = Some s"
  by (induction s rule: drop_underscores.induct) auto

lemma strip_none: "\<forall>c \<in> set s. \<not> is_space c \<Longrightarrow> strip s = s"
proof -
  assume a: "\<forall>c \<in> set s. \<not> is_space c"
  have none: "dropWhile is_space xs = xs" if "\<forall>c \<in> set xs. \<not> is_space c" for xs
    using that by (cases xs) auto
  from a have "dropWhile is_space s = s" "dropWhile is_space (rev s) = rev s" by (intro none, simp)+
  then show ?thesis by (simp add: strip_def)
qed

lemma int_of_show_nat:
  assumes "length (show_nat n) \<le> 4300"
  shows "int_of_text (show_nat n) = Some (int n)"
proof -
  note ds = show_nat_digits [of n]
  have "strip (show_nat n) = show_nat n" using ds digit_facts(2) by (intro strip_none) blast
  moreover have "split_sign (show_nat n) = (False, show_nat n)"
    using ds digit_facts(3,4) by (cases "show_nat n") (auto simp: split_sign_def)
  moreover have "drop_underscores (show_nat n) = Some (show_nat n)"
    using ds digit_facts(1) by (intro drop_underscores_digits) blast
  ultimately show ?thesis
    using assms by (simp add: int_of_text_def nat_of_show show_nat_nonempty)
qed

end
