(* ===== verification/Config.thy ===== *)
theory Config
  imports Numbers
begin

text \<open>
  \<open>crashsafe/config.py\<close>: one snapshot of the settings from the environment, and what its checks
  are worth to the leases. Paths are the expressions the code builds; the file system they
  are resolved against is not modelled.
\<close>

section \<open>Settings\<close>

datatype path = PathText string | Resolve path | Child path string

type_synonym environment = "string \<rightharpoonup> string"

record settings =
  se_state_dir :: path
  se_engine_db :: path
  se_ledger_db :: path
  se_tool_base_url :: string
  se_poll_interval :: py_float
  se_request_timeout :: py_float
  se_max_attempts :: int
  se_base_backoff :: py_float
  se_max_backoff :: py_float
  se_worker_count :: int
  se_lease_ttl :: py_float
  se_renew_interval :: py_float
  se_tool_key :: string

datatype config_error =
    InvalidInteger string
  | InvalidFloat string
  | WorkersTooFew
  | LeaseTtlNotPositive
  | RenewalInterval

definition getenv :: "environment \<Rightarrow> string \<Rightarrow> string \<Rightarrow> string" where
  "getenv env name standard = (case env name of None \<Rightarrow> standard | Some text \<Rightarrow> text)"

definition int_env :: "environment \<Rightarrow> string \<Rightarrow> string \<Rightarrow> config_error + int" where
  "int_env env name standard =
     (case int_of_text (getenv env name standard) of None \<Rightarrow> Inl (InvalidInteger name) | Some i \<Rightarrow> Inr i)"

definition float_env :: "environment \<Rightarrow> string \<Rightarrow> string \<Rightarrow> config_error + py_float" where
  "float_env env name standard =
     (case float_of_text (getenv env name standard) of None \<Rightarrow> Inl (InvalidFloat name) | Some x \<Rightarrow> Inr x)"

text \<open>\<open>os.getenv(a) or os.getenv(b)\<close>, an empty text counting as absent.\<close>

definition nonempty_env :: "environment \<Rightarrow> string \<Rightarrow> string option" where
  "nonempty_env env name = (case env name of None \<Rightarrow> None | Some text \<Rightarrow> if text = [] then None else Some text)"

definition ledger_path :: "environment \<Rightarrow> string option" where
  "ledger_path env = (case nonempty_env env ''CRASHSAFE_LEDGER_DB'' of
     Some text \<Rightarrow> Some text | None \<Rightarrow> nonempty_env env ''CRASHSAFE_TOOL_DB'')"

definition check_settings :: "int \<Rightarrow> py_float \<Rightarrow> py_float \<Rightarrow> config_error + unit" where
  "check_settings workers ttl renew =
     (if workers < 1 then Inl WorkersTooFew
      else if float_le ttl (Finite 0) then Inl LeaseTtlNotPositive
      else if float_le renew (Finite 0) \<or> float_le ttl renew then Inl RenewalInterval
      else Inr ())"

definition from_env :: "environment \<Rightarrow> config_error + settings" where
  "from_env env =
     (let state_dir = Resolve (PathText (getenv env ''CRASHSAFE_STATE_DIR'' ''.crashsafe'')) in
      rbind (int_env env ''CRASHSAFE_TOOL_PORT'' (show_int 8001)) (\<lambda>tool_port.
      rbind (int_env env ''CRASHSAFE_WORKERS'' (show_int 1)) (\<lambda>workers.
      rbind (float_env env ''CRASHSAFE_LEASE_TTL'' ''2.0'') (\<lambda>ttl.
      rbind (float_env env ''CRASHSAFE_LEASE_RENEW_INTERVAL'' ''0.5'') (\<lambda>renew.
      rbind (check_settings workers ttl renew) (\<lambda>_.
      rbind (float_env env ''CRASHSAFE_POLL_INTERVAL'' ''0.2'') (\<lambda>poll.
      rbind (float_env env ''CRASHSAFE_REQUEST_TIMEOUT'' ''10.0'') (\<lambda>timeout.
      rbind (int_env env ''CRASHSAFE_MAX_ATTEMPTS'' (show_int 8)) (\<lambda>max_attempts.
      rbind (float_env env ''CRASHSAFE_BASE_BACKOFF'' ''0.25'') (\<lambda>base.
      rbind (float_env env ''CRASHSAFE_MAX_BACKOFF'' ''10.0'') (\<lambda>limit.
        Inr \<lparr>se_state_dir = state_dir,
          se_engine_db = (case env ''CRASHSAFE_ENGINE_DB'' of
            None \<Rightarrow> Child state_dir ''engine.db'' | Some text \<Rightarrow> PathText text),
          se_ledger_db = (case ledger_path env of
            None \<Rightarrow> Child state_dir ''ledger.db'' | Some text \<Rightarrow> PathText text),
          se_tool_base_url = getenv env ''CRASHSAFE_TOOL_URL'' (''http://127.0.0.1:'' @ show_int tool_port),
          se_poll_interval = poll, se_request_timeout = timeout, se_max_attempts = max_attempts,
          se_base_backoff = base, se_max_backoff = limit, se_worker_count = workers,
          se_lease_ttl = ttl, se_renew_interval = renew,
          se_tool_key = getenv env ''CRASHSAFE_TOOL_KEY'' ''mock-tool''\<rparr>)))))))))))"

text \<open>The part of the settings the engine reads; \<open>FailureInjector\<close> reads the environment.\<close>

definition engine_settings_of :: "environment \<Rightarrow> settings \<Rightarrow> engine_settings" where
  "engine_settings_of env s = \<lparr>es_max_attempts = se_max_attempts s, es_base_backoff = se_base_backoff s,
     es_max_backoff = se_max_backoff s, es_lease_ttl = se_lease_ttl s,
     es_crash_at = env ''CRASHSAFE_CRASH_AT''\<rparr>"

section \<open>What the checks guarantee\<close>

lemma from_env_checked:
  assumes "from_env env = Inr s"
  shows "check_settings (se_worker_count s) (se_lease_ttl s) (se_renew_interval s) = Inr ()"
  using assms by (auto simp: from_env_def Let_def rbind_Inr_iff)

lemma checked_values:
  assumes "check_settings n ttl renew = Inr ()"
  shows "1 \<le> n" and "\<not> float_le ttl (Finite 0)" and "\<not> float_le renew (Finite 0)" and "\<not> float_le ttl renew"
  using assms by (auto simp: check_settings_def split: if_splits)

lemma checked_finite:
  assumes "\<not> float_le (Finite x) (Finite 0)" and "\<not> float_le renew (Finite 0)" and "\<not> float_le (Finite x) renew"
  shows "0 < x" and "renew = NaN \<or> (\<exists>y. renew = Finite y \<and> 0 < y \<and> y < x)"
  using assms by (cases renew; auto simp: float_le_def)+

text \<open>C39: what the validation of the settings is worth. There is at least one worker, and
  whenever a claim can compute the deadline of its lease, the TTL is a positive finite
  number, the deadline lies within half a microsecond of it, up to the error of one
  floating-point product, and not before the claim, and the renewal interval, if it is a number, is positive and shorter than the TTL. (A TTL of
  \<open>nan\<close> or \<open>inf\<close> passes the validation and makes every claim raise.)\<close>

theorem settings_bound_leases:
  assumes "from_env env = Inr s" and "deadline now (es_lease_ttl (engine_settings_of env s)) = Inr expires"
  shows "1 \<le> se_worker_count s \<and> (\<exists>ttl. se_lease_ttl s = Finite ttl \<and> 0 < ttl \<and> now \<le> expires \<and>
    \<bar>of_int (expires - now) - ttl * 1000000\<bar> \<le> 1 / 2 + 1 / 2 ^ 33 \<and>
    (se_renew_interval s = NaN \<or> (\<exists>y. se_renew_interval s = Finite y \<and> 0 < y \<and> y < ttl)))"
proof -
  note ok = checked_values [OF from_env_checked [OF assms(1)]]
  have "deadline now (se_lease_ttl s) = Inr expires" using assms(2) by (simp add: engine_settings_of_def)
  then obtain ttl where ttl: "se_lease_ttl s = Finite ttl" and e: "expires = now + seconds_to_microseconds ttl"
    by (auto dest: deadline_Inr)
  from ok(2-4) have pos: "0 < ttl"
    "se_renew_interval s = NaN \<or> (\<exists>y. se_renew_interval s = Finite y \<and> 0 < y \<and> y < ttl)"
    unfolding ttl by (rule checked_finite)+
  have "0 \<le> seconds_to_microseconds ttl" using pos(1) by (intro seconds_to_microseconds_nonneg) simp
  with seconds_to_microseconds_error [of ttl] ok(1) ttl pos e show ?thesis by auto
qed

section \<open>Decimal texts\<close>

lemma to_double_range:
  assumes "1 / 2 ^ 1000 \<le> \<bar>x\<bar>" and "\<bar>x\<bar> \<le> 2 ^ 1000"
  shows "in_float_range (to_double x) = Finite (to_double x)"
proof -
  have "\<bar>to_double x - x\<bar> \<le> \<bar>x\<bar> / 2 ^ 53" using assms(1) by (rule to_double_error)
  also have "\<dots> \<le> \<bar>x\<bar>" by simp
  finally have "\<bar>to_double x\<bar> \<le> 2 * \<bar>x\<bar>" by linarith
  also have "\<dots> \<le> 2 ^ 1001" using assms(2) by simp
  also have "\<dots> < (2 ^ 1024 :: rat)" by simp
  finally show ?thesis by (auto simp: in_float_range_def)
qed

text \<open>The texts of the defaults, and settings taken from them.\<close>

lemma default_integers:
  "int_of_text (show_int 8001) = Some 8001" "int_of_text (show_int 1) = Some 1" "int_of_text (show_int 8) = Some 8"
  using int_of_show_nat [of 8001] int_of_show_nat [of 1] int_of_show_nat [of 8]
  by (simp_all add: show_int_def show_nat.simps)

lemma default_texts:
  "decimal_of_text ''2.0'' = Some 2" "decimal_of_text ''0.5'' = Some (1 / 2)" "decimal_of_text ''0.2'' = Some (1 / 5)"
  "decimal_of_text ''10.0'' = Some 10" "decimal_of_text ''0.25'' = Some (1 / 4)"
  by code_simp+

lemma float_of_decimal:
  assumes "decimal_of_text text = Some x" and "drop_underscores (strip text) = Some text"
    and "split_sign text = (False, text)" and "map lower text \<notin> {''inf'', ''infinity'', ''nan''}"
    and "1 / 2 ^ 1000 \<le> \<bar>x\<bar>" and "\<bar>x\<bar> \<le> 2 ^ 1000"
  shows "float_of_text text = Some (Finite (to_double x))"
  using assms to_double_range [of x] by (auto simp: float_of_text_def)

lemma plain_texts:
  "\<forall>text \<in> {''2.0'', ''0.5'', ''0.2'', ''10.0'', ''0.25''}. drop_underscores (strip text) = Some text \<and>
     split_sign text = (False, text) \<and> map lower text \<notin> {''inf'', ''infinity'', ''nan''}"
  by code_simp

lemma default_floats:
  "float_of_text ''2.0'' = Some (Finite (to_double 2))" "float_of_text ''0.5'' = Some (Finite (to_double (1 / 2)))"
  "float_of_text ''0.2'' = Some (Finite (to_double (1 / 5)))" "float_of_text ''10.0'' = Some (Finite (to_double 10))"
  "float_of_text ''0.25'' = Some (Finite (to_double (1 / 4)))"
  using plain_texts by (simp_all add: float_of_decimal [OF default_texts(1)] float_of_decimal [OF default_texts(2)]
      float_of_decimal [OF default_texts(3)] float_of_decimal [OF default_texts(4)]
      float_of_decimal [OF default_texts(5)] del: insert_iff)

definition default_settings :: settings where
  "default_settings = \<lparr>se_state_dir = Resolve (PathText ''.crashsafe''),
     se_engine_db = Child (Resolve (PathText ''.crashsafe'')) ''engine.db'',
     se_ledger_db = Child (Resolve (PathText ''.crashsafe'')) ''ledger.db'',
     se_tool_base_url = ''http://127.0.0.1:'' @ show_int 8001,
     se_poll_interval = Finite (to_double (1 / 5)), se_request_timeout = Finite (to_double 10),
     se_max_attempts = 8, se_base_backoff = Finite (to_double (1 / 4)), se_max_backoff = Finite (to_double 10),
     se_worker_count = 1, se_lease_ttl = Finite (to_double 2), se_renew_interval = Finite (to_double (1 / 2)),
     se_tool_key = ''mock-tool''\<rparr>"

lemma to_double_near:
  assumes "1 / 2 ^ 1000 \<le> \<bar>x\<bar>"
  shows "\<bar>to_double x - x\<bar> \<le> \<bar>x\<bar> / 8"
proof -
  have "\<bar>x\<bar> / 2 ^ 53 \<le> \<bar>x\<bar> / 8" by (intro divide_left_mono) simp_all
  with to_double_error [OF assms] show ?thesis by linarith
qed

lemma default_bounds: "1 \<le> to_double 2" "to_double 2 \<le> 3" "0 < to_double (1 / 2)" "to_double (1 / 2) < 1"
proof -
  have "\<bar>to_double 2 - 2\<bar> \<le> 1 / 4" "\<bar>to_double (1 / 2) - 1 / 2\<bar> \<le> 1 / 16"
    using to_double_near [of 2] to_double_near [of "1 / 2"] by simp_all
  then show "1 \<le> to_double 2" "to_double 2 \<le> 3" "0 < to_double (1 / 2)" "to_double (1 / 2) < 1" by linarith+
qed

lemma from_no_env: "from_env Map.empty = Inr default_settings"
  using default_bounds
  by (simp add: from_env_def int_env_def float_env_def getenv_def ledger_path_def nonempty_env_def
      check_settings_def float_le_def default_settings_def default_integers default_floats Let_def)

theorem settings_bound_leases_witness:
  "\<exists>expires. deadline (1000 * microseconds_per_day) (se_lease_ttl default_settings) = Inr expires \<and>
    1000 * microseconds_per_day \<le> expires"
proof -
  define us where "us = seconds_to_microseconds (to_double 2)"
  have "(1 / 2 + 1 / 2 ^ 33 :: rat) \<le> 1" by simp
  with seconds_to_microseconds_error [of "to_double 2"] have "\<bar>of_int us - to_double 2 * 1000000\<bar> \<le> 1"
    unfolding us_def by (rule order_trans)
  then have "(0 :: rat) < of_int us" "of_int us \<le> (4000000 :: rat)" using default_bounds by linarith+
  then have us: "0 < us" "us \<le> 4000000" by linarith+
  have dl: "deadline (1000 * microseconds_per_day) (es_lease_ttl (engine_settings_of Map.empty default_settings)) =
      Inr (1000 * microseconds_per_day + us)"
    using us by (simp add: deadline_def timedelta_seconds_def add_duration_def datetime_range_def rbind_def
        engine_settings_of_def default_settings_def microseconds_per_day_def us_def [symmetric] Let_def)
  from settings_bound_leases [OF from_no_env dl] dl show ?thesis by (auto simp: engine_settings_of_def)
qed

end
