(* ===== verification/Schema.thy ===== *)
theory Schema
  imports Prelude
begin

text \<open>
  \<open>SQLiteStorage._initialize\<close> of \<open>crashsafe/storage.py\<close>: the schema is created, an empty pre-DAG
  schema dropped, a version 3 database migrated and a badly renamed version 4 database
  repaired. The SQL statements are data, executed on a catalog of tables, indexes and
  triggers. Foreign keys are off in the migration and the repair; the implicit delete of
  \<open>DROP TABLE\<close> meets no referencing row, as children are dropped first.
\<close>

section \<open>Catalogs and statements\<close>

datatype sql_value = SqlNull | SqlInteger int | SqlText string

record foreign_key =
  fk_columns :: "string list"
  fk_parent :: string
  fk_parent_columns :: "string list"

datatype table_key = PrimaryKey "string list" | Unique "string list"

text \<open>Columns with their declared type, \<open>NOT NULL\<close> and default.\<close>

record table =
  tb_columns :: "(string \<times> string) list"
  tb_keys :: "table_key list"
  tb_foreign_keys :: "foreign_key list"
  tb_rows :: "sql_value list list"

record catalog =
  ct_tables :: "(string \<times> table) list"
  ct_indexes :: "(string \<times> string \<times> string list) list"
  ct_triggers :: "(string \<times> string) list"
  ct_version :: int

datatype schema_error = LegacyDatabaseError | NoSuchTable string | NoSuchColumn string | AlreadyExists string | ColumnCount

datatype statement =
    DropTrigger string
  | DropIndex string
  | DropTable string
  | RenameTable string string
  | RenameColumn string string string
  | UpdateEventTypes
  | SetVersion int
  | CreateTable string table
  | CreateMissingTable string table
  | InsertSelect string string
  | CreateMissingIndex string string "string list"
  | CreateMissingTrigger string string

definition table_of :: "catalog \<Rightarrow> string \<Rightarrow> table option" where
  "table_of c name = map_of (ct_tables c) name"

definition column_names :: "table \<Rightarrow> string list" where
  "column_names t = map fst (tb_columns t)"

definition renamed :: "string \<Rightarrow> string \<Rightarrow> string \<Rightarrow> string" where
  "renamed old new x = (if x = old then new else x)"

text \<open>With modern rename semantics the references of all tables follow a renamed table.\<close>

definition retarget :: "string \<Rightarrow> string \<Rightarrow> table \<Rightarrow> table" where
  "retarget old new t = t\<lparr>tb_foreign_keys :=
     map (\<lambda>k. k\<lparr>fk_parent := renamed old new (fk_parent k)\<rparr>) (tb_foreign_keys t)\<rparr>"

definition rename_table :: "bool \<Rightarrow> string \<Rightarrow> string \<Rightarrow> catalog \<Rightarrow> schema_error + catalog" where
  "rename_table legacy old new c =
     (if table_of c old = None then Inl (NoSuchTable old)
      else if table_of c new \<noteq> None then Inl (AlreadyExists new)
      else Inr (c\<lparr>
        ct_tables := map (\<lambda>(k, t). (renamed old new k, if legacy then t else retarget old new t)) (ct_tables c),
        ct_indexes := map (\<lambda>(k, t, cs). (k, renamed old new t, cs)) (ct_indexes c),
        ct_triggers := map (\<lambda>(k, t). (k, renamed old new t)) (ct_triggers c)\<rparr>))"

fun rename_in_key :: "string \<Rightarrow> string \<Rightarrow> table_key \<Rightarrow> table_key" where
  "rename_in_key old new (PrimaryKey cs) = PrimaryKey (map (renamed old new) cs)"
| "rename_in_key old new (Unique cs) = Unique (map (renamed old new) cs)"

definition rename_parent_column :: "string \<Rightarrow> string \<Rightarrow> string \<Rightarrow> table \<Rightarrow> table" where
  "rename_parent_column name old new t = t\<lparr>tb_foreign_keys := map (\<lambda>k. if fk_parent k = name
     then k\<lparr>fk_parent_columns := map (renamed old new) (fk_parent_columns k)\<rparr> else k) (tb_foreign_keys t)\<rparr>"

definition rename_own_column :: "string \<Rightarrow> string \<Rightarrow> table \<Rightarrow> table" where
  "rename_own_column old new t = t\<lparr>tb_columns := map (\<lambda>(k, d). (renamed old new k, d)) (tb_columns t),
     tb_keys := map (rename_in_key old new) (tb_keys t),
     tb_foreign_keys := map (\<lambda>k. k\<lparr>fk_columns := map (renamed old new) (fk_columns k)\<rparr>) (tb_foreign_keys t)\<rparr>"

definition rename_column :: "string \<Rightarrow> string \<Rightarrow> string \<Rightarrow> catalog \<Rightarrow> schema_error + catalog" where
  "rename_column name old new c =
     (case table_of c name of
        None \<Rightarrow> Inl (NoSuchTable name)
      | Some t \<Rightarrow>
          if old \<notin> set (column_names t) then Inl (NoSuchColumn old)
          else if new \<in> set (column_names t) then Inl (AlreadyExists new)
          else Inr (c\<lparr>
            ct_tables := map (\<lambda>(k, t). (k, rename_parent_column name old new
              (if k = name then rename_own_column old new t else t))) (ct_tables c),
            ct_indexes := map (\<lambda>(k, t, cs). (k, t, if t = name then map (renamed old new) cs else cs)) (ct_indexes c)\<rparr>))"

definition drop_table :: "string \<Rightarrow> catalog \<Rightarrow> catalog" where
  "drop_table name c = c\<lparr>ct_tables := filter (\<lambda>(k, t). k \<noteq> name) (ct_tables c),
     ct_indexes := filter (\<lambda>(k, t, cs). t \<noteq> name) (ct_indexes c),
     ct_triggers := filter (\<lambda>(k, t). t \<noteq> name) (ct_triggers c)\<rparr>"

definition set_rows :: "string \<Rightarrow> (sql_value list list \<Rightarrow> sql_value list list) \<Rightarrow> catalog \<Rightarrow> catalog" where
  "set_rows name f c = c\<lparr>ct_tables :=
     map (\<lambda>(k, t). (k, if k = name then t\<lparr>tb_rows := f (tb_rows t)\<rparr> else t)) (ct_tables c)\<rparr>"

definition new_event_type :: "sql_value \<Rightarrow> sql_value" where
  "new_event_type v =
     (if v = SqlText ''WorkflowCreated'' then SqlText ''WorkflowRunCreated''
      else if v = SqlText ''WorkflowCompleted'' then SqlText ''WorkflowRunCompleted''
      else if v = SqlText ''WorkflowFailed'' then SqlText ''WorkflowRunFailed'' else v)"

definition update_column :: "string list \<Rightarrow> string \<Rightarrow> (sql_value \<Rightarrow> sql_value) \<Rightarrow> sql_value list \<Rightarrow> sql_value list" where
  "update_column cols col f row = map2 (\<lambda>k v. if k = col then f v else v) cols row"

fun exec :: "bool \<Rightarrow> statement \<Rightarrow> catalog \<Rightarrow> schema_error + catalog" where
  "exec legacy (DropTrigger name) c = Inr (c\<lparr>ct_triggers := filter (\<lambda>(k, t). k \<noteq> name) (ct_triggers c)\<rparr>)"
| "exec legacy (DropIndex name) c = Inr (c\<lparr>ct_indexes := filter (\<lambda>(k, t). k \<noteq> name) (ct_indexes c)\<rparr>)"
| "exec legacy (DropTable name) c = Inr (drop_table name c)"
| "exec legacy (RenameTable old new) c = rename_table legacy old new c"
| "exec legacy (RenameColumn name old new) c = rename_column name old new c"
| "exec legacy UpdateEventTypes c = (case table_of c ''workflow_run_events'' of
     None \<Rightarrow> Inl (NoSuchTable ''workflow_run_events'')
   | Some t \<Rightarrow> if ''event_type'' \<notin> set (column_names t) then Inl (NoSuchColumn ''event_type'')
       else Inr (set_rows ''workflow_run_events'' (map (update_column (column_names t) ''event_type'' new_event_type)) c))"
| "exec legacy (SetVersion n) c = Inr (c\<lparr>ct_version := n\<rparr>)"
| "exec legacy (CreateTable name t) c = (if table_of c name \<noteq> None then Inl (AlreadyExists name)
     else Inr (c\<lparr>ct_tables := ct_tables c @ [(name, t)]\<rparr>))"
| "exec legacy (CreateMissingTable name t) c = (if table_of c name \<noteq> None then Inr c
     else Inr (c\<lparr>ct_tables := ct_tables c @ [(name, t)]\<rparr>))"
| "exec legacy (InsertSelect to from) c = (case (table_of c to, table_of c from) of
     (Some t, Some s) \<Rightarrow> if length (tb_columns t) \<noteq> length (tb_columns s) then Inl ColumnCount
       else Inr (set_rows to (\<lambda>rows. rows @ tb_rows s) c)
   | _ \<Rightarrow> Inl (NoSuchTable to))"
| "exec legacy (CreateMissingIndex name tb cols) c = (if map_of (ct_indexes c) name \<noteq> None then Inr c
     else (case table_of c tb of
        None \<Rightarrow> Inl (NoSuchTable tb)
      | Some t \<Rightarrow> if set cols \<subseteq> set (column_names t) then Inr (c\<lparr>ct_indexes := ct_indexes c @ [(name, tb, cols)]\<rparr>)
          else Inl (NoSuchColumn tb)))"
| "exec legacy (CreateMissingTrigger name tb) c = (if map_of (ct_triggers c) name \<noteq> None then Inr c
     else if table_of c tb = None then Inl (NoSuchTable tb)
     else Inr (c\<lparr>ct_triggers := ct_triggers c @ [(name, tb)]\<rparr>))"

text \<open>A script outside a transaction commits statement by statement.\<close>

fun run_script :: "bool \<Rightarrow> statement list \<Rightarrow> catalog \<Rightarrow> schema_error option \<times> catalog" where
  "run_script legacy [] c = (None, c)"
| "run_script legacy (s # ss) c =
     (case exec legacy s c of Inl e \<Rightarrow> (Some e, c) | Inr c' \<Rightarrow> run_script legacy ss c')"

definition in_transaction :: "bool \<Rightarrow> statement list \<Rightarrow> catalog \<Rightarrow> schema_error option \<times> catalog" where
  "in_transaction legacy ss c = (case run_script legacy ss c of
     (None, c') \<Rightarrow> (None, c') | (Some e, _) \<Rightarrow> (Some e, c))"

section \<open>The schema\<close>

definition references :: "string list \<Rightarrow> string \<Rightarrow> string list \<Rightarrow> foreign_key" where
  "references cols parent pcols = \<lparr>fk_columns = cols, fk_parent = parent, fk_parent_columns = pcols\<rparr>"

definition runs_table :: table where
  "runs_table = \<lparr>tb_columns = [(''run_id'', ''TEXT''), (''name'', ''TEXT NOT NULL''), (''status'', ''TEXT NOT NULL''),
     (''definition_json'', ''TEXT NOT NULL''), (''created_at'', ''TEXT NOT NULL''), (''updated_at'', ''TEXT NOT NULL''),
     (''completed_at'', ''TEXT'')],
     tb_keys = [PrimaryKey [''run_id'']], tb_foreign_keys = [], tb_rows = []\<rparr>"

definition steps_table :: table where
  "steps_table = \<lparr>tb_columns = [(''run_id'', ''TEXT NOT NULL''), (''id'', ''TEXT NOT NULL''), (''position'', ''INTEGER NOT NULL''),
     (''operation'', ''TEXT NOT NULL''), (''status'', ''TEXT NOT NULL''), (''request_json'', ''TEXT NOT NULL''),
     (''operation_key'', ''TEXT NOT NULL''), (''tool_key'', ''TEXT NOT NULL''), (''output_json'', ''TEXT''),
     (''attempts'', ''INTEGER NOT NULL DEFAULT 0''), (''next_attempt_at'', ''TEXT''), (''last_error'', ''TEXT''),
     (''created_at'', ''TEXT NOT NULL''), (''updated_at'', ''TEXT NOT NULL''), (''completed_at'', ''TEXT'')],
     tb_keys = [Unique [''operation_key''], PrimaryKey [''run_id'', ''id''], Unique [''run_id'', ''position'']],
     tb_foreign_keys = [references [''run_id''] ''workflow_runs'' [''run_id'']], tb_rows = []\<rparr>"

definition dependencies_table :: table where
  "dependencies_table = \<lparr>tb_columns = [(''run_id'', ''TEXT NOT NULL''), (''step_id'', ''TEXT NOT NULL''),
     (''dependency_step_id'', ''TEXT NOT NULL'')],
     tb_keys = [PrimaryKey [''run_id'', ''step_id'', ''dependency_step_id'']],
     tb_foreign_keys = [references [''run_id'', ''step_id''] ''steps'' [''run_id'', ''id''],
       references [''run_id'', ''dependency_step_id''] ''steps'' [''run_id'', ''id'']], tb_rows = []\<rparr>"

definition events_table :: table where
  "events_table = \<lparr>tb_columns = [(''id'', ''INTEGER''), (''run_id'', ''TEXT NOT NULL''), (''sequence'', ''INTEGER NOT NULL''),
     (''event_type'', ''TEXT NOT NULL''), (''schema_version'', ''INTEGER NOT NULL''), (''step_id'', ''TEXT''),
     (''attempt'', ''INTEGER''), (''payload_json'', ''TEXT NOT NULL''), (''occurred_at'', ''TEXT NOT NULL'')],
     tb_keys = [PrimaryKey [''id''], Unique [''run_id'', ''sequence'']], tb_foreign_keys = [], tb_rows = []\<rparr>"

definition leases_table :: table where
  "leases_table = \<lparr>tb_columns = [(''run_id'', ''TEXT''), (''owner_id'', ''TEXT NOT NULL''), (''fence_token'', ''INTEGER NOT NULL''),
     (''lease_expires_at'', ''TEXT NOT NULL''), (''updated_at'', ''TEXT NOT NULL'')],
     tb_keys = [PrimaryKey [''run_id'']],
     tb_foreign_keys = [references [''run_id''] ''workflow_runs'' [''run_id'']], tb_rows = []\<rparr>"

definition throttles_table :: table where
  "throttles_table = \<lparr>tb_columns = [(''tool_key'', ''TEXT''), (''blocked_until'', ''TEXT NOT NULL''),
     (''reason'', ''TEXT NOT NULL''), (''updated_at'', ''TEXT NOT NULL'')],
     tb_keys = [PrimaryKey [''tool_key'']], tb_foreign_keys = [], tb_rows = []\<rparr>"

definition create_script :: "statement list" where
  "create_script =
     [CreateMissingTable ''workflow_runs'' runs_table,
      CreateMissingTable ''steps'' steps_table,
      CreateMissingTable ''step_dependencies'' dependencies_table,
      CreateMissingIndex ''idx_steps_runnable'' ''steps'' [''status'', ''next_attempt_at'', ''run_id'', ''position''],
      CreateMissingTable ''workflow_run_events'' events_table,
      CreateMissingIndex ''idx_workflow_run_events_order'' ''workflow_run_events'' [''run_id'', ''sequence''],
      CreateMissingTable ''workflow_run_leases'' leases_table,
      CreateMissingTable ''tool_throttles'' throttles_table,
      CreateMissingTrigger ''workflow_run_events_no_update'' ''workflow_run_events'',
      CreateMissingTrigger ''workflow_run_events_no_delete'' ''workflow_run_events'',
      SetVersion 4]"

section \<open>Preparation\<close>

definition drop_script :: "statement list" where
  "drop_script =
     [DropTrigger ''workflow_events_no_update'', DropTrigger ''workflow_events_no_delete'',
      DropTrigger ''workflow_run_events_no_update'', DropTrigger ''workflow_run_events_no_delete'',
      DropTable ''step_dependencies'', DropTable ''workflow_leases'', DropTable ''workflow_run_leases'',
      DropTable ''tool_throttles'', DropTable ''steps'', DropTable ''workflows'', DropTable ''workflow_runs'',
      DropTable ''workflow_events'', DropTable ''workflow_run_events'']"

definition migrate_script :: "statement list" where
  "migrate_script =
     [DropTrigger ''workflow_events_no_update'', DropTrigger ''workflow_events_no_delete'',
      DropIndex ''idx_steps_runnable'', DropIndex ''idx_workflow_events_order'',
      RenameTable ''workflows'' ''workflow_runs'', RenameColumn ''workflow_runs'' ''id'' ''run_id'',
      RenameColumn ''steps'' ''workflow_id'' ''run_id'', RenameColumn ''step_dependencies'' ''workflow_id'' ''run_id'',
      RenameTable ''workflow_events'' ''workflow_run_events'', RenameColumn ''workflow_run_events'' ''workflow_id'' ''run_id'',
      RenameTable ''workflow_leases'' ''workflow_run_leases'', RenameColumn ''workflow_run_leases'' ''workflow_id'' ''run_id'',
      UpdateEventTypes, SetVersion 4]"

definition refers_to_workflows :: "catalog \<Rightarrow> string \<Rightarrow> bool" where
  "refers_to_workflows c name = (case table_of c name of None \<Rightarrow> False
     | Some t \<Rightarrow> list_ex (\<lambda>k. fk_parent k = ''workflows'') (tb_foreign_keys t))"

definition repair_steps :: "statement list" where
  "repair_steps =
     [DropIndex ''idx_steps_runnable'', RenameTable ''steps'' ''steps_with_legacy_foreign_key'',
      CreateTable ''steps'' steps_table, InsertSelect ''steps'' ''steps_with_legacy_foreign_key'',
      DropTable ''steps_with_legacy_foreign_key'']"

definition repair_leases :: "statement list" where
  "repair_leases =
     [RenameTable ''workflow_run_leases'' ''workflow_run_leases_with_legacy_foreign_key'',
      CreateTable ''workflow_run_leases'' leases_table,
      InsertSelect ''workflow_run_leases'' ''workflow_run_leases_with_legacy_foreign_key'',
      DropTable ''workflow_run_leases_with_legacy_foreign_key'']"

definition repair_foreign_keys :: "catalog \<Rightarrow> schema_error option \<times> catalog" where
  "repair_foreign_keys c =
     (let steps = refers_to_workflows c ''steps''; leases = refers_to_workflows c ''workflow_run_leases'' in
      if \<not> steps \<and> \<not> leases then (None, c)
      else in_transaction True ((if steps then repair_steps else []) @ (if leases then repair_leases else [])) c)"

definition prepare :: "catalog \<Rightarrow> schema_error option \<times> catalog" where
  "prepare c =
     (case table_of c ''workflows'' of
        None \<Rightarrow> repair_foreign_keys c
      | Some t \<Rightarrow>
          if ''definition_json'' \<notin> set (column_names t)
          then (if tb_rows t \<noteq> [] then (Some LegacyDatabaseError, c) else run_script False drop_script c)
          else in_transaction False migrate_script c)"

definition initialize :: "catalog \<Rightarrow> schema_error option \<times> catalog" where
  "initialize c = (case prepare c of
     (Some e, c') \<Rightarrow> (Some e, c') | (None, c') \<Rightarrow> run_script False create_script c')"

section \<open>Layouts\<close>

text \<open>The rows of a database, and the three catalogs that hold them.\<close>

record content =
  co_runs :: "sql_value list list"
  co_steps :: "sql_value list list"
  co_dependencies :: "sql_value list list"
  co_events :: "sql_value list list"
  co_leases :: "sql_value list list"
  co_throttles :: "sql_value list list"

definition v4_catalog :: "content \<Rightarrow> catalog" where
  "v4_catalog x = \<lparr>
     ct_tables = [(''workflow_runs'', runs_table\<lparr>tb_rows := co_runs x\<rparr>), (''steps'', steps_table\<lparr>tb_rows := co_steps x\<rparr>),
       (''step_dependencies'', dependencies_table\<lparr>tb_rows := co_dependencies x\<rparr>),
       (''workflow_run_events'', events_table\<lparr>tb_rows := co_events x\<rparr>),
       (''workflow_run_leases'', leases_table\<lparr>tb_rows := co_leases x\<rparr>),
       (''tool_throttles'', throttles_table\<lparr>tb_rows := co_throttles x\<rparr>)],
     ct_indexes = [(''idx_steps_runnable'', ''steps'', [''status'', ''next_attempt_at'', ''run_id'', ''position'']),
       (''idx_workflow_run_events_order'', ''workflow_run_events'', [''run_id'', ''sequence''])],
     ct_triggers = [(''workflow_run_events_no_update'', ''workflow_run_events''),
       (''workflow_run_events_no_delete'', ''workflow_run_events'')],
     ct_version = 4\<rparr>"

definition empty_catalog :: catalog where
  "empty_catalog = \<lparr>ct_tables = [], ct_indexes = [], ct_triggers = [], ct_version = 0\<rparr>"

text \<open>Version 3: runs were workflows, with their own event names.\<close>

definition with_workflow_id :: "table \<Rightarrow> table" where
  "with_workflow_id t = rename_own_column ''run_id'' ''workflow_id'' t"

fun old_event_type :: "sql_value \<Rightarrow> sql_value" where
  "old_event_type v =
     (if v = SqlText ''WorkflowRunCreated'' then SqlText ''WorkflowCreated''
      else if v = SqlText ''WorkflowRunCompleted'' then SqlText ''WorkflowCompleted''
      else if v = SqlText ''WorkflowRunFailed'' then SqlText ''WorkflowFailed'' else v)"

definition event_columns :: "string list" where
  "event_columns = column_names events_table"

definition v3_catalog :: "content \<Rightarrow> catalog" where
  "v3_catalog x = \<lparr>
     ct_tables = [(''workflows'', (rename_own_column ''run_id'' ''id'' runs_table)\<lparr>tb_rows := co_runs x\<rparr>),
       (''steps'', (retarget ''workflow_runs'' ''workflows'' (with_workflow_id steps_table))
          \<lparr>tb_rows := co_steps x, tb_foreign_keys := [references [''workflow_id''] ''workflows'' [''id'']]\<rparr>),
       (''step_dependencies'', (with_workflow_id dependencies_table)\<lparr>tb_rows := co_dependencies x,
          tb_foreign_keys := [references [''workflow_id'', ''step_id''] ''steps'' [''workflow_id'', ''id''],
            references [''workflow_id'', ''dependency_step_id''] ''steps'' [''workflow_id'', ''id'']]\<rparr>),
       (''workflow_events'', (with_workflow_id events_table)
          \<lparr>tb_rows := map (update_column event_columns ''event_type'' old_event_type) (co_events x)\<rparr>),
       (''workflow_leases'', (with_workflow_id leases_table)
          \<lparr>tb_rows := co_leases x, tb_foreign_keys := [references [''workflow_id''] ''workflows'' [''id'']]\<rparr>),
       (''tool_throttles'', throttles_table\<lparr>tb_rows := co_throttles x\<rparr>)],
     ct_indexes = [(''idx_steps_runnable'', ''steps'', [''status'', ''next_attempt_at'', ''workflow_id'', ''position'']),
       (''idx_workflow_events_order'', ''workflow_events'', [''workflow_id'', ''sequence''])],
     ct_triggers = [(''workflow_events_no_update'', ''workflow_events''),
       (''workflow_events_no_delete'', ''workflow_events'')],
     ct_version = 3\<rparr>"

text \<open>What legacy rename semantics made of a version 3 database.\<close>

definition broken_catalog :: "content \<Rightarrow> catalog" where
  "broken_catalog x = (v4_catalog x)\<lparr>ct_tables :=
     [(''workflow_runs'', runs_table\<lparr>tb_rows := co_runs x\<rparr>),
      (''steps'', steps_table\<lparr>tb_rows := co_steps x, tb_foreign_keys := [references [''run_id''] ''workflows'' [''id'']]\<rparr>),
      (''step_dependencies'', dependencies_table\<lparr>tb_rows := co_dependencies x\<rparr>),
      (''workflow_run_events'', events_table\<lparr>tb_rows := co_events x\<rparr>),
      (''workflow_run_leases'', leases_table\<lparr>tb_rows := co_leases x,
         tb_foreign_keys := [references [''run_id''] ''workflows'' [''id'']]\<rparr>),
      (''tool_throttles'', throttles_table\<lparr>tb_rows := co_throttles x\<rparr>)]\<rparr>"

definition same_catalog :: "catalog \<Rightarrow> catalog \<Rightarrow> bool" where
  "same_catalog c c' \<longleftrightarrow> map_of (ct_tables c) = map_of (ct_tables c') \<and> map_of (ct_indexes c) = map_of (ct_indexes c') \<and>
     map_of (ct_triggers c) = map_of (ct_triggers c') \<and> ct_version c = ct_version c'"

section \<open>Exact results\<close>

lemmas table_defs = runs_table_def steps_table_def dependencies_table_def events_table_def leases_table_def
  throttles_table_def references_def

lemmas statement_defs = rename_table_def rename_column_def rename_own_column_def rename_parent_column_def
  retarget_def drop_table_def set_rows_def table_of_def column_names_def renamed_def with_workflow_id_def

lemma update_back:
  assumes "length row = length cols" and "\<forall>v. (col, v) \<in> set (zip cols row) \<longrightarrow> f (g v) = v"
  shows "update_column cols col f (update_column cols col g row) = row"
  using assms
proof (induction cols arbitrary: row)
  case (Cons k cols)
  then obtain v row' where "row = v # row'" by (cases row) auto
  with Cons show ?case by (auto simp: update_column_def)
qed (simp add: update_column_def)

definition content_ok :: "content \<Rightarrow> bool" where
  "content_ok x \<longleftrightarrow> (\<forall>row \<in> set (co_events x). length row = length event_columns \<and>
     row ! 3 \<notin> SqlText ` {''WorkflowCreated'', ''WorkflowCompleted'', ''WorkflowFailed''})"

lemma event_types_back:
  assumes "content_ok x"
  shows "map (update_column event_columns ''event_type'' new_event_type)
    (map (update_column event_columns ''event_type'' old_event_type) (co_events x)) = co_events x"
proof -
  have "update_column event_columns ''event_type'' new_event_type
      (update_column event_columns ''event_type'' old_event_type row) = row" if row: "row \<in> set (co_events x)" for row
  proof (rule update_back)
    show len: "length row = length event_columns" using assms row by (simp add: content_ok_def)
    show "\<forall>v. (''event_type'', v) \<in> set (zip event_columns row) \<longrightarrow> new_event_type (old_event_type v) = v"
    proof (intro allI impI)
      fix v
      assume "(''event_type'', v) \<in> set (zip event_columns row)"
      then obtain n where n: "n < length event_columns" "event_columns ! n = ''event_type''" "row ! n = v"
        using len by (fastforce simp: set_zip)
      then have "n = 3"
        by (auto simp: event_columns_def column_names_def events_table_def nth_Cons split: nat.splits)
      with n(3) have "v \<notin> SqlText ` {''WorkflowCreated'', ''WorkflowCompleted'', ''WorkflowFailed''}"
        using assms row by (auto simp: content_ok_def)
      then show "new_event_type (old_event_type v) = v" by (auto simp: new_event_type_def)
    qed
  qed
  then show ?thesis by (simp add: map_idI)
qed

lemma migrate_v3:
  assumes "content_ok x"
  shows "in_transaction False migrate_script (v3_catalog x) = (None, (v4_catalog x)\<lparr>ct_indexes := [], ct_triggers := []\<rparr>)"
proof -
  note types = event_types_back [OF assms]
  show ?thesis
    using types
    by (simp add: in_transaction_def migrate_script_def v3_catalog_def v4_catalog_def table_defs statement_defs
        event_columns_def del: old_event_type.simps)
qed

lemma create_v4:
  "run_script False create_script ((v4_catalog x)\<lparr>ct_indexes := [], ct_triggers := []\<rparr>) = (None, v4_catalog x)"
  by (simp add: create_script_def v4_catalog_def table_defs statement_defs)

lemma initialize_v3:
  assumes "content_ok x"
  shows "initialize (v3_catalog x) = (None, v4_catalog x)"
proof -
  have "prepare (v3_catalog x) = in_transaction False migrate_script (v3_catalog x)"
    by (simp add: prepare_def table_of_def v3_catalog_def column_names_def rename_own_column_def runs_table_def renamed_def)
  then show ?thesis using migrate_v3 [OF assms] create_v4 [of x] by (simp add: initialize_def)
qed

lemma initialize_v4: "initialize (v4_catalog x) = (None, v4_catalog x)"
  by (simp add: initialize_def prepare_def repair_foreign_keys_def refers_to_workflows_def create_script_def
      v4_catalog_def table_defs statement_defs)

lemma initialize_empty: "initialize empty_catalog = (None, v4_catalog \<lparr>co_runs = [], co_steps = [], co_dependencies = [],
    co_events = [], co_leases = [], co_throttles = []\<rparr>)"
  by (simp add: initialize_def prepare_def repair_foreign_keys_def refers_to_workflows_def create_script_def
      v4_catalog_def empty_catalog_def table_defs statement_defs)

lemma initialize_broken:
  "\<exists>c. initialize (broken_catalog x) = (None, c) \<and> same_catalog c (v4_catalog x)"
proof -
  have p: "prepare (broken_catalog x) = (None, (v4_catalog x)\<lparr>
      ct_tables := [(''workflow_runs'', runs_table\<lparr>tb_rows := co_runs x\<rparr>),
        (''step_dependencies'', dependencies_table\<lparr>tb_rows := co_dependencies x\<rparr>),
        (''workflow_run_events'', events_table\<lparr>tb_rows := co_events x\<rparr>),
        (''tool_throttles'', throttles_table\<lparr>tb_rows := co_throttles x\<rparr>),
        (''steps'', steps_table\<lparr>tb_rows := co_steps x\<rparr>),
        (''workflow_run_leases'', leases_table\<lparr>tb_rows := co_leases x\<rparr>)],
      ct_indexes := [(''idx_workflow_run_events_order'', ''workflow_run_events'', [''run_id'', ''sequence''])]\<rparr>)"
    by (simp add: prepare_def repair_foreign_keys_def refers_to_workflows_def in_transaction_def repair_steps_def
        repair_leases_def broken_catalog_def v4_catalog_def table_defs statement_defs Let_def)
  show ?thesis
    by (simp add: initialize_def p create_script_def v4_catalog_def same_catalog_def table_defs statement_defs fun_eq_iff)
qed

section \<open>Any database\<close>

definition settled :: "catalog \<Rightarrow> bool" where
  "settled c \<longleftrightarrow> table_of c ''workflows'' = None \<and> \<not> refers_to_workflows c ''steps'' \<and>
     \<not> refers_to_workflows c ''workflow_run_leases''"

lemma settled_prepare: "settled c \<Longrightarrow> prepare c = (None, c)"
  by (simp add: settled_def prepare_def repair_foreign_keys_def)

text \<open>The tables after each statement.\<close>

lemma map_of_renamed:
  "map_of xs new = None \<Longrightarrow> map_of (map (\<lambda>(k, t). (renamed old new k, f t)) xs) k =
    (if k = new then map_option f (map_of xs old) else if k = old then None else map_option f (map_of xs k))"
proof (induction xs)
  case (Cons x xs)
  obtain a t where "x = (a, t)" by (cases x)
  with Cons show ?case by (auto simp: renamed_def split: if_splits)
qed (simp add: renamed_def)

lemma table_of_rename:
  assumes "rename_table legacy old new c = Inr c'"
  shows "table_of c' k = map_option (if legacy then id else retarget old new)
    (if k = new then table_of c old else if k = old then None else table_of c k)"
proof -
  define f where "f = (if legacy then id else retarget old new)"
  have none: "map_of (ct_tables c) new = None" and
    c': "ct_tables c' = map (\<lambda>(k, t). (renamed old new k, f t)) (ct_tables c)"
    using assms by (auto simp: rename_table_def table_of_def f_def split: if_splits)
  show ?thesis unfolding table_of_def c' map_of_renamed [OF none] f_def [symmetric] by simp
qed

lemma map_of_filter_key: "map_of (filter (\<lambda>(k, t). k \<noteq> name) xs) k = (if k = name then None else map_of xs k)"
  by (induction xs) auto

lemma map_of_map_snd: "map_of (map (\<lambda>(k, t). (k, f k t)) xs) k = map_option (f k) (map_of xs k)"
  by (induction xs) auto

lemma table_of_simps [simp]:
  "table_of (drop_table name c) k = (if k = name then None else table_of c k)"
  "table_of (c\<lparr>ct_triggers := ts\<rparr>) k = table_of c k" "table_of (c\<lparr>ct_indexes := is\<rparr>) k = table_of c k"
  "table_of (c\<lparr>ct_version := n\<rparr>) k = table_of c k"
  "table_of (c\<lparr>ct_tables := ct_tables c @ [(name, t)]\<rparr>) k =
    (case table_of c k of None \<Rightarrow> if k = name then Some t else None | Some t' \<Rightarrow> Some t')"
  "table_of (set_rows name f c) k =
    map_option (\<lambda>t. if k = name then t\<lparr>tb_rows := f (tb_rows t)\<rparr> else t) (table_of c k)"
  by (auto simp: table_of_def drop_table_def set_rows_def map_of_filter_key map_of_map_snd map_add_def split: option.splits)

subsection \<open>Scripts that create what is missing\<close>

fun creates :: "statement \<Rightarrow> bool" where
  "creates (CreateMissingTable name t) \<longleftrightarrow> name \<noteq> ''workflows'' \<and> list_all (\<lambda>k. fk_parent k \<noteq> ''workflows'') (tb_foreign_keys t)"
| "creates (CreateMissingIndex name tb cols) \<longleftrightarrow> True"
| "creates (CreateMissingTrigger name tb) \<longleftrightarrow> True"
| "creates (SetVersion n) \<longleftrightarrow> n = 4"
| "creates _ \<longleftrightarrow> False"

lemma create_script_creates: "\<forall>s \<in> set create_script. creates s"
  by (simp add: create_script_def table_defs)

lemma exec_settled: "creates s \<Longrightarrow> exec l s c = Inr c' \<Longrightarrow> settled c \<Longrightarrow> settled c'"
  by (cases s) (auto simp: settled_def refers_to_workflows_def list_ex_iff list_all_iff split: option.splits if_splits)

text \<open>Everything a script creates stays.\<close>

definition grows :: "catalog \<Rightarrow> catalog \<Rightarrow> bool" where
  "grows c c' \<longleftrightarrow> (\<forall>k. table_of c k \<noteq> None \<longrightarrow> table_of c' k \<noteq> None) \<and>
     (\<forall>k. map_of (ct_indexes c) k \<noteq> None \<longrightarrow> map_of (ct_indexes c') k \<noteq> None) \<and>
     (\<forall>k. map_of (ct_triggers c) k \<noteq> None \<longrightarrow> map_of (ct_triggers c') k \<noteq> None) \<and>
     (ct_version c = 4 \<longrightarrow> ct_version c' = 4)"

fun created :: "statement \<Rightarrow> catalog \<Rightarrow> bool" where
  "created (CreateMissingTable name t) c \<longleftrightarrow> table_of c name \<noteq> None"
| "created (CreateMissingIndex name tb cols) c \<longleftrightarrow> map_of (ct_indexes c) name \<noteq> None"
| "created (CreateMissingTrigger name tb) c \<longleftrightarrow> map_of (ct_triggers c) name \<noteq> None"
| "created (SetVersion n) c \<longleftrightarrow> ct_version c = n"
| "created _ c \<longleftrightarrow> False"

lemma created_exec: "creates s \<Longrightarrow> created s c \<Longrightarrow> exec l s c = Inr c"
  by (cases s) auto

lemma exec_created: "creates s \<Longrightarrow> exec l s c = Inr c' \<Longrightarrow> created s c'"
  by (cases s) (auto simp: map_add_def split: option.splits if_splits)

lemma created_grows: "creates s \<Longrightarrow> created s c \<Longrightarrow> grows c c' \<Longrightarrow> created s c'"
  by (cases s) (auto simp: grows_def)

lemma exec_grows: "creates s \<Longrightarrow> exec l s c = Inr c' \<Longrightarrow> grows c c'"
  by (cases s) (auto simp: grows_def map_add_def split: option.splits if_splits)

lemma grows_trans: "grows a b \<Longrightarrow> grows b c \<Longrightarrow> grows a c"
  by (simp add: grows_def)

lemma run_creates:
  assumes "\<forall>s \<in> set ss. creates s" and "run_script l ss c = (None, c')"
  shows "grows c c'" and "settled c \<Longrightarrow> settled c'" and "\<forall>s \<in> set ss. created s c'"
proof -
  have "grows c c' \<and> (settled c \<longrightarrow> settled c') \<and> (\<forall>s \<in> set ss. created s c')"
    using assms
  proof (induction ss arbitrary: c)
    case Nil
    then show ?case by (simp add: grows_def)
  next
    case (Cons s ss)
    then obtain d where d: "exec l s c = Inr d" "run_script l ss d = (None, c')"
      by (auto split: sum.splits)
    have s: "creates s" using Cons.prems(1) by simp
    from Cons.IH [OF _ d(2)] Cons.prems(1) have ih: "grows d c'" "settled d \<longrightarrow> settled c'" "\<forall>s \<in> set ss. created s c'"
      by auto
    have "created s c'" using created_grows [OF s exec_created [OF s d(1)] ih(1)] .
    moreover have "grows c c'" using grows_trans [OF exec_grows [OF s d(1)] ih(1)] .
    ultimately show ?case using ih exec_settled [OF s d(1)] by simp
  qed
  then show "grows c c'" and "settled c \<Longrightarrow> settled c'" and "\<forall>s \<in> set ss. created s c'" by simp_all
qed

lemma run_created: "\<forall>s \<in> set ss. creates s \<and> created s c \<Longrightarrow> run_script l ss c = (None, c)"
  by (induction ss) (simp_all add: created_exec)

lemma run_append: "run_script l (xs @ ys) c = (case run_script l xs c of
    (Some e, c') \<Rightarrow> (Some e, c') | (None, c') \<Rightarrow> run_script l ys c')"
  by (induction xs arbitrary: c) (auto split: sum.splits)

text \<open>A script of this kind may be stopped anywhere and started again.\<close>

lemma run_resume:
  assumes "\<forall>s \<in> set ss. creates s" and "run_script l ss c = (None, c')"
  shows "run_script l ss (snd (run_script l (take k ss) c)) = (None, c')"
    and "settled c \<Longrightarrow> settled (snd (run_script l (take k ss) c))"
proof -
  have "run_script l (take k ss @ drop k ss) c = (None, c')" using assms(2) by simp
  then obtain d where d: "run_script l (take k ss) c = (None, d)" "run_script l (drop k ss) d = (None, c')"
    unfolding run_append by (auto split: prod.splits option.splits)
  have t: "\<forall>s \<in> set (take k ss). creates s" using assms(1) set_take_subset by fast
  have "run_script l (take k ss) d = (None, d)" using run_creates(3) [OF t d(1)] t by (intro run_created) simp
  then have "run_script l (take k ss @ drop k ss) d = (None, c')" using d(2) by (simp add: run_append del: append_take_drop_id)
  then show "run_script l ss (snd (run_script l (take k ss) c)) = (None, c')" using d(1) by simp
  show "settled c \<Longrightarrow> settled (snd (run_script l (take k ss) c))" using run_creates(2) [OF t d(1)] d(1) by simp
qed

subsection \<open>Preparation settles\<close>

definition no_workflows :: "catalog \<Rightarrow> bool" where
  "no_workflows c \<longleftrightarrow> (\<forall>x \<in> set (ct_tables c). fst x \<noteq> ''workflows'' \<and>
     ''workflows'' \<notin> fk_parent ` set (tb_foreign_keys (snd x)))"

lemma no_workflows_settled: "no_workflows c \<Longrightarrow> settled c"
proof -
  assume a: "no_workflows c"
  have "k \<noteq> ''workflows'' \<and> (\<forall>f \<in> set (tb_foreign_keys t). fk_parent f \<noteq> ''workflows'')"
    if "table_of c k = Some t" for k t
    using a map_of_SomeD [of "ct_tables c" k t] that by (force simp: no_workflows_def table_of_def)
  moreover from this have "table_of c ''workflows'' = None" by (cases "table_of c ''workflows''") auto
  ultimately show ?thesis
    by (auto simp: settled_def refers_to_workflows_def list_ex_iff split: option.splits)
qed

fun harmless :: "statement \<Rightarrow> bool" where
  "harmless (RenameTable old new) \<longleftrightarrow> new \<noteq> ''workflows''"
| "harmless (RenameColumn name old new) \<longleftrightarrow> True"
| "harmless UpdateEventTypes \<longleftrightarrow> True"
| "harmless (SetVersion n) \<longleftrightarrow> True"
| "harmless _ \<longleftrightarrow> False"

lemma renamed_parents:
  "fk_parent ` set (tb_foreign_keys (rename_parent_column name old new t)) = fk_parent ` set (tb_foreign_keys t)"
  "fk_parent ` set (tb_foreign_keys (rename_own_column old new t)) = fk_parent ` set (tb_foreign_keys t)"
  "fk_parent ` set (tb_foreign_keys (retarget old new t)) = renamed old new ` fk_parent ` set (tb_foreign_keys t)"
  "fk_parent ` set (tb_foreign_keys (if b then rename_own_column old new t else t)) = fk_parent ` set (tb_foreign_keys t)"
  by (simp_all add: rename_parent_column_def rename_own_column_def retarget_def image_image if_distrib [of fk_parent])
    (force simp: image_Un image_image)

lemma retarget_parents:
  "new \<noteq> ''workflows'' \<Longrightarrow> old = ''workflows'' \<or> ''workflows'' \<notin> fk_parent ` set (tb_foreign_keys t) \<Longrightarrow>
    ''workflows'' \<notin> fk_parent ` set (tb_foreign_keys (retarget old new t))"
  unfolding renamed_parents by (auto simp: renamed_def)

lemma rename_no_workflows:
  assumes "rename_table l old new c = Inr c'" and "new \<noteq> ''workflows''" and "no_workflows c \<or> old = ''workflows'' \<and> \<not> l"
  shows "no_workflows c'"
proof -
  have "ct_tables c' = map (\<lambda>(k, t). (renamed old new k, if l then t else retarget old new t)) (ct_tables c)"
    using assms(1) by (auto simp: rename_table_def split: if_splits)
  then show ?thesis
    using assms(2,3) retarget_parents [of new old] by (fastforce simp: no_workflows_def renamed_def split: if_splits)
qed

lemma harmless_no_workflows:
  assumes "harmless s" and "exec l s c = Inr c'" and "no_workflows c"
  shows "no_workflows c'"
proof (cases s)
  case (RenameTable old new)
  with assms show ?thesis by (auto intro: rename_no_workflows)
next
  case (RenameColumn name old new)
  with assms(2) have "ct_tables c' = map (\<lambda>(k, t). (k, rename_parent_column name old new
      (if k = name then rename_own_column old new t else t))) (ct_tables c)"
    by (auto simp: rename_column_def split: option.splits if_splits)
  then show ?thesis
    using assms(3) by (simp add: no_workflows_def renamed_parents split_beta)
next
  case UpdateEventTypes
  with assms(2) obtain f where "c' = set_rows ''workflow_run_events'' f c" by (auto split: option.splits if_splits)
  with assms(3) show ?thesis
    by (simp add: no_workflows_def set_rows_def split_beta if_distrib [of tb_foreign_keys] cong: if_cong)
qed (use assms in \<open>auto simp: no_workflows_def\<close>)

lemma run_no_workflows:
  "\<forall>s \<in> set ss. harmless s \<Longrightarrow> run_script l ss c = (None, c') \<Longrightarrow> no_workflows c \<Longrightarrow> no_workflows c'"
  by (induction ss arbitrary: c) (auto split: sum.splits dest: harmless_no_workflows)

lemma migrate_settles:
  assumes "run_script False migrate_script c = (None, c')"
  shows "settled c'"
proof -
  have "migrate_script = take 4 migrate_script @ RenameTable ''workflows'' ''workflow_runs'' # drop 5 migrate_script"
    by (simp add: migrate_script_def)
  then have "run_script False (take 4 migrate_script @ RenameTable ''workflows'' ''workflow_runs'' # drop 5 migrate_script) c = (None, c')"
    using assms by simp
  then obtain d1 d2 where d: "rename_table False ''workflows'' ''workflow_runs'' d1 = Inr d2"
    "run_script False (drop 5 migrate_script) d2 = (None, c')"
    by (auto simp: run_append simp del: append_take_drop_id split: prod.splits option.splits sum.splits)
  have "no_workflows d2" using rename_no_workflows [OF d(1)] by simp
  moreover have "\<forall>s \<in> set (drop 5 migrate_script). harmless s" by (simp add: migrate_script_def)
  ultimately show ?thesis using run_no_workflows [OF _ d(2)] no_workflows_settled by blast
qed

lemma drop_settles: "run_script False drop_script c = (None, c') \<Longrightarrow> settled c'"
  by (auto simp: drop_script_def settled_def refers_to_workflows_def)

lemma replace_table:
  assumes "run_script True [RenameTable a b, CreateTable a t, InsertSelect a b, DropTable b] c = (None, c')" and "a \<noteq> b"
  shows "\<exists>rows. table_of c' a = Some (t\<lparr>tb_rows := rows\<rparr>)" and "k \<noteq> a \<Longrightarrow> k \<noteq> b \<Longrightarrow> table_of c' k = table_of c k"
proof -
  from assms(1) obtain d e f where d: "rename_table True a b c = Inr d" "exec True (CreateTable a t) d = Inr e"
    "exec True (InsertSelect a b) e = Inr f" "c' = drop_table b f"
    by (auto split: sum.splits)
  note table_of_rename [OF d(1)]
  with d(2-4) assms(2) show "\<exists>rows. table_of c' a = Some (t\<lparr>tb_rows := rows\<rparr>)"
    and "k \<noteq> a \<Longrightarrow> k \<noteq> b \<Longrightarrow> table_of c' k = table_of c k"
    by (auto split: if_splits option.splits)
qed

lemma repair_settles:
  assumes "repair_foreign_keys c = (None, c')" and "table_of c ''workflows'' = None"
  shows "settled c'"
proof -
  let ?S = "refers_to_workflows c ''steps''" and ?L = "refers_to_workflows c ''workflow_run_leases''"
  have steps: "table_of d ''workflows'' = None \<and> \<not> refers_to_workflows d ''steps'' \<and>
      table_of d ''workflow_run_leases'' = table_of c' ''workflow_run_leases''"
    if "run_script True repair_steps c' = (None, d)" "table_of c' ''workflows'' = None" for c' d
  proof -
    have r: "run_script True [RenameTable ''steps'' ''steps_with_legacy_foreign_key'', CreateTable ''steps'' steps_table,
        InsertSelect ''steps'' ''steps_with_legacy_foreign_key'', DropTable ''steps_with_legacy_foreign_key'']
        (c'\<lparr>ct_indexes := filter (\<lambda>(k, t). k \<noteq> ''idx_steps_runnable'') (ct_indexes c')\<rparr>) = (None, d)"
      using that(1) unfolding repair_steps_def by simp
    from replace_table(1) [OF r] replace_table(2) [OF r, of "''workflows''"]
      replace_table(2) [OF r, of "''workflow_run_leases''"] that(2)
    show ?thesis by (auto simp: refers_to_workflows_def steps_table_def references_def)
  qed
  have leases: "table_of d ''workflows'' = None \<and> \<not> refers_to_workflows d ''workflow_run_leases'' \<and>
      table_of d ''steps'' = table_of c' ''steps''"
    if r: "run_script True repair_leases c' = (None, d)" and "table_of c' ''workflows'' = None" for c' d
    using replace_table(1) [OF r [unfolded repair_leases_def]] replace_table(2) [OF r [unfolded repair_leases_def], of "''workflows''"]
      replace_table(2) [OF r [unfolded repair_leases_def], of "''steps''"] that(2)
    by (auto simp: refers_to_workflows_def leases_table_def references_def)
  show ?thesis
  proof (cases "?S \<or> ?L")
    case False
    with assms show ?thesis by (simp add: repair_foreign_keys_def settled_def)
  next
    case True
    then have "run_script True ((if ?S then repair_steps else []) @ (if ?L then repair_leases else [])) c = (None, c')"
      using assms(1) by (auto simp: repair_foreign_keys_def in_transaction_def Let_def split: prod.splits option.splits)
    then obtain d where d: "run_script True (if ?S then repair_steps else []) c = (None, d)"
      "run_script True (if ?L then repair_leases else []) d = (None, c')"
      unfolding run_append by (auto split: prod.splits option.splits)
    have mid: "table_of d ''workflows'' = None \<and> \<not> refers_to_workflows d ''steps'' \<and>
        table_of d ''workflow_run_leases'' = table_of c ''workflow_run_leases''"
      using d(1) steps [of c d] assms(2) by (auto split: if_splits)
    show ?thesis
    proof (cases ?L)
      case True
      then show ?thesis using d(2) leases [of d c'] mid by (simp add: settled_def refers_to_workflows_def)
    next
      case False
      then have "c' = d" "\<not> refers_to_workflows d ''workflow_run_leases''"
        using d(2) mid by (simp_all add: refers_to_workflows_def)
      with mid show ?thesis by (simp add: settled_def)
    qed
  qed
qed

lemma prepare_settles:
  assumes "prepare c = (None, c')"
  shows "settled c'"
proof (cases "table_of c ''workflows''")
  case None
  with assms show ?thesis by (auto simp: prepare_def intro: repair_settles)
next
  case (Some t)
  with assms consider "run_script False drop_script c = (None, c')" | "in_transaction False migrate_script c = (None, c')"
    by (auto simp: prepare_def split: if_splits)
  then show ?thesis
    by cases (auto simp: in_transaction_def intro: drop_settles migrate_settles split: prod.splits option.splits)
qed

lemma initialize_resumes:
  assumes "prepare c = (None, c1)" and "initialize c = (None, c')"
  shows "initialize (snd (run_script False (take k create_script) c1)) = (None, c')"
proof -
  have r: "run_script False create_script c1 = (None, c')" using assms by (simp add: initialize_def)
  note s = run_resume [OF create_script_creates r]
  from settled_prepare [OF s(2) [OF prepare_settles [OF assms(1)]]] s(1) show ?thesis
    by (simp add: initialize_def)
qed

section \<open>Properties\<close>

text \<open>C34: a version 3 database is migrated without loss: the result is exactly the version 4
  database with the same rows, the event types under their new names, every foreign key on
  the renamed tables and both append-only triggers in place. Opening a version 4 database
  changes nothing, and a new file becomes the empty version 4 database.\<close>

theorem migration_exact:
  assumes "content_ok x"
  shows "initialize (v3_catalog x) = (None, v4_catalog x) \<and> initialize (v4_catalog x) = (None, v4_catalog x) \<and>
    initialize empty_catalog = (None, v4_catalog \<lparr>co_runs = [], co_steps = [], co_dependencies = [],
      co_events = [], co_leases = [], co_throttles = []\<rparr>)"
  using initialize_v3 [OF assms] initialize_v4 initialize_empty by blast

text \<open>C35: the repair of a database whose tables were renamed with legacy semantics: whatever its
  rows, the dangling references to \<open>workflows\<close> are replaced and the result has the tables,
  rows, indexes and triggers of version 4.\<close>

theorem repair_exact:
  "\<exists>c. initialize (broken_catalog x) = (None, c) \<and> same_catalog c (v4_catalog x)"
  by (rule initialize_broken)

text \<open>C36: opening a database is safe to repeat and to interrupt. From any catalog at all, once
  the preparation has been committed, the process may die after any number of statements of
  the creating script: the next start completes exactly the same catalog. In particular
  (after all of them) a second start changes nothing.\<close>

theorem initialize_restartable:
  assumes "prepare c = (None, c1)" and "initialize c = (None, c')"
  shows "initialize (snd (run_script False (take k create_script) c1)) = (None, c') \<and> initialize c' = (None, c')"
proof -
  have "run_script False create_script c1 = (None, c')" using assms by (simp add: initialize_def)
  then show ?thesis
    using initialize_resumes [OF assms, of k] initialize_resumes [OF assms, of "length create_script"] by simp
qed

lemma run_error: "run_script l ss c = (Some e, c') \<Longrightarrow> e \<noteq> LegacyDatabaseError"
proof (induction ss arbitrary: c)
  case (Cons s ss)
  have "exec l s c \<noteq> Inl LegacyDatabaseError"
    by (cases s) (auto simp: rename_table_def rename_column_def split: option.splits)
  with Cons show ?case by (auto split: sum.splits)
qed simp

lemma drop_succeeds: "fst (run_script l drop_script c) = None"
  by (simp add: drop_script_def)

text \<open>A database that cannot be prepared is left as it was: the migration and the repair roll
  back as a whole, and a non-empty pre-DAG database is refused, by \<open>LegacyDatabaseError\<close> and
  by no other cause, before anything is touched.\<close>

theorem refused_database_untouched:
  assumes "prepare c = (Some e, c')"
  shows "c' = c \<and> initialize c = (Some e, c) \<and> (e = LegacyDatabaseError \<longleftrightarrow>
    (\<exists>t. table_of c ''workflows'' = Some t \<and> ''definition_json'' \<notin> set (column_names t) \<and> tb_rows t \<noteq> []))"
proof -
  have tx: "c' = c \<and> e \<noteq> LegacyDatabaseError" if "in_transaction l ss c = (Some e, c')" for l ss
    using that run_error [of l ss c] by (auto simp: in_transaction_def split: prod.splits option.splits)
  have "c' = c \<and> (e = LegacyDatabaseError \<longleftrightarrow>
    (\<exists>t. table_of c ''workflows'' = Some t \<and> ''definition_json'' \<notin> set (column_names t) \<and> tb_rows t \<noteq> []))"
  proof (cases "table_of c ''workflows''")
    case None
    then have "repair_foreign_keys c = (Some e, c')" using assms by (simp add: prepare_def)
    with None tx show ?thesis by (auto simp: repair_foreign_keys_def Let_def split: if_splits)
  next
    case (Some t)
    then show ?thesis
      using assms tx [of False migrate_script] drop_succeeds [of False c]
      by (auto simp: prepare_def split: if_splits)
  qed
  with assms show ?thesis by (simp add: initialize_def)
qed

definition pre_dag_catalog :: catalog where
  "pre_dag_catalog = empty_catalog\<lparr>ct_tables := [(''workflows'',
     \<lparr>tb_columns = [(''id'', ''TEXT''), (''input_json'', ''TEXT'')], tb_keys = [PrimaryKey [''id'']], tb_foreign_keys = [],
      tb_rows = [[SqlText ''old'', SqlText ''{}'']]\<rparr>)]\<rparr>"

theorem refused_database_untouched_witness: "initialize pre_dag_catalog = (Some LegacyDatabaseError, pre_dag_catalog)"
proof -
  have "prepare pre_dag_catalog = (Some LegacyDatabaseError, pre_dag_catalog)"
    by (simp add: prepare_def pre_dag_catalog_def empty_catalog_def table_of_def column_names_def)
  from refused_database_untouched [OF this] show ?thesis by simp
qed

definition small_content :: content where
  "small_content = \<lparr>co_runs = [[SqlText ''a1'']], co_steps = [], co_dependencies = [],
     co_events = [[SqlInteger 1, SqlText ''a1'', SqlInteger 1, SqlText ''WorkflowRunCreated'', SqlInteger 3,
       SqlNull, SqlNull, SqlText ''{}'', SqlText ''t'']], co_leases = [], co_throttles = []\<rparr>"

lemma small_content_ok: "content_ok small_content"
  by (simp add: content_ok_def small_content_def event_columns_def column_names_def events_table_def)

theorem migration_exact_witness: "initialize (v3_catalog small_content) = (None, v4_catalog small_content)"
  using migration_exact [OF small_content_ok] by simp

theorem initialize_restartable_witness:
  "initialize (snd (run_script False (take 5 create_script) empty_catalog)) =
    (None, v4_catalog \<lparr>co_runs = [], co_steps = [], co_dependencies = [], co_events = [], co_leases = [], co_throttles = []\<rparr>)"
proof -
  have "prepare empty_catalog = (None, empty_catalog)"
    by (simp add: prepare_def repair_foreign_keys_def refers_to_workflows_def table_of_def empty_catalog_def)
  from initialize_restartable [OF this initialize_empty, of 5] show ?thesis by simp
qed

end
