(* ===== verification/Tool_Service.thy ===== *)
theory Tool_Service
  imports Config Schema
begin

text \<open>
  The HTTP side of the tool: the request \<open>HttpToolGateway.execute\<close> posts and the application
  of \<open>create_app\<close> in \<open>crashsafe/mock_tool.py\<close> that answers it: its settings, its routes, the
  forced and the random failures, what follows a commit, and the files of the ledger. The
  framework hands a handler the path, the headers and a JSON body; \<open>parse\<close> is its validation
  of the body by the request models, \<open>float_str\<close> Python's \<open>str\<close> of a float, \<open>canonical\<close> the
  canonical text of a UUID, and \<open>path_of\<close> the path that the HTTP client asks for when it is
  given a URL. Writing the signal file is taken to succeed.
\<close>

section \<open>The posted request\<close>

record http_post =
  po_url :: string
  po_headers :: "(string \<times> string) list"
  po_body :: json

definition IDEMPOTENCY_HEADER :: string where
  "IDEMPOTENCY_HEADER = ''Idempotency-Key''"

definition DEBUG_DELAY_HEADER :: string where
  "DEBUG_DELAY_HEADER = ''X-Crashsafe-Delay-After-Commit''"

definition base_url :: "string \<Rightarrow> string" where
  "base_url url = rev (dropWhile (\<lambda>c. c = CHR ''/'') (rev url))"

definition gateway_post :: "environment \<Rightarrow> string \<Rightarrow> step_record \<Rightarrow> http_post" where
  "gateway_post env url s =
     \<lparr>po_url = base_url url @ ''/tools/'' @ step_name_value (st_operation s),
      po_headers = (IDEMPOTENCY_HEADER, st_operation_key s) #
        (if env ''CRASHSAFE_DELAY_AFTER_TOOL_COMMIT'' = Some (step_name_value (st_operation s))
         then [(DEBUG_DELAY_HEADER, ''true'')] else []),
      po_body = st_request s\<rparr>"

section \<open>The settings of the tool\<close>

definition step_name_of :: "string \<Rightarrow> step_name option" where
  "step_name_of text = find (\<lambda>op. step_name_value op = text) Enum.enum"

datatype tool_config_error = ToolSettings config_error | UnknownOperation string

record tool_app =
  ta_flaky_rate :: py_float
  ta_retry_after :: py_float
  ta_forced_operation :: "step_name option"

definition tool_settings :: "config_error + 'a \<Rightarrow> tool_config_error + 'a" where
  "tool_settings x = (case x of Inl e \<Rightarrow> Inl (ToolSettings e) | Inr y \<Rightarrow> Inr y)"

definition forced_operation :: "environment \<Rightarrow> tool_config_error + step_name option" where
  "forced_operation env = (case env ''CRASHSAFE_FAIL_FIRST_OPERATION'' of
     None \<Rightarrow> Inr None
   | Some text \<Rightarrow> (case step_name_of text of None \<Rightarrow> Inl (UnknownOperation text) | Some op \<Rightarrow> Inr (Some op)))"

text \<open>\<open>create_app\<close> on the ledger it opened.\<close>

definition create_app :: "environment \<Rightarrow> ledger \<Rightarrow> tool_config_error + tool_app \<times> tool_state" where
  "create_app env l =
     rbind (tool_settings (from_env env)) (\<lambda>_.
     rbind (tool_settings (float_env env ''CRASHSAFE_FLAKY_RATE'' ''0.35'')) (\<lambda>flaky_rate.
     rbind (tool_settings (float_env env ''CRASHSAFE_RETRY_AFTER'' ''1.0'')) (\<lambda>retry_after.
     rbind (tool_settings (int_env env ''CRASHSAFE_FAIL_FIRST_N'' ''0'')) (\<lambda>forced_failures.
     rbind (forced_operation env) (\<lambda>operation.
       Inr (\<lparr>ta_flaky_rate = flaky_rate, ta_retry_after = retry_after, ta_forced_operation = operation\<rparr>,
            \<lparr>ts_ledger = l, ts_forced_failures = forced_failures,
              ts_operation_pending = operation \<noteq> None\<rparr>))))))"

section \<open>The endpoint\<close>

text \<open>\<open>time.sleep\<close> refuses NaN, negative and overlong durations.\<close>

fun sleep_ok :: "py_float \<Rightarrow> bool" where
  "sleep_ok (Finite x) \<longleftrightarrow> 0 \<le> x \<and> to_double (x * 1000000000) < 2 ^ 63"
| "sleep_ok _ \<longleftrightarrow> False"

text \<open>After a new commit: the file written, with its text, and whether the sleep returns.\<close>

definition commit_signal :: "environment \<Rightarrow> string \<Rightarrow> (string \<times> string) option" where
  "commit_signal env key = map_option (\<lambda>file. (file, key)) (nonempty_env env ''CRASHSAFE_COMMIT_SIGNAL_FILE'')"

definition commit_delay_ok :: "environment \<Rightarrow> string option \<Rightarrow> bool" where
  "commit_delay_ok env delay \<longleftrightarrow> (delay = Some ''true'' \<longrightarrow>
     (case env ''CRASHSAFE_COMMIT_DELAY'' of None \<Rightarrow> True
      | Some text \<Rightarrow> (case float_of_text text of None \<Rightarrow> False | Some x \<Rightarrow> sleep_ok x)))"

text \<open>
  \<open>execute\<close> on a validated request. \<open>rnd\<close> is what \<open>rng.random()\<close> returns. \<open>find\<close> and \<open>apply\<close> are
  two transactions: the ledger that \<open>apply\<close> sees is \<open>interim\<close> of the one \<open>find\<close> saw, what
  other requests committed in between.
\<close>

definition execute_valid :: "(json \<Rightarrow> string) \<Rightarrow> (py_float \<Rightarrow> string) \<Rightarrow> environment \<Rightarrow> tool_app \<Rightarrow> rat
    \<Rightarrow> string \<Rightarrow> timestamp \<Rightarrow> (ledger \<Rightarrow> ledger) \<Rightarrow> step_name \<Rightarrow> string \<Rightarrow> string option \<Rightarrow> json
    \<Rightarrow> tool_state \<Rightarrow> (http_response \<times> (string \<times> string) option) \<times> tool_state" where
  "execute_valid digest float_str env app rnd uuid now interim op key delay req t =
     (case find_result digest op key req (ts_ledger t) of
        Inl _ \<Rightarrow> ((http_failure 409 None, None), t)
      | Inr (Some committed) \<Rightarrow> ((http_ok committed, None), t)
      | Inr None \<Rightarrow>
          (case force_failure (ta_forced_operation app) op t of (forced, t) \<Rightarrow>
             if forced \<or> float_less (Finite rnd) (ta_flaky_rate app)
             then ((http_failure 429 (Some (float_str (ta_retry_after app))), None), t)
             else (case apply_tool digest uuid now op key req (interim (ts_ledger t)) of
                (Inl (IdempotencyConflictError _), l) \<Rightarrow> ((http_failure 409 None, None), t\<lparr>ts_ledger := l\<rparr>)
              | (Inl LedgerIntegrityError, l) \<Rightarrow> ((http_failure 500 None, None), t\<lparr>ts_ledger := l\<rparr>)
              | (Inr (result, new), l) \<Rightarrow>
                  if \<not> new then ((http_ok result, None), t\<lparr>ts_ledger := l\<rparr>)
                  else ((if commit_delay_ok env delay then http_ok result else http_failure 500 None,
                         commit_signal env key), t\<lparr>ts_ledger := l\<rparr>))))"

text \<open>A payload that fails validation raises inside the endpoint: HTTP 500.\<close>

definition execute :: "(step_name \<Rightarrow> json \<Rightarrow> json option) \<Rightarrow> (json \<Rightarrow> string) \<Rightarrow> (py_float \<Rightarrow> string)
    \<Rightarrow> environment \<Rightarrow> tool_app \<Rightarrow> rat \<Rightarrow> string \<Rightarrow> timestamp \<Rightarrow> (ledger \<Rightarrow> ledger) \<Rightarrow> step_name \<Rightarrow> string
    \<Rightarrow> string option \<Rightarrow> json \<Rightarrow> tool_state \<Rightarrow> (http_response \<times> (string \<times> string) option) \<times> tool_state" where
  "execute parse digest float_str env app rnd uuid now interim op key delay payload t =
     (case parse op payload of
        None \<Rightarrow> ((http_failure 500 None, None), t)
      | Some req \<Rightarrow> execute_valid digest float_str env app rnd uuid now interim op key delay req t)"

text \<open>
  \<open>@app.post("/tools/{operation}")\<close> on the path and the request: the parameter is one segment of
  the path and must name an operation, the header is required, the body is an object. A
  path that is not of this form has no route (HTTP 404), the rest is HTTP 422.
\<close>

fun is_object :: "json \<Rightarrow> bool" where
  "is_object (JObj _) \<longleftrightarrow> True"
| "is_object _ \<longleftrightarrow> False"

datatype routed = NoRoute | Unprocessable | Routed step_name string "string option" json

definition route :: "string \<Rightarrow> (string \<times> string) list \<Rightarrow> json \<Rightarrow> routed" where
  "route path headers body =
     (let segment = drop (length ''/tools/'') path in
      if take (length ''/tools/'') path \<noteq> ''/tools/'' \<or> segment = [] \<or> CHR ''/'' \<in> set segment then NoRoute
      else if \<not> is_object body then Unprocessable
      else (case (step_name_of segment, map_of headers IDEMPOTENCY_HEADER) of
          (Some op, Some key) \<Rightarrow> Routed op key (map_of headers DEBUG_DELAY_HEADER) body
        | _ \<Rightarrow> Unprocessable))"

text \<open>\<open>GET /ledger\<close>; \<open>None\<close> is the 422 of a malformed \<open>run_id\<close>.\<close>

definition ledger_endpoint :: "(string \<Rightarrow> string option) \<Rightarrow> string option \<Rightarrow> ledger \<Rightarrow> ledger_summary option" where
  "ledger_endpoint canonical run_id l = (case run_id of
     None \<Rightarrow> Some (summary None l)
   | Some text \<Rightarrow> map_option (\<lambda>r. summary (Some r) l) (canonical text))"

section \<open>What the endpoint promises\<close>

lemma step_name_roundtrip: "step_name_of (step_name_value op) = Some op"
  by (cases op) (simp_all add: step_name_of_def enum_step_name_def)

text \<open>The origin of a URL, and paths that no HTTP client rewrites.\<close>

definition origin_ok :: "string \<Rightarrow> string \<Rightarrow> bool" where
  "origin_ok scheme host \<longleftrightarrow> scheme \<in> {''http'', ''https''} \<and> host \<noteq> [] \<and>
     list_all (\<lambda>c. c \<notin> {CHR ''/'', CHR ''?'', CHR ''#'', CHR ''@''}) host"

definition plain_path :: "string \<Rightarrow> bool" where
  "plain_path path \<longleftrightarrow> path \<noteq> [] \<and> hd path = CHR ''/'' \<and>
     list_all (\<lambda>c. c = CHR ''/'' \<or> c \<in> {CHR ''a'' .. CHR ''z''}) path"

lemma base_url_origin:
  assumes "origin_ok scheme host"
  shows "base_url (scheme @ ''://'' @ host @ replicate n (CHR ''/'')) = scheme @ ''://'' @ host"
proof -
  obtain c cs where c: "rev host = c # cs" "c \<noteq> CHR ''/''"
    using assms by (cases "rev host") (auto simp: origin_ok_def list_all_iff dest: arg_cong [of _ _ set])
  have "dropWhile (\<lambda>c. c = CHR ''/'') (replicate n (CHR ''/'') @ c # ds) = c # ds" for ds
    using c(2) by (induction n) simp_all
  then have "dropWhile (\<lambda>c. c = CHR ''/'') (rev (scheme @ ''://'' @ host @ replicate n (CHR ''/''))) =
      rev (scheme @ ''://'' @ host)"
    using c(1) by simp
  then show ?thesis by (simp only: base_url_def rev_rev_ident)
qed

lemma operation_path: "plain_path (''/tools/'' @ step_name_value op)"
  by (cases op) (simp_all add: plain_path_def less_eq_char_simp)

text \<open>C19: the tool receives what the engine sends. Let the tool be configured by its origin,
  followed by any number of slashes, and let the HTTP client ask the host of a URL for the
  path of that URL. Then the post of the gateway for a recorded step with an object as its
  request reaches the route \<open>/tools/{operation}\<close> of the application, which takes from it exactly
  the step's operation, its idempotency key and its body, and sees the debugging header
  only for the operation named in the environment. (With a slash left on the URL the path
  would begin with two, and have no route.)\<close>

theorem requests_arrive:
  assumes "is_object (st_request s)" and "origin_ok scheme host"
    and client: "\<And>path. plain_path path \<Longrightarrow> path_of (scheme @ ''://'' @ host @ path) = path"
    and "post = gateway_post env (scheme @ ''://'' @ host @ replicate n (CHR ''/'')) s"
  shows "route (path_of (po_url post)) (po_headers post) (po_body post) = Routed (st_operation s) (st_operation_key s)
     (if env ''CRASHSAFE_DELAY_AFTER_TOOL_COMMIT'' = Some (step_name_value (st_operation s)) then Some ''true'' else None)
     (st_request s)"
proof -
  let ?op = "step_name_value (st_operation s)"
  have "po_url post = scheme @ ''://'' @ host @ ''/tools/'' @ ?op"
    using base_url_origin [OF assms(2), of n] by (simp add: assms(4) gateway_post_def)
  then have "path_of (po_url post) = ''/tools/'' @ ?op" using client [OF operation_path] by simp
  moreover have "?op \<noteq> []" "CHR ''/'' \<notin> set ?op" by (cases "st_operation s"; simp)+
  ultimately show ?thesis
    using assms(1)
    by (simp add: route_def assms(4) gateway_post_def step_name_roundtrip IDEMPOTENCY_HEADER_def DEBUG_DELAY_HEADER_def)
qed

lemma http_simps [simp]:
  "hr_status (http_ok r) = 200" "hr_result (http_ok r) = Some r" "hr_status (http_failure c x) = c"
  "hr_result (http_failure c x) = None" "hr_retry_after (http_failure c x) = x"
  by (simp_all add: http_ok_def http_failure_def)

lemma force_failure_ledger [simp]: "ts_ledger (snd (force_failure f op t)) = ts_ledger t"
  by (simp add: force_failure_def)

lemma find_cached:
  assumes "find_result digest op key req l = Inr (Some res)"
  obtains x where "cached l key = Some x" and "\<not> conflicts digest op req x" and "res = deduplicated (ir_response x)"
  using assms by (auto simp: find_result_def split: option.splits if_splits)

lemma find_none: "find_result digest op key req l = Inr None \<longleftrightarrow> cached l key = None"
  by (auto simp: find_result_def split: option.splits)

lemma apply_conflict:
  assumes "fst (apply_tool digest uuid now op key req l) = Inl (IdempotencyConflictError k)"
  shows "\<exists>x. cached l key = Some x \<and> conflicts digest op req x"
  using assms
  by (cases "cached l key")
    (auto simp: apply_tool_def apply_body_def insert_effect_def insert_result_def Let_def split: if_splits)

lemma apply_tool_committed:
  assumes "apply_tool digest uuid now op key req l = (Inr (res, new), l')"
  shows "\<exists>x. cached l' key = Some x \<and> \<not> conflicts digest op req x \<and>
    tr_reference_id res = tr_reference_id (ir_response x)"
  using assms
  by (cases rule: apply_tool_cases [of digest uuid now op key req l])
    (auto simp: cached_append conflicts_def deduplicated_def)

lemma apply_tool_integrity:
  assumes "apply_tool digest uuid now op key req l = (Inl LedgerIntegrityError, l')"
  shows "cached l key = None" and "l' = l"
  using assms
  by (auto simp: apply_tool_def apply_body_def insert_effect_def insert_result_def Let_def
      split: option.splits if_splits)

lemma apply_tool_refused: "apply_tool digest uuid now op key req l = (Inl e, l') \<Longrightarrow> l' = l"
  by (auto simp: apply_tool_def split: sum.splits)

text \<open>What one call did, by its status.\<close>

text \<open>What follows a request that is not throttled: the application of its effect.\<close>

lemma apply_answer_cases:
  assumes "apply_tool digest uuid now op key req l0 = (y, l)"
  obtains (conflict) k x where "y = Inl (IdempotencyConflictError k)" and "cached l key = Some x" and "conflicts digest op req x"
  | (integrity) "y = Inl LedgerIntegrityError" and "cached l key = None"
  | (applied) res new x where "y = Inr (res, new)" and "cached l key = Some x" and "\<not> conflicts digest op req x"
      and "tr_reference_id res = tr_reference_id (ir_response x)"
proof (cases y)
  case (Inl e)
  note same = apply_tool_refused [OF assms [unfolded Inl]]
  show thesis
  proof (cases e)
    case (IdempotencyConflictError k)
    with apply_conflict [of digest uuid now op key req l0 k] assms Inl same obtain x where
      "cached l key = Some x" "conflicts digest op req x" by auto
    then show thesis using conflict Inl IdempotencyConflictError by blast
  next
    case LedgerIntegrityError
    with apply_tool_integrity [of digest uuid now op key req l0 l] assms Inl show thesis by (intro integrity) simp_all
  qed
next
  case (Inr z)
  then obtain res new where z: "y = Inr (res, new)" by (cases z) simp
  from apply_tool_committed [OF assms [unfolded z]] show thesis using applied [OF z] by blast
qed

lemma execute_cases:
  assumes "execute_valid digest float_str env app rnd uuid now interim op key delay req t = ((r, sig), t')"
    and keeps: "\<And>x. cached (ts_ledger t) key = Some x \<Longrightarrow> cached (interim (ts_ledger t)) key = Some x"
  obtains (refused) x where "hr_status r = 409" and "cached (ts_ledger t') key = Some x" and "conflicts digest op req x"
  | (throttled) "hr_status r = 429" and "ts_ledger t' = ts_ledger t" and "cached (ts_ledger t') key = None"
  | (failed) "hr_status r = 500" and "hr_result r = None" and "cached (ts_ledger t') key = None"
  | (committed) x where "hr_status r = 200 \<or> hr_status r = 500" and "cached (ts_ledger t') key = Some x"
      and "\<not> conflicts digest op req x"
      and "\<And>res. hr_result r = Some res \<Longrightarrow> tr_reference_id res = tr_reference_id (ir_response x)"
proof (cases "find_result digest op key req (ts_ledger t)")
  case (Inl e)
  then obtain x where x: "cached (ts_ledger t) key = Some x" "conflicts digest op req x"
    by (auto simp: find_result_def split: option.splits if_splits)
  with Inl assms(1) show thesis by (intro refused [of x]) (auto simp: execute_valid_def)
next
  case (Inr found)
  show thesis
  proof (cases found)
    case (Some res)
    with Inr find_cached [of digest op key req "ts_ledger t" res] obtain x where
      x: "cached (ts_ledger t) key = Some x" "\<not> conflicts digest op req x" "res = deduplicated (ir_response x)" by blast
    have "r = http_ok res" "t' = t" using assms(1) Inr Some by (auto simp: execute_valid_def)
    moreover have "tr_reference_id res = tr_reference_id (ir_response x)" by (simp add: x(3) deduplicated_def)
    ultimately show thesis using x(1,2) by (intro committed [of x]) auto
  next
    case None
    with Inr have free: "cached (ts_ledger t) key = None" by (simp add: find_none)
    obtain forced u where f: "force_failure (ta_forced_operation app) op t = (forced, u)" by fastforce
    have u: "ts_ledger u = ts_ledger t" using force_failure_ledger [of "ta_forced_operation app" op t] by (simp add: f)
    show thesis
    proof (cases "forced \<or> float_less (Finite rnd) (ta_flaky_rate app)")
      case True
      with assms(1) Inr None f have "hr_status r = 429" "t' = u" by (auto simp: execute_valid_def)
      with free u show thesis by (intro throttled) simp_all
    next
      case False
      obtain y l where a: "apply_tool digest uuid now op key req (interim (ts_ledger u)) = (y, l)" by fastforce
      then show thesis
      proof (cases rule: apply_answer_cases)
        case (conflict k x)
        with False assms(1) Inr None f a show thesis by (intro refused [of x]) (auto simp: execute_valid_def)
      next
        case integrity
        with False assms(1) Inr None f a show thesis by (intro failed) (auto simp: execute_valid_def)
      next
        case (applied res new x)
        with False assms(1) Inr None f a have "(r = http_ok res \<or> r = http_failure 500 None) \<and> ts_ledger t' = l"
          by (auto simp: execute_valid_def split: if_splits)
        with applied show thesis by (intro committed [of x]) auto
      qed
    qed
  qed
qed

text \<open>C9: retries are safe at the endpoint. A throttled call left the ledger as it was; a 409
  means that the key is committed for another request; a 200 names the committed result of
  its key. And once the key is committed, even if the call then failed (a 500 after the
  commit), every later call with the same request answers 200 with that result, changes
  nothing and writes no signal, whatever failures are forced, drawn or configured.\<close>

theorem endpoint_retries:
  assumes "execute_valid digest float_str env app rnd uuid now interim op key delay req t = ((r, sig), t')"
    and "\<And>x. cached (ts_ledger t) key = Some x \<Longrightarrow> cached (interim (ts_ledger t)) key = Some x"
    and "\<And>x. cached (ts_ledger t') key = Some x \<Longrightarrow> cached (ts_ledger later) key = Some x"
  shows "(hr_status r = 429 \<longrightarrow> ts_ledger t' = ts_ledger t) \<and>
    (hr_status r = 409 \<longleftrightarrow> (\<exists>x. cached (ts_ledger t') key = Some x \<and> conflicts digest op req x)) \<and>
    (hr_status r = 200 \<longrightarrow> cached (ts_ledger t') key \<noteq> None) \<and>
    (\<forall>x. cached (ts_ledger t') key = Some x \<longrightarrow> hr_status r \<noteq> 409 \<longrightarrow>
      (\<forall>res. hr_result r = Some res \<longrightarrow> tr_reference_id res = tr_reference_id (ir_response x)) \<and>
      execute_valid digest float_str' env' app' rnd' uuid' now' interim' op key delay' req later =
        ((http_ok (deduplicated (ir_response x)), None), later))"
proof -
  have again: "execute_valid digest float_str' env' app' rnd' uuid' now' interim' op key delay' req later =
      ((http_ok (deduplicated (ir_response x)), None), later)"
    if "cached (ts_ledger t') key = Some x" "\<not> conflicts digest op req x" for x
    using that assms(3) [OF that(1)] by (simp add: execute_valid_def find_result_def)
  from assms(1,2) show ?thesis
    by (cases rule: execute_cases) (auto simp: again)
qed

section \<open>The ledger file\<close>

text \<open>The files of a directory by name; \<open>replace\<close> moves a file over its target.\<close>

type_synonym 'a files = "string \<rightharpoonup> 'a"

definition sidecars :: "string list" where
  "sidecars = [[], ''-wal'', ''-shm'']"

definition move_file :: "string \<Rightarrow> string \<Rightarrow> 'a files \<Rightarrow> 'a files" where
  "move_file source target fs = (case fs source of None \<Rightarrow> fs | Some x \<Rightarrow> fs(source := None, target \<mapsto> x))"

definition move_sidecar :: "string \<Rightarrow> string \<Rightarrow> 'a files \<Rightarrow> 'a files" where
  "move_sidecar name suffix = move_file (''tools.db'' @ suffix) (name @ suffix)"

definition needs_migration :: "string \<Rightarrow> 'a files \<Rightarrow> bool" where
  "needs_migration name fs \<longleftrightarrow> name = ''ledger.db'' \<and> fs name = None \<and> fs ''tools.db'' \<noteq> None"

text \<open>\<open>_migrate_legacy_filename\<close>, and what it leaves when the process dies after \<open>k\<close> moves.\<close>

definition migrate_interrupted :: "nat \<Rightarrow> string \<Rightarrow> 'a files \<Rightarrow> 'a files" where
  "migrate_interrupted k name fs =
     (if needs_migration name fs then fold (move_sidecar name) (take k sidecars) fs else fs)"

definition migrate_legacy_filename :: "string \<Rightarrow> 'a files \<Rightarrow> 'a files" where
  "migrate_legacy_filename name fs = migrate_interrupted (length sidecars) name fs"

lemma migration_moves:
  assumes "needs_migration name fs"
  shows "migrate_interrupted k name fs = fold (move_sidecar ''ledger.db'') (take k sidecars) fs"
    and "fs ''ledger.db'' = None" and "name = ''ledger.db''" and "fs ''tools.db'' \<noteq> None"
  using assms by (auto simp: migrate_interrupted_def needs_migration_def)

text \<open>C20: the ledger's old file name. A migration that runs to its end keeps the database with
  both sidecars under the new name, leaves nothing under the old one and is not repeated. But
  the three renames are not one step: after the first, a restart takes the ledger for
  migrated, so a process that dies there leaves the write-ahead log (and with it every
  commit not yet checkpointed) behind under the old name for good.\<close>

theorem ledger_rename:
  assumes "needs_migration name fs"
  shows "(\<forall>x \<in> set sidecars. migrate_legacy_filename name fs (''tools.db'' @ x) = None \<and>
      (fs (''tools.db'' @ x) \<noteq> None \<longrightarrow> migrate_legacy_filename name fs (name @ x) = fs (''tools.db'' @ x))) \<and>
    (1 \<le> k \<longrightarrow> migrate_legacy_filename name (migrate_interrupted k name fs) = migrate_interrupted k name fs) \<and>
    migrate_legacy_filename name (migrate_interrupted 1 name fs) ''tools.db-wal'' = fs ''tools.db-wal''"
proof -
  note m = migration_moves [OF assms]
  obtain x where x: "fs ''tools.db'' = Some x" using m(4) by auto
  have done1: "migrate_interrupted k name fs ''ledger.db'' = Some x" if k: "1 \<le> k" for k
  proof -
    obtain j where "k = Suc j" using k by (cases k) auto
    moreover have "take j [''-wal'', ''-shm''] \<in> {[], [''-wal''], [''-wal'', ''-shm'']}"
      by (cases j; cases "j - 1"; cases "j - 2") auto
    ultimately show ?thesis
      by (auto simp: m(1) sidecars_def move_sidecar_def move_file_def x split: option.splits)
  qed
  have stay: "migrate_legacy_filename name (migrate_interrupted k name fs) = migrate_interrupted k name fs"
    if "1 \<le> k" for k
    using done1 [OF that] m(3)
    by (simp add: migrate_legacy_filename_def migrate_interrupted_def [of "length sidecars"] needs_migration_def)
  have "migrate_interrupted 1 name fs ''tools.db-wal'' = fs ''tools.db-wal''"
    by (simp add: m(1) sidecars_def move_sidecar_def move_file_def x)
  moreover have "\<forall>x \<in> set sidecars. migrate_legacy_filename name fs (''tools.db'' @ x) = None \<and>
      (fs (''tools.db'' @ x) \<noteq> None \<longrightarrow> migrate_legacy_filename name fs (name @ x) = fs (''tools.db'' @ x))"
    by (auto simp: migrate_legacy_filename_def m(1) [unfolded m(3)] m(3) sidecars_def move_sidecar_def move_file_def split: option.splits)
  ultimately show ?thesis using stay by simp
qed

section \<open>The ledger schema\<close>

definition results_table :: table where
  "results_table = \<lparr>tb_columns = [(''operation_key'', ''TEXT''), (''operation'', ''TEXT NOT NULL''),
     (''request_hash'', ''TEXT NOT NULL''), (''response_json'', ''TEXT NOT NULL''), (''created_at'', ''TEXT NOT NULL'')],
     tb_keys = [PrimaryKey [''operation_key'']], tb_foreign_keys = [], tb_rows = []\<rparr>"

definition side_effects_table :: table where
  "side_effects_table = \<lparr>tb_columns = [(''id'', ''TEXT''), (''operation_key'', ''TEXT NOT NULL''),
     (''operation'', ''TEXT NOT NULL''), (''request_json'', ''TEXT NOT NULL''), (''created_at'', ''TEXT NOT NULL'')],
     tb_keys = [PrimaryKey [''id''], Unique [''operation_key'']], tb_foreign_keys = [], tb_rows = []\<rparr>"

definition ledger_initialize :: "catalog \<Rightarrow> schema_error option \<times> catalog" where
  "ledger_initialize c = run_script False
     [CreateMissingTable ''idempotency_results'' results_table,
      CreateMissingTable ''side_effects'' side_effects_table] c"

section \<open>Witnesses\<close>

definition sample_step :: step_record where
  "sample_step = new_step ''a1'' 0 \<lparr>sd_id = ''pay'', sd_position = 0, sd_operation = CHARGE, sd_depends_on = [],
     sd_request = JObj [], sd_operation_key = ''a1:pay'', sd_tool_key = ''mock''\<rparr>"

text \<open>A client that cuts the scheme and the host off a URL.\<close>

definition url_path :: "string \<Rightarrow> string" where
  "url_path url = dropWhile (\<lambda>c. c \<noteq> CHR ''/'') (drop 3 (dropWhile (\<lambda>c. c \<noteq> CHR '':'') url))"

theorem requests_arrive_witness:
  "\<exists>post. post = gateway_post [''CRASHSAFE_DELAY_AFTER_TOOL_COMMIT'' \<mapsto> ''charge''] ''http://h//'' sample_step \<and>
    po_url post = ''http://h/tools/charge'' \<and>
    route (url_path (po_url post)) (po_headers post) (po_body post) = Routed CHARGE ''a1:pay'' (Some ''true'') (JObj [])"
proof -
  let ?post = "gateway_post [''CRASHSAFE_DELAY_AFTER_TOOL_COMMIT'' \<mapsto> ''charge''] ''http://h//'' sample_step"
  have "is_object (st_request sample_step)" by (simp add: sample_step_def new_step_def)
  moreover have "origin_ok ''http'' ''h''" by (simp add: origin_ok_def)
  moreover have "url_path (''http'' @ ''://'' @ ''h'' @ path) = path" if "plain_path path" for path
    using that by (cases path) (simp_all add: url_path_def plain_path_def)
  moreover have "?post = gateway_post [''CRASHSAFE_DELAY_AFTER_TOOL_COMMIT'' \<mapsto> ''charge'']
      (''http'' @ ''://'' @ ''h'' @ replicate 2 (CHR ''/'')) sample_step" by (simp add: numeral_2_eq_2)
  ultimately have "route (url_path (po_url ?post)) (po_headers ?post) (po_body ?post) =
      Routed (st_operation sample_step) (st_operation_key sample_step)
       (if [''CRASHSAFE_DELAY_AFTER_TOOL_COMMIT'' \<mapsto> ''charge''] ''CRASHSAFE_DELAY_AFTER_TOOL_COMMIT'' =
          Some (step_name_value (st_operation sample_step)) then Some ''true'' else None) (st_request sample_step)"
    by (rule requests_arrive)
  moreover have "po_url ?post = ''http://h/tools/charge''"
    by (simp add: gateway_post_def base_url_def sample_step_def new_step_def)
  ultimately show ?thesis by (simp add: sample_step_def new_step_def)
qed

text \<open>A charge that commits and then fails, as its configured delay is empty.\<close>

definition broken_delay :: environment where
  "broken_delay = [''CRASHSAFE_COMMIT_DELAY'' \<mapsto> []]"

definition sample_app :: tool_app where
  "sample_app = \<lparr>ta_flaky_rate = Finite 0, ta_retry_after = Finite 1, ta_forced_operation = None\<rparr>"

definition fresh_tool :: tool_state where
  "fresh_tool = \<lparr>ts_ledger = empty_ledger, ts_forced_failures = 0, ts_operation_pending = False\<rparr>"

definition broken_call :: "(http_response \<times> (string \<times> string) option) \<times> tool_state" where
  "broken_call = execute_valid (\<lambda>_. ''h'') (\<lambda>_. ''1.0'') broken_delay sample_app (1 / 2) ''u1'' 5 id CHARGE ''k''
     (Some ''true'') JNull fresh_tool"

definition broken_answer :: tool_result where
  "broken_answer = \<lparr>tr_operation = CHARGE, tr_reference_id = ''charge_u1'', tr_deduplicated = False\<rparr>"

lemma broken_call_value:
  "hr_status (fst (fst broken_call)) = 500 \<and>
    map_option ir_response (cached (ts_ledger (snd broken_call)) ''k'') = Some broken_answer"
proof -
  have "float_of_text [] = None"
    by (simp add: float_of_text_def strip_def split_sign_def decimal_of_text_def split_at_def)
  then have "\<not> commit_delay_ok broken_delay (Some ''true'')" by (simp add: commit_delay_ok_def broken_delay_def)
  then show ?thesis
    by (simp add: broken_call_def execute_valid_def find_result_def cached_def fresh_tool_def empty_ledger_def
        force_failure_def sample_app_def apply_tool_def apply_body_def insert_effect_def insert_result_def
        broken_answer_def Let_def)
qed

theorem endpoint_retries_witness:
  "execute_valid (\<lambda>_. ''h'') (\<lambda>_. ''1.0'') Map.empty sample_app 0 ''u2'' 6 id CHARGE ''k'' None JNull
      ((snd broken_call)\<lparr>ts_forced_failures := 3\<rparr>) =
    ((http_ok (deduplicated broken_answer), None), (snd broken_call)\<lparr>ts_forced_failures := 3\<rparr>)"
proof -
  let ?later = "(snd broken_call)\<lparr>ts_forced_failures := 3\<rparr>"
  have call: "execute_valid (\<lambda>_. ''h'') (\<lambda>_. ''1.0'') broken_delay sample_app (1 / 2) ''u1'' 5 id CHARGE ''k''
      (Some ''true'') JNull fresh_tool = ((fst (fst broken_call), snd (fst broken_call)), snd broken_call)"
    by (simp add: broken_call_def)
  from broken_call_value obtain x where x: "cached (ts_ledger (snd broken_call)) ''k'' = Some x"
    "ir_response x = broken_answer" by auto
  from endpoint_retries [OF call, of ?later] x broken_call_value show ?thesis by simp
qed

definition legacy_files :: "string files" where
  "legacy_files = [''tools.db'' \<mapsto> ''pages'', ''tools.db-wal'' \<mapsto> ''commits'']"

theorem ledger_rename_witness:
  "migrate_legacy_filename ''ledger.db'' legacy_files ''ledger.db-wal'' = Some ''commits'' \<and>
   migrate_legacy_filename ''ledger.db'' (migrate_interrupted 1 ''ledger.db'' legacy_files) ''tools.db-wal'' = Some ''commits''"
proof -
  have "needs_migration ''ledger.db'' legacy_files" by (simp add: needs_migration_def legacy_files_def)
  note rename = ledger_rename [OF this, of 1]
  have "''-wal'' \<in> set sidecars" by (simp add: sidecars_def)
  then have "migrate_legacy_filename ''ledger.db'' legacy_files (''ledger.db'' @ ''-wal'') = Some ''commits''"
    using rename by (simp add: legacy_files_def)
  moreover have "legacy_files ''tools.db-wal'' = Some ''commits''" by (simp add: legacy_files_def)
  ultimately show ?thesis by (simp add: rename [THEN conjunct2, THEN conjunct2] del: One_nat_def)
qed

end
