(* ===== verification/Supervisor.thy ===== *)
theory Supervisor
  imports Config
begin

text \<open>
  \<open>crashsafe/supervisor.py\<close>: one tool, one API and the configured workers, the workers being
  restarted when they exit. A spawned process is known by the handle \<open>subprocess.Popen\<close>
  returns; \<open>poll\<close> gives the return code of a handle in one round of the monitor.
\<close>

section \<open>Operations\<close>

record process =
  pr_handle :: nat
  pr_module :: string
  pr_worker_id :: "string option"
  pr_pid_file :: "path option"

text \<open>The processes in the order of the dictionary; \<open>sv_spawned\<close> counts the spawned ones.\<close>

record supervisor =
  sv_settings :: settings
  sv_processes :: "(string \<times> process) list"
  sv_stopping :: bool
  sv_spawned :: nat

definition supervisor_init :: "settings \<Rightarrow> supervisor" where
  "supervisor_init s = \<lparr>sv_settings = s, sv_processes = [], sv_stopping = False, sv_spawned = 0\<rparr>"

fun set_slot :: "string \<Rightarrow> 'a \<Rightarrow> (string \<times> 'a) list \<Rightarrow> (string \<times> 'a) list" where
  "set_slot k v [] = [(k, v)]"
| "set_slot k v ((k', v') # ps) = (if k' = k then (k, v) # ps else (k', v') # set_slot k v ps)"

text \<open>Spawn a module into a slot, with the environment entries of a worker.\<close>

definition spawn :: "string \<Rightarrow> string \<Rightarrow> string option \<Rightarrow> path option \<Rightarrow> supervisor \<Rightarrow> supervisor" where
  "spawn name program worker_id pid_file v =
     v\<lparr>sv_processes := set_slot name \<lparr>pr_handle = sv_spawned v, pr_module = program,
         pr_worker_id = worker_id, pr_pid_file = pid_file\<rparr> (sv_processes v),
       sv_spawned := sv_spawned v + 1\<rparr>"

definition worker_name :: "int \<Rightarrow> string" where
  "worker_name i = ''worker-'' @ show_int i"

definition start_worker :: "int \<Rightarrow> supervisor \<Rightarrow> supervisor" where
  "start_worker i v = spawn (worker_name i) ''crashsafe.worker'' (Some (worker_name i))
     (Some (Child (se_state_dir (sv_settings v)) (if i = 1 then ''worker.pid'' else worker_name i @ ''.pid''))) v"

definition start :: "supervisor \<Rightarrow> supervisor" where
  "start v = fold start_worker [1..se_worker_count (sv_settings v)]
     (spawn ''api'' ''crashsafe.api'' None None (spawn ''tool'' ''crashsafe.mock_tool'' None None v))"

text \<open>\<open>name.split("-")\<close>.\<close>

fun split_on :: "char \<Rightarrow> string \<Rightarrow> string list" where
  "split_on c [] = [[]]"
| "split_on c (x # xs) = (if x = c then [] # split_on c xs
     else (case split_on c xs of [] \<Rightarrow> [[x]] | w # ws \<Rightarrow> (x # w) # ws))"

text \<open>\<open>None\<close>: \<open>int()\<close> raises.\<close>

definition check_slot :: "(nat \<Rightarrow> int option) \<Rightarrow> string \<times> process \<Rightarrow> supervisor \<Rightarrow> supervisor option" where
  "check_slot poll slot v = (case slot of (name, p) \<Rightarrow>
     (case poll (pr_handle p) of
        None \<Rightarrow> Some v
      | Some code \<Rightarrow>
          if take 7 name = ''worker-''
          then (case int_of_text (split_on (CHR ''-'') name ! 1) of None \<Rightarrow> None | Some i \<Rightarrow> Some (start_worker i v))
          else Some (v\<lparr>sv_stopping := True\<rparr>)))"

fun check_slots :: "(nat \<Rightarrow> int option) \<Rightarrow> (string \<times> process) list \<Rightarrow> supervisor \<Rightarrow> supervisor option" where
  "check_slots poll [] v = Some v"
| "check_slots poll (slot # slots) v =
     (case check_slot poll slot v of None \<Rightarrow> None | Some v' \<Rightarrow> check_slots poll slots v')"

text \<open>The rounds until a stop is requested, by a signal or by the exit of the tool or the API.\<close>

fun monitor :: "(nat \<Rightarrow> int option) list \<Rightarrow> supervisor \<Rightarrow> supervisor option" where
  "monitor [] v = Some v"
| "monitor (poll # polls) v =
     (if sv_stopping v then Some v
      else (case check_slots poll (sv_processes v) v of None \<Rightarrow> None | Some v' \<Rightarrow> monitor polls v'))"

datatype signal = Terminate nat | Kill nat

text \<open>\<open>in_time\<close>: the process exits before the common deadline.\<close>

definition stop :: "(nat \<Rightarrow> int option) \<Rightarrow> (nat \<Rightarrow> bool) \<Rightarrow> supervisor \<Rightarrow> signal list" where
  "stop poll in_time v =
     (let handles = map (pr_handle \<circ> snd) (sv_processes v) in
      map Terminate (filter (\<lambda>h. poll h = None) handles) @ map Kill (filter (\<lambda>h. \<not> in_time h) handles))"

section \<open>Names\<close>

lemma split_on_none: "c \<notin> set xs \<Longrightarrow> split_on c xs = [xs]"
  by (induction xs) auto

lemma split_on_append: "c \<notin> set xs \<Longrightarrow> split_on c (xs @ c # ys) = xs # split_on c ys"
  by (induction xs) auto

lemma worker_index:
  assumes "1 \<le> i" and "length (show_int i) \<le> 4300"
  shows "int_of_text (split_on (CHR ''-'') (worker_name i) ! 1) = Some i"
proof -
  have s: "show_int i = show_nat (nat i)" using assms(1) by (simp add: show_int_def)
  have "CHR ''-'' \<notin> set (show_nat (nat i))" using show_nat_digits [of "nat i"] digit_facts(3) by blast
  then have "split_on (CHR ''-'') (show_nat (nat i)) = [show_nat (nat i)]" by (rule split_on_none)
  moreover have "split_on (CHR ''-'') (worker_name i) = ''worker'' # split_on (CHR ''-'') (show_nat (nat i))"
    using split_on_append [of "CHR ''-''" "''worker''" "show_nat (nat i)"] by (simp add: worker_name_def s)
  ultimately show ?thesis using int_of_show_nat [of "nat i"] assms by (simp add: s)
qed

lemma worker_name_prefix: "take 7 (worker_name i) = ''worker-''"
  by (simp add: worker_name_def)

text \<open>A configured number of workers was written with at most 4300 digits, so are the indexes.\<close>

lemma length_show_nat: "n < 10 ^ k \<Longrightarrow> 0 < k \<Longrightarrow> length (show_nat n) \<le> k"
proof (induction n arbitrary: k rule: show_nat.induct)
  case (1 n)
  show ?case
  proof (cases "n < 10")
    case True
    with 1(3) show ?thesis by (subst show_nat.simps) simp
  next
    case False
    then obtain j where k: "k = Suc j" "0 < j" using 1(2,3) by (cases k; cases "k - 1") auto
    with 1(2) have "n div 10 < 10 ^ j" by simp
    with 1(1) [OF False] k False show ?thesis by (subst show_nat.simps) auto
  qed
qed

lemma nat_of_digits_bound: "nat_of_digits a ds = Some n \<Longrightarrow> n < (a + 1) * 10 ^ length ds"
proof (induction ds arbitrary: a)
  case (Cons c ds)
  then have n: "n < (10 * a + digit_value c + 1) * 10 ^ length ds" and "is_digit c" by (auto split: if_splits)
  from this(2) have "digit_value c \<le> 9" by (auto simp: is_digit_def digit_value_def Let_def)
  then have "(10 * a + digit_value c + 1) * 10 ^ length ds \<le> (10 * a + 10) * 10 ^ length ds"
    by (intro mult_right_mono) simp_all
  with n have "n < (10 * a + 10) * 10 ^ length ds" by (rule less_le_trans)
  also have "\<dots> = (a + 1) * 10 ^ length (c # ds)" by (simp add: algebra_simps)
  finally show ?case .
qed simp

lemma int_of_text_bound:
  assumes "int_of_text text = Some n" and "1 \<le> i" and "i \<le> n"
  shows "length (show_int i) \<le> 4300"
proof -
  obtain ds m where ds: "nat_of_digits 0 ds = Some m" "length ds \<le> 4300" "ds \<noteq> []" "n = int m \<or> n = - int m"
    using assms(1) by (auto simp: int_of_text_def split: prod.splits option.splits if_splits)
  with assms(2,3) have "n = int m" by linarith
  then have "nat i \<le> m" using assms(3) by simp
  also have "m < 10 ^ length ds" using nat_of_digits_bound [OF ds(1)] by simp
  finally have "length (show_nat (nat i)) \<le> length ds" using ds(3) by (intro length_show_nat) simp_all
  then show ?thesis using assms(2) ds(2) by (simp add: show_int_def)
qed

lemma show_int_inj: "1 \<le> i \<Longrightarrow> 1 \<le> j \<Longrightarrow> show_int i = show_int j \<Longrightarrow> i = j"
proof -
  assume a: "1 \<le> i" "1 \<le> j" "show_int i = show_int j"
  then have "show_nat (nat i) = show_nat (nat j)" by (simp add: show_int_def)
  then have "nat i = nat j" by (metis nat_of_show option.inject)
  with a show ?thesis by linarith
qed

section \<open>Fresh handles\<close>

definition fresh_ok :: "supervisor \<Rightarrow> bool" where
  "fresh_ok v \<longleftrightarrow> distinct (map (pr_handle \<circ> snd) (sv_processes v)) \<and>
     (\<forall>x \<in> set (sv_processes v). pr_handle (snd x) < sv_spawned v)"

lemma set_slot_names: "map fst (set_slot k v ps) = (if k \<in> fst ` set ps then map fst ps else map fst ps @ [k])"
  by (induction ps) (auto, force)

lemma set_set_slot: "set (set_slot k v ps) \<subseteq> insert (k, v) (set ps)"
  by (induction ps) (auto split: if_splits)

lemma distinct_set_slot:
  "distinct (map (h \<circ> snd) ps) \<Longrightarrow> h v \<notin> h ` snd ` set ps \<Longrightarrow> distinct (map (h \<circ> snd) (set_slot k v ps))"
proof (induction ps)
  case (Cons x ps)
  obtain a b where x: "x = (a, b)" by (cases x)
  have "h b \<notin> h ` snd ` set (set_slot k v ps)"
    using Cons.prems set_set_slot [of k v ps] by (auto simp: x image_iff)
  with Cons show ?case by (auto simp: x image_comp)
qed simp

lemma set_slot_at: "k \<notin> fst ` set xs \<Longrightarrow> set_slot k v (xs @ (k, w) # ys) = xs @ (k, v) # ys"
  by (induction xs) auto

lemma spawn_fresh:
  assumes "fresh_ok v"
  shows "fresh_ok (spawn name m w p v)"
proof -
  have "sv_spawned v \<notin> pr_handle ` snd ` set (sv_processes v)" using assms by (auto simp: fresh_ok_def)
  then have "distinct (map (pr_handle \<circ> snd) (sv_processes (spawn name m w p v)))"
    using assms by (simp add: spawn_def fresh_ok_def distinct_set_slot)
  moreover have "\<forall>x \<in> set (sv_processes (spawn name m w p v)). pr_handle (snd x) < sv_spawned v + 1"
    using assms subsetD [OF set_set_slot] by (fastforce simp: spawn_def fresh_ok_def)
  ultimately show ?thesis by (simp add: fresh_ok_def spawn_def)
qed

lemma start_worker_fresh: "fresh_ok v \<Longrightarrow> fresh_ok (start_worker i v)"
  by (simp add: start_worker_def spawn_fresh)

lemma fold_fresh: "fresh_ok v \<Longrightarrow> fresh_ok (fold start_worker is v)"
  by (induction "is" arbitrary: v) (simp_all add: start_worker_fresh)

lemma start_fresh: "fresh_ok (start (supervisor_init s))"
  unfolding start_def by (intro fold_fresh spawn_fresh) (simp add: fresh_ok_def supervisor_init_def)

lemma check_slot_fresh: "check_slot poll slot v = Some v' \<Longrightarrow> fresh_ok v \<Longrightarrow> fresh_ok v'"
proof -
  assume "check_slot poll slot v = Some v'" and ok: "fresh_ok v"
  then have "v' = v \<or> (\<exists>i. v' = start_worker i v) \<or> v' = v\<lparr>sv_stopping := True\<rparr>"
    by (auto simp: check_slot_def split: prod.splits option.splits if_splits)
  moreover have "fresh_ok (v\<lparr>sv_stopping := True\<rparr>)" using ok by (simp add: fresh_ok_def)
  ultimately show "fresh_ok v'" using ok start_worker_fresh [OF ok] by metis
qed

lemma check_slots_fresh: "check_slots poll slots v = Some v' \<Longrightarrow> fresh_ok v \<Longrightarrow> fresh_ok v'"
  by (induction slots arbitrary: v) (auto split: option.splits dest: check_slot_fresh)

section \<open>A round of the monitor\<close>

definition is_worker :: "string \<times> process \<Rightarrow> bool" where
  "is_worker x \<longleftrightarrow> take 7 (fst x) = ''worker-''"

definition exited :: "(nat \<Rightarrow> int option) \<Rightarrow> string \<times> process \<Rightarrow> bool" where
  "exited poll x \<longleftrightarrow> poll (pr_handle (snd x)) \<noteq> None"

text \<open>What a round does to a slot: only the slot of an exited worker is filled again.\<close>

definition slot_after :: "(nat \<Rightarrow> int option) \<Rightarrow> nat \<Rightarrow> string \<times> process \<Rightarrow> string \<times> process \<Rightarrow> bool" where
  "slot_after poll spawned x x' \<longleftrightarrow> fst x' = fst x \<and>
     (if is_worker x \<and> exited poll x
      then spawned \<le> pr_handle (snd x') \<and> pr_module (snd x') = ''crashsafe.worker'' \<and> pr_worker_id (snd x') = Some (fst x)
      else x' = x)"

definition valid_slot :: "string \<times> process \<Rightarrow> bool" where
  "valid_slot x \<longleftrightarrow> (is_worker x \<longrightarrow> (\<exists>i \<ge> 1. length (show_int i) \<le> 4300 \<and> fst x = worker_name i))"

lemma slot_after_mono: "slot_after poll n x x' \<Longrightarrow> m \<le> n \<Longrightarrow> slot_after poll m x x'"
  by (auto simp: slot_after_def split: if_splits)

lemma check_slot_result:
  assumes "sv_processes v = xs @ x # ys" and "fst x \<notin> fst ` set xs" and "valid_slot x"
  shows "\<exists>v' x'. check_slot poll x v = Some v' \<and> sv_processes v' = xs @ x' # ys \<and>
    slot_after poll (sv_spawned v) x x' \<and> sv_spawned v \<le> sv_spawned v' \<and>
    sv_stopping v' = (sv_stopping v \<or> \<not> is_worker x \<and> exited poll x)"
proof (cases "exited poll x \<and> is_worker x")
  case True
  then obtain i where i: "1 \<le> i" "length (show_int i) \<le> 4300" "fst x = worker_name i"
    using assms(3) by (auto simp: valid_slot_def)
  obtain w where x: "x = (worker_name i, w)" using i(3) by (cases x) simp
  have "check_slot poll x v = Some (start_worker i v)"
    using True worker_index [OF i(1,2)] by (auto simp: check_slot_def x exited_def is_worker_def)
  moreover have "sv_processes (start_worker i v) = xs @ (worker_name i, \<lparr>pr_handle = sv_spawned v,
      pr_module = ''crashsafe.worker'', pr_worker_id = Some (worker_name i),
      pr_pid_file = Some (Child (se_state_dir (sv_settings v)) (if i = 1 then ''worker.pid'' else worker_name i @ ''.pid''))\<rparr>) # ys"
    using assms(1,2) by (simp add: start_worker_def spawn_def x set_slot_at)
  ultimately show ?thesis
    using True by (auto simp: slot_after_def x start_worker_def spawn_def)
next
  case False
  then show ?thesis
    using assms(1)
    by (cases x) (auto simp: check_slot_def slot_after_def exited_def is_worker_def split: option.splits)
qed

lemma check_slots_result:
  assumes "sv_processes v = xs @ slots" and "distinct (map fst (xs @ slots))" and "\<forall>x \<in> set slots. valid_slot x"
  shows "\<exists>v' slots'. check_slots poll slots v = Some v' \<and> sv_processes v' = xs @ slots' \<and>
    list_all2 (slot_after poll (sv_spawned v)) slots slots' \<and>
    sv_stopping v' = (sv_stopping v \<or> (\<exists>x \<in> set slots. \<not> is_worker x \<and> exited poll x))"
  using assms
proof (induction slots arbitrary: v xs)
  case Nil
  then show ?case by simp
next
  case (Cons x slots)
  then obtain v1 x' where v1: "check_slot poll x v = Some v1" "sv_processes v1 = xs @ x' # slots"
    "slot_after poll (sv_spawned v) x x'" "sv_spawned v \<le> sv_spawned v1"
    "sv_stopping v1 = (sv_stopping v \<or> \<not> is_worker x \<and> exited poll x)"
    using check_slot_result [of v xs x slots poll] by auto
  have "fst x' = fst x" using v1(3) by (simp add: slot_after_def)
  then have "distinct (map fst ((xs @ [x']) @ slots))" using Cons.prems(2) by simp
  with Cons.IH [of v1 "xs @ [x']"] Cons.prems(3) v1(2) obtain v' slots' where v': "check_slots poll slots v1 = Some v'"
    "sv_processes v' = (xs @ [x']) @ slots'" "list_all2 (slot_after poll (sv_spawned v1)) slots slots'"
    "sv_stopping v' = (sv_stopping v1 \<or> (\<exists>x \<in> set slots. \<not> is_worker x \<and> exited poll x))" by auto
  have "list_all2 (slot_after poll (sv_spawned v)) slots slots'"
    using v'(3) by (rule list_all2_mono) (rule slot_after_mono [OF _ v1(4)])
  with v1 v' show ?case by (intro exI [of _ v'] exI [of _ "x' # slots'"]) auto
qed

section \<open>The slots\<close>

definition slot_names :: "int \<Rightarrow> string list" where
  "slot_names n = ''tool'' # ''api'' # map worker_name [1..n]"

definition owns_name :: "string \<times> process \<Rightarrow> bool" where
  "owns_name x \<longleftrightarrow> pr_worker_id (snd x) = (if is_worker x then Some (fst x) else None)"

definition slots_ok :: "int \<Rightarrow> supervisor \<Rightarrow> bool" where
  "slots_ok n v \<longleftrightarrow> map fst (sv_processes v) = slot_names n \<and> (\<forall>x \<in> set (sv_processes v). owns_name x) \<and> fresh_ok v"

lemma worker_name_neq [simp]:
  "worker_name i \<noteq> ''tool''" "worker_name i \<noteq> ''api''" "''tool'' \<noteq> worker_name i" "''api'' \<noteq> worker_name i"
  by (simp_all add: worker_name_def)

lemma distinct_slot_names: "distinct (slot_names n)"
proof -
  have "inj_on worker_name {1..n}" by (rule inj_onI) (auto simp: worker_name_def dest: show_int_inj)
  then have "distinct (map worker_name [1..n])" by (simp add: distinct_map)
  then show ?thesis by (auto simp: slot_names_def)
qed

lemma slot_names_valid:
  assumes "fst x \<in> set (slot_names n)" and "\<forall>i. 1 \<le> i \<and> i \<le> n \<longrightarrow> length (show_int i) \<le> 4300"
  shows "valid_slot x"
  using assms by (auto simp: slot_names_def valid_slot_def is_worker_def)

lemma start_slots: "slots_ok (int k) v \<Longrightarrow> sv_settings v = s \<Longrightarrow>
    slots_ok (int k + 1) (start_worker (int k + 1) v) \<and> sv_settings (start_worker (int k + 1) v) = s"
proof -
  assume ok: "slots_ok (int k) v" and s: "sv_settings v = s"
  have "worker_name (int k + 1) \<notin> set (slot_names (int k))"
    using distinct_slot_names [of "int k + 1"] by (simp add: slot_names_def upto_rec2)
  then have "worker_name (int k + 1) \<notin> fst ` set (sv_processes v)"
    using ok by (metis list.set_map slots_ok_def)
  then have "map fst (sv_processes (start_worker (int k + 1) v)) = slot_names (int k + 1)"
    using ok by (simp add: start_worker_def spawn_def set_slot_names slots_ok_def slot_names_def upto_rec2)
  moreover have "\<forall>x \<in> set (sv_processes (start_worker (int k + 1) v)). owns_name x"
    using ok subsetD [OF set_set_slot]
    by (fastforce simp: start_worker_def spawn_def slots_ok_def owns_name_def is_worker_def worker_name_prefix)
  ultimately show ?thesis
    using ok s start_worker_fresh [of v] by (simp add: slots_ok_def) (simp add: start_worker_def spawn_def)
qed

lemma fold_start_slots: "slots_ok 0 v \<Longrightarrow> slots_ok (int k) (fold start_worker [1..int k] v)"
proof -
  assume v: "slots_ok 0 v"
  have "slots_ok (int k) (fold start_worker [1..int k] v) \<and>
      sv_settings (fold start_worker [1..int k] v) = sv_settings v"
  proof (induction k)
    case (Suc k)
    then show ?case using start_slots by (simp add: upto_rec2 [of 1 "1 + int k"] add.commute)
  qed (simp add: v)
  then show ?thesis by simp
qed

lemma start_slots_ok: "0 \<le> se_worker_count s \<Longrightarrow> slots_ok (se_worker_count s) (start (supervisor_init s))"
proof -
  assume n: "0 \<le> se_worker_count s"
  have "slots_ok 0 (spawn ''api'' ''crashsafe.api'' None None (spawn ''tool'' ''crashsafe.mock_tool'' None None (supervisor_init s)))"
    by (simp add: slots_ok_def slot_names_def owns_name_def is_worker_def spawn_def supervisor_init_def fresh_ok_def)
  from fold_start_slots [OF this, of "nat (se_worker_count s)"] n show ?thesis
    by (simp add: start_def spawn_def supervisor_init_def)
qed

lemma slot_after_keeps: "slot_after poll k x y \<Longrightarrow> fst y = fst x \<and> (owns_name x \<longrightarrow> owns_name y)"
  by (cases "is_worker x \<and> exited poll x") (simp_all add: slot_after_def owns_name_def is_worker_def)

lemma slots_after:
  assumes "list_all2 (slot_after poll k) xs ys"
  shows "map fst ys = map fst xs \<and> ((\<forall>x \<in> set xs. owns_name x) \<longrightarrow> (\<forall>y \<in> set ys. owns_name y))"
  using assms by (induction rule: list_all2_induct) (simp_all add: slot_after_keeps)

lemma check_slots_ok:
  assumes ok: "slots_ok n v" and small: "\<forall>i. 1 \<le> i \<and> i \<le> n \<longrightarrow> length (show_int i) \<le> 4300"
  shows "\<exists>v'. check_slots poll (sv_processes v) v = Some v' \<and> slots_ok n v' \<and>
    list_all2 (slot_after poll (sv_spawned v)) (sv_processes v) (sv_processes v') \<and>
    sv_stopping v' = (sv_stopping v \<or> (\<exists>x \<in> set (sv_processes v). \<not> is_worker x \<and> exited poll x))"
proof -
  have names: "map fst (sv_processes v) = slot_names n" using ok by (simp add: slots_ok_def)
  then have "distinct (map fst ([] @ sv_processes v))" using distinct_slot_names by simp
  moreover have "\<forall>x \<in> set (sv_processes v). valid_slot x"
    using names small by (metis list.set_map image_eqI slot_names_valid)
  ultimately obtain v' where v': "check_slots poll (sv_processes v) v = Some v'"
    "list_all2 (slot_after poll (sv_spawned v)) (sv_processes v) (sv_processes v')"
    "sv_stopping v' = (sv_stopping v \<or> (\<exists>x \<in> set (sv_processes v). \<not> is_worker x \<and> exited poll x))"
    using check_slots_result [of v "[]" "sv_processes v" poll] by auto
  have "slots_ok n v'"
    using ok slots_after [OF v'(2)] check_slots_fresh [OF v'(1)] by (simp add: slots_ok_def)
  with v' show ?thesis by blast
qed

lemma monitor_slots_ok:
  assumes "slots_ok n v" and "\<forall>i. 1 \<le> i \<and> i \<le> n \<longrightarrow> length (show_int i) \<le> 4300"
  shows "\<exists>v'. monitor polls v = Some v' \<and> slots_ok n v'"
  using assms(1)
proof (induction polls arbitrary: v)
  case (Cons poll polls)
  from check_slots_ok [OF Cons.prems assms(2), of poll] obtain v1 where
    "check_slots poll (sv_processes v) v = Some v1" "slots_ok n v1" by blast
  with Cons.IH [of v1] Cons.prems show ?case by simp
qed simp

lemma settings_workers:
  assumes "from_env env = Inr s"
  shows "1 \<le> se_worker_count s" and "\<forall>i. 1 \<le> i \<and> i \<le> se_worker_count s \<longrightarrow> length (show_int i) \<le> 4300"
proof -
  show "1 \<le> se_worker_count s" using checked_values(1) [OF from_env_checked [OF assms]] .
  have "int_of_text (getenv env ''CRASHSAFE_WORKERS'' (show_int 1)) = Some (se_worker_count s)"
    using assms by (auto simp: from_env_def Let_def rbind_Inr_iff int_env_def split: option.splits)
  then show "\<forall>i. 1 \<le> i \<and> i \<le> se_worker_count s \<longrightarrow> length (show_int i) \<le> 4300"
    using int_of_text_bound by blast
qed

text \<open>C38: the supervisor keeps one process per slot, whatever its processes do. With settings
  that passed the validation the monitor never raises; the slots are the tool, the API and
  the workers 1 to \<open>n\<close>, each worker under its own name and no two slots with the same
  process; and one more round refills exactly the slots of exited workers, each with a
  newly spawned worker of that name, and requests a stop if the tool or the API exited.\<close>

theorem supervisor_keeps_slots:
  assumes "from_env env = Inr s"
  shows "\<exists>v. monitor polls (start (supervisor_init s)) = Some v \<and>
    map fst (sv_processes v) = ''tool'' # ''api'' # map worker_name [1..se_worker_count s] \<and>
    distinct (map (pr_handle \<circ> snd) (sv_processes v)) \<and>
    (\<forall>x \<in> set (sv_processes v). pr_handle (snd x) < sv_spawned v \<and>
      pr_worker_id (snd x) = (if is_worker x then Some (fst x) else None)) \<and>
    (\<forall>poll. \<exists>v'. check_slots poll (sv_processes v) v = Some v' \<and>
      list_all2 (slot_after poll (sv_spawned v)) (sv_processes v) (sv_processes v') \<and>
      sv_stopping v' = (sv_stopping v \<or> (\<exists>x \<in> set (sv_processes v). \<not> is_worker x \<and> exited poll x)))"
proof -
  note w = settings_workers [OF assms]
  have "slots_ok (se_worker_count s) (start (supervisor_init s))" using w(1) by (intro start_slots_ok) simp
  from monitor_slots_ok [OF this w(2), of polls] obtain v where
    v: "monitor polls (start (supervisor_init s)) = Some v" "slots_ok (se_worker_count s) v" by blast
  note ok = v(2) [unfolded slots_ok_def slot_names_def owns_name_def fresh_ok_def]
  show ?thesis
  proof (intro exI [of _ v] conjI)
    show "\<forall>poll. \<exists>v'. check_slots poll (sv_processes v) v = Some v' \<and>
      list_all2 (slot_after poll (sv_spawned v)) (sv_processes v) (sv_processes v') \<and>
      sv_stopping v' = (sv_stopping v \<or> (\<exists>x \<in> set (sv_processes v). \<not> is_worker x \<and> exited poll x))"
      using check_slots_ok [OF v(2) w(2)] by blast
  qed (use v(1) ok in blast)+
qed

theorem supervisor_keeps_slots_witness:
  "\<exists>v. monitor [\<lambda>h. if h = 2 then Some (- 9) else None] (start (supervisor_init default_settings)) = Some v \<and>
    map fst (sv_processes v) = ''tool'' # ''api'' # map worker_name [1..1]"
proof -
  have one: "se_worker_count default_settings = 1" by (simp add: default_settings_def)
  from supervisor_keeps_slots [OF from_no_env, of "[\<lambda>h. if h = 2 then Some (- 9) else None]", unfolded one]
  show ?thesis by (elim exE conjE) (intro exI conjI)
qed

end
