(* ===== verification/Scripts.thy ===== *)
theory Scripts
  imports Attempts Api Tool_Service Supervisor
begin

text \<open>
  \<open>scripts/demo.py\<close> and \<open>scripts/graceful_drain.py\<close>: the environment the scripts give their
  processes, their waiting loops, and the checks they end with, over the API, the tool and
  the storage of the model. A script reads the JSON of a response; here it reads the value
  the endpoint serialised. Processes, ports and printing are not modelled: a waiting loop
  consumes the readings of its iterations, and \<open>canonical\<close> is the canonical text of a UUID.
\<close>

section \<open>Environments\<close>

definition isolated_environment :: "environment \<Rightarrow> environment" where
  "isolated_environment env = (\<lambda>key. if take 10 key = ''CRASHSAFE_'' then None else env key)"

fun update_environment :: "(string \<times> string) list \<Rightarrow> environment \<Rightarrow> environment" where
  "update_environment [] env = env"
| "update_environment ((k, v) # kvs) env = update_environment kvs (env(k \<mapsto> v))"

definition local_url :: "int \<Rightarrow> string" where
  "local_url port = ''http://127.0.0.1:'' @ show_int port"

definition demo_environment :: "string \<Rightarrow> string \<Rightarrow> int \<Rightarrow> int \<Rightarrow> environment \<Rightarrow> environment" where
  "demo_environment state signal api_port tool_port env = update_environment
     [(''CRASHSAFE_STATE_DIR'', state),
      (''CRASHSAFE_API_PORT'', show_int api_port),
      (''CRASHSAFE_TOOL_PORT'', show_int tool_port),
      (''CRASHSAFE_TOOL_URL'', local_url tool_port),
      (''CRASHSAFE_FLAKY_RATE'', ''0''),
      (''CRASHSAFE_FAIL_FIRST_OPERATION'', ''provision''),
      (''CRASHSAFE_RETRY_AFTER'', ''2''),
      (''CRASHSAFE_COMMIT_SIGNAL_FILE'', signal),
      (''CRASHSAFE_COMMIT_DELAY'', ''30''),
      (''CRASHSAFE_REQUEST_TIMEOUT'', ''60''),
      (''CRASHSAFE_LEASE_TTL'', ''0.5''),
      (''CRASHSAFE_LEASE_RENEW_INTERVAL'', ''0.1''),
      (''CRASHSAFE_POLL_INTERVAL'', ''0.02'')] (isolated_environment env)"

definition drain_environment :: "string \<Rightarrow> string \<Rightarrow> int \<Rightarrow> int \<Rightarrow> environment \<Rightarrow> environment" where
  "drain_environment state signal api_port tool_port env = update_environment
     [(''CRASHSAFE_STATE_DIR'', state),
      (''CRASHSAFE_API_PORT'', show_int api_port),
      (''CRASHSAFE_TOOL_PORT'', show_int tool_port),
      (''CRASHSAFE_TOOL_URL'', local_url tool_port),
      (''CRASHSAFE_FLAKY_RATE'', ''0''),
      (''CRASHSAFE_COMMIT_SIGNAL_FILE'', signal),
      (''CRASHSAFE_COMMIT_DELAY'', ''2''),
      (''CRASHSAFE_REQUEST_TIMEOUT'', ''5''),
      (''CRASHSAFE_POLL_INTERVAL'', ''0.02'')] (isolated_environment env)"

text \<open>The environments of the workers; the demo's worker 1 and the draining worker delay.\<close>

definition worker_environment :: "string \<Rightarrow> bool \<Rightarrow> environment \<Rightarrow> environment" where
  "worker_environment name delays env = update_environment
     ((''CRASHSAFE_WORKER_ID'', name) #
      (if delays then [(''CRASHSAFE_DELAY_AFTER_TOOL_COMMIT'', ''charge'')] else [])) env"

section \<open>Waiting\<close>

datatype wait_error = TimedOut | ExitedDuringStartup int string

text \<open>One iteration reads the clock and, before the deadline, the predicate. \<open>None\<close>: the
  readings end before the loop does.\<close>

fun wait_for :: "rat \<Rightarrow> (rat \<times> bool) list \<Rightarrow> (wait_error + unit) option" where
  "wait_for until [] = None"
| "wait_for until ((now, holds) # ticks) =
     (if \<not> now < until then Some (Inl TimedOut)
      else if holds then Some (Inr ()) else wait_for until ticks)"

fun healthy :: "http_reply \<Rightarrow> bool" where
  "healthy (Response r) \<longleftrightarrow> 200 \<le> hr_status r \<and> hr_status r \<le> 299"
| "healthy (TransportError _) \<longleftrightarrow> False"

text \<open>A service is also polled; \<open>output\<close> is what it printed before it ended.\<close>

fun wait_for_service :: "rat \<Rightarrow> (rat \<times> http_reply \<times> int option \<times> string) list \<Rightarrow> (wait_error + unit) option" where
  "wait_for_service until [] = None"
| "wait_for_service until ((now, reply, code, out) # ticks) =
     (if \<not> now < until then Some (Inl TimedOut)
      else if healthy reply then Some (Inr ())
      else (case code of
          Some c \<Rightarrow> Some (Inl (ExitedDuringStartup c (if out = [] then [] else CHR ''\<newline>'' # out)))
        | None \<Rightarrow> wait_for_service until ticks))"

text \<open>\<open>while tool_port == api_port\<close> over the ports the system offers.\<close>

fun other_port :: "int \<Rightarrow> int list \<Rightarrow> int option" where
  "other_port api_port [] = None"
| "other_port api_port (port # ports) = (if port = api_port then other_port api_port ports else Some port)"

text \<open>The three loops poll: what one reading decides.\<close>

fun wait_decision :: "rat \<Rightarrow> rat \<times> bool \<Rightarrow> (wait_error + unit) option" where
  "wait_decision until (now, holds) =
     (if \<not> now < until then Some (Inl TimedOut) else if holds then Some (Inr ()) else None)"

fun service_decision :: "rat \<Rightarrow> rat \<times> http_reply \<times> int option \<times> string \<Rightarrow> (wait_error + unit) option" where
  "service_decision until (now, reply, code, out) =
     (if \<not> now < until then Some (Inl TimedOut)
      else if healthy reply then Some (Inr ())
      else map_option (\<lambda>c. Inl (ExitedDuringStartup c (if out = [] then [] else CHR ''\<newline>'' # out))) code)"

definition port_decision :: "int \<Rightarrow> int \<Rightarrow> int option" where
  "port_decision api_port port = (if port = api_port then None else Some port)"

interpretation waiting: polling "wait_for until" "wait_decision until" for until
proof unfold_locales
  show "wait_for until (t # ts) =
      (case wait_decision until t of None \<Rightarrow> wait_for until ts | Some r \<Rightarrow> Some r)" for t ts
    by (cases t) simp
qed simp

interpretation starting: polling "wait_for_service until" "service_decision until" for until
proof unfold_locales
  show "wait_for_service until (t # ts) =
      (case service_decision until t of None \<Rightarrow> wait_for_service until ts | Some r \<Rightarrow> Some r)" for t ts
    by (cases t) (simp split: option.split)
qed simp

interpretation ports: polling "other_port api_port" "port_decision api_port" for api_port
  by unfold_locales (simp_all add: port_decision_def)

text \<open>A wait that returns saw its predicate hold before the deadline; a service that is awaited
  was healthy then, or ended, with nothing healthy before; the tool's port is another one.\<close>

lemma wait_for_held: "wait_for until ticks = Some (Inr ()) \<Longrightarrow> \<exists>now < until. (now, True) \<in> set ticks"
  by (auto simp: waiting.poll_Some split: if_splits)

lemma service_came_up:
  "wait_for_service until ticks = Some (Inr ()) \<Longrightarrow>
    \<exists>now reply code out. (now, reply, code, out) \<in> set ticks \<and> now < until \<and> healthy reply"
  by (fastforce simp: starting.poll_Some split: if_splits)

lemma service_ended:
  assumes "wait_for_service until ticks = Some (Inl (ExitedDuringStartup c detail))"
  shows "\<exists>us now reply out vs. ticks = us @ (now, reply, Some c, out) # vs \<and> \<not> healthy reply \<and>
    (\<forall>(now, reply, code, out) \<in> set us. now < until \<and> \<not> healthy reply \<and> code = None)"
  using assms unfolding starting.poll_Some by (fastforce split: if_splits)

lemma other_port_differs: "other_port api_port ports = Some port \<Longrightarrow> port \<noteq> api_port \<and> port \<in> set ports"
  by (auto simp: ports.poll_Some port_decision_def split: if_splits)

section \<open>What the scripts read\<close>

datatype script_error = HttpError api_response | LedgerError | UnfinishedRuns "string list" | KeyError string
  | TypeError | IndexError | StopIteration | StorageFailure storage_error | WaitFailed wait_error
  | StageFailed string | InvariantFailed "string list"

definition storage_value :: "storage_error + 'a \<Rightarrow> script_error + 'a" where
  "storage_value x = (case x of Inl e \<Rightarrow> Inl (StorageFailure e) | Inr y \<Rightarrow> Inr y)"

text \<open>The runs that keep a script from starting.\<close>

definition unfinished_runs :: "db \<Rightarrow> storage_error + string list" where
  "unfinished_runs d = rbind (list_workflow_runs 10000 d)
     (\<lambda>runs. Inr (map wr_run_id (filter (\<lambda>run. wr_status run = RUNNING) runs)))"

definition refuse_unfinished :: "db \<Rightarrow> script_error + unit" where
  "refuse_unfinished d = rbind (storage_value (unfinished_runs d))
     (\<lambda>ids. if ids \<noteq> [] then Inl (UnfinishedRuns ids) else Inr ())"

text \<open>Reading requests draw no UUID and no time.\<close>

definition api_get :: "(json \<Rightarrow> string) \<Rightarrow> api_request \<Rightarrow> db \<Rightarrow> api_response" where
  "api_get repr q d = fst (api repr [] 0 [] q d)"

definition workflow_events :: "(json \<Rightarrow> string) \<Rightarrow> string \<Rightarrow> db \<Rightarrow> script_error + workflow_run_event list" where
  "workflow_events repr r d = (case api_get repr (GetEvents r) d of
     Ok (EventsBody es) \<Rightarrow> Inr es | x \<Rightarrow> Inl (HttpError x))"

definition workflow_timeline :: "(json \<Rightarrow> string) \<Rightarrow> string \<Rightarrow> db \<Rightarrow> script_error + timeline" where
  "workflow_timeline repr r d = (case api_get repr (GetTimeline r) d of
     Ok (TimelineBody t) \<Rightarrow> Inr t | x \<Rightarrow> Inl (HttpError x))"

definition add_summaries :: "ledger_summary \<Rightarrow> ledger_summary \<Rightarrow> ledger_summary" where
  "add_summaries a b = \<lparr>lg_charges = lg_charges a + lg_charges b,
     lg_provisions = lg_provisions a + lg_provisions b,
     lg_notifications = lg_notifications a + lg_notifications b\<rparr>"

fun combined_run_ledger :: "(string \<Rightarrow> string option) \<Rightarrow> string list \<Rightarrow> ledger_summary \<Rightarrow> ledger
    \<Rightarrow> script_error + ledger_summary" where
  "combined_run_ledger canonical [] totals l = Inr totals"
| "combined_run_ledger canonical (r # rs) totals l =
     (case ledger_endpoint canonical (Some r) l of
        None \<Rightarrow> Inl LedgerError
      | Some x \<Rightarrow> combined_run_ledger canonical rs (add_summaries totals x) l)"

definition no_effects :: ledger_summary where
  "no_effects = \<lparr>lg_charges = 0, lg_provisions = 0, lg_notifications = 0\<rparr>"

definition step_attempts :: "string \<Rightarrow> workflow_run_event list \<Rightarrow> workflow_run_event list" where
  "step_attempts i = filter (\<lambda>e. ev_event_type e = STEP_ATTEMPT_STARTED \<and> ev_step_id e = Some i)"

definition attempt_key :: "workflow_run_event \<Rightarrow> script_error + string" where
  "attempt_key e = (case ev_payload e of
     StepAttemptStartedPayload op req key worker fence \<Rightarrow> Inr key | _ \<Rightarrow> Inl (KeyError ''operation_key''))"

definition attempt_token :: "workflow_run_event \<Rightarrow> script_error + int option" where
  "attempt_token e = (case ev_payload e of
     StepAttemptStartedPayload op req key worker fence \<Rightarrow> Inr fence | _ \<Rightarrow> Inl (KeyError ''fence_token''))"

text \<open>\<open>fences == sorted(set(fences))\<close>; Python does not order \<open>None\<close> and integers.\<close>

definition strictly_sorted :: "int option list \<Rightarrow> script_error + bool" where
  "strictly_sorted fs =
     (if None \<notin> set fs then Inr (map the fs = sorted_list_of_set (set (map the fs)))
      else if set fs = {None} then Inr (length fs = 1) else Inl TypeError)"

fun all_consistent :: "string list \<Rightarrow> db \<Rightarrow> storage_error + bool" where
  "all_consistent [] d = Inr True"
| "all_consistent (r # rs) d = rbind (projection_matches_history r d)
     (\<lambda>ok. if ok then all_consistent rs d else Inr False)"

section \<open>The checks of the demo\<close>

definition throttle_retry :: "timeline_entry \<Rightarrow> bool" where
  "throttle_retry x \<longleftrightarrow> te_event_type x = STEP_RETRY_SCHEDULED \<and> te_detail x = Some ''tool throttled the request''"

definition waited :: "timeline_entry \<Rightarrow> int" where
  "waited x = (case te_wait_ms x of None \<Rightarrow> 0 | Some ms \<Rightarrow> ms)"

definition fenced_across_recovery :: "int option list \<Rightarrow> script_error + bool" where
  "fenced_across_recovery fences = (if length fences < 2 then Inr False else strictly_sorted fences)"

text \<open>What is read after both runs have completed, and the checks of it.\<close>

record demo_readings =
  dm_attempts :: "workflow_run_event list"
  dm_keys :: "string list"
  dm_fences :: "int option list"
  dm_retries :: "workflow_run_event list"
  dm_throttles :: "timeline_entry list"
  dm_wait_ms :: int
  dm_ledger :: ledger_summary
  dm_consistent :: bool

definition read_demo :: "(json \<Rightarrow> string) \<Rightarrow> (string \<Rightarrow> string option) \<Rightarrow> string \<Rightarrow> string
    \<Rightarrow> db \<Rightarrow> ledger \<Rightarrow> script_error + demo_readings" where
  "read_demo repr canonical paid_id trial_id d l =
     rbind (workflow_events repr paid_id d) (\<lambda>events.
     let attempts = step_attempts ''charge'' events in
     rbind (collect (map attempt_key attempts)) (\<lambda>keys.
     rbind (collect (map attempt_token attempts)) (\<lambda>fences.
     rbind (workflow_timeline repr trial_id d) (\<lambda>timeline.
     rbind (workflow_events repr trial_id d) (\<lambda>trial_events.
     let throttles = filter throttle_retry (tl_entries timeline) in
     rbind (combined_run_ledger canonical [paid_id, trial_id] no_effects l) (\<lambda>demo_ledger.
     rbind (storage_value (all_consistent [paid_id, trial_id] d)) (\<lambda>consistent.
       Inr \<lparr>dm_attempts = attempts, dm_keys = keys, dm_fences = fences,
         dm_retries = step_attempts ''provision-trial'' trial_events, dm_throttles = throttles,
         dm_wait_ms = sum_list (map waited throttles), dm_ledger = demo_ledger,
         dm_consistent = consistent\<rparr>)))))))"

definition demo_invariants :: "string \<Rightarrow> demo_readings \<Rightarrow> script_error + (string \<times> bool) list" where
  "demo_invariants charge_key x =
     rbind (fenced_across_recovery (dm_fences x)) (\<lambda>fenced.
       Inr [(''charge retried after ambiguous commit'', 2 \<le> length (dm_attempts x)),
            (''stable charge key reused'', dm_keys x \<noteq> [] \<and> list_all (\<lambda>key. key = charge_key) (dm_keys x)),
            (''charge fenced across recovery'', fenced),
            (''trial retried'', 2 \<le> length (dm_retries x)),
            (''one targeted 429'', length (dm_throttles x) = 1),
            (''Retry-After honored'', 1900 \<le> dm_wait_ms x),
            (''demo-run ledger exact'',
              dm_ledger x = \<lparr>lg_charges = 1, lg_provisions = 2, lg_notifications = 3\<rparr>),
            (''history reconstructs projections'', dm_consistent x)])"

definition demo_verdict :: "string \<Rightarrow> demo_readings \<Rightarrow> script_error + unit" where
  "demo_verdict charge_key x = rbind (demo_invariants charge_key x) (\<lambda>invariants.
     let failed = map fst (filter (\<lambda>(name, passed). \<not> passed) invariants) in
     if failed \<noteq> [] then Inl (InvariantFailed failed) else Inr ())"

section \<open>The check of the drain\<close>

definition ledger_delta :: "ledger_summary \<Rightarrow> ledger_summary \<Rightarrow> int \<times> int \<times> int" where
  "ledger_delta final baseline = (int (lg_charges final) - int (lg_charges baseline),
     int (lg_provisions final) - int (lg_provisions baseline),
     int (lg_notifications final) - int (lg_notifications baseline))"

definition drain_verdict :: "(json \<Rightarrow> string) \<Rightarrow> string \<Rightarrow> ledger_summary \<Rightarrow> db \<Rightarrow> ledger \<Rightarrow> script_error + unit" where
  "drain_verdict repr run_id baseline d l =
     rbind (workflow_timeline repr run_id d) (\<lambda>timeline.
     rbind (workflow_events repr run_id d) (\<lambda>events.
     rbind (storage_value (projection_matches_history run_id d)) (\<lambda>consistent.
     if length (step_attempts ''charge'' events) \<noteq> 1 \<or>
        ledger_delta (summary None l) baseline \<noteq> (1, 1, 1) \<or> \<not> consistent
     then Inl (InvariantFailed [''graceful-drain invariant failed'']) else Inr ())))"

text \<open>The submitted definitions, \<open>workflows/paid-onboarding.json\<close> and \<open>trial-activation.json\<close>.\<close>

definition paid_onboarding :: workflow_definition where
  "paid_onboarding = \<lparr>wd_name = ''paid-onboarding'', wd_steps =
     [ChargeStep ''charge'' [] \<lparr>ch_customer_id = ''paid-customer'', ch_amount_cents = 4200\<rparr>,
      ProvisionStep ''provision'' [''charge''] \<lparr>pr_customer_id = ''paid-customer'', pr_plan = ''standard''\<rparr>,
      NotifyStep ''notify'' [''provision''] \<lparr>no_customer_id = ''paid-customer'',
        no_email = ''paid@example.com'', no_message = ''Your paid account is ready.''\<rparr>]\<rparr>"

definition trial_activation :: workflow_definition where
  "trial_activation = \<lparr>wd_name = ''trial-activation'', wd_steps =
     [ProvisionStep ''provision-trial'' [] \<lparr>pr_customer_id = ''trial-customer'', pr_plan = ''trial''\<rparr>,
      NotifyStep ''notify-customer'' [''provision-trial''] \<lparr>no_customer_id = ''trial-customer'',
        no_email = ''trial@example.com'', no_message = ''Your trial is ready.''\<rparr>,
      NotifyStep ''notify-internal'' [''provision-trial''] \<lparr>no_customer_id = ''trial-customer'',
        no_email = ''sales@example.com'', no_message = ''A trial account was activated.''\<rparr>]\<rparr>"

section \<open>What a sound database shows the scripts\<close>

lemma collect_map: "(\<And>x. x \<in> set xs \<Longrightarrow> f x = Inr (g x)) \<Longrightarrow> collect (map f xs) = Inr (map g xs)"
  by (induction xs) simp_all

lemma step_attempts_eq: "step_attempts i = filter (attempt_of i)"
  by (simp add: step_attempts_def attempt_of_def [abs_def])

lemma increasing_Cons: "increasing (f # fs) \<longleftrightarrow> f \<noteq> None \<and> (\<forall>g \<in> set fs. the f < the g) \<and> increasing fs"
  by (cases f) (auto simp: increasing_def)

lemma increasing_append:
  "increasing (fs @ gs) \<longleftrightarrow> increasing fs \<and> increasing gs \<and> (\<forall>f \<in> set fs. \<forall>g \<in> set gs. the f < the g)"
  by (induction fs) (auto simp: increasing_Cons, auto simp: increasing_def)

lemma increasing_filter:
  "increasing (concat (map f xs)) \<Longrightarrow> increasing (concat (map f (filter P xs)))"
  by (induction xs) (auto simp: increasing_append)

lemma strictly_sorted_increasing: "increasing fs \<Longrightarrow> strictly_sorted fs = Inr True"
  using sorted_list_of_set.idem_if_sorted_distinct [of "map the fs"]
  by (simp add: strictly_sorted_def increasing_def strict_sorted_iff)

text \<open>The attempts of a step, as the scripts read them.\<close>

lemma read_attempts:
  assumes ok: "db_ok d" and v: "view d r = Some run" and t: "t \<in> set (wr_steps run)"
    and as: "as = step_attempts (st_id t) (run_events d r)"
  shows "int (length as) = st_attempts t"
    and "collect (map attempt_key as) = Inr (map (\<lambda>_. r @ '':'' @ st_id t) as)"
    and "\<exists>fs. collect (map attempt_token as) = Inr fs \<and> length fs = length as \<and>
      (increasing (attempt_fences d r) \<longrightarrow> increasing fs)"
proof -
  note red = db_ok_view(1) [OF ok v]
  show "int (length as) = st_attempts t"
    using count_attempt_events [OF red t] by (simp add: as step_attempts_eq)
  have started: "\<exists>op req w f. ev_payload e = StepAttemptStartedPayload op req (r @ '':'' @ st_id t) w f"
    if e: "e \<in> set as" for e
  proof -
    have mem: "e \<in> set (run_events d r)" "ev_event_type e = STEP_ATTEMPT_STARTED" "ev_step_id e = Some (st_id t)"
      using e by (auto simp: as step_attempts_def)
    then obtain op req key w f where p: "ev_payload e = StepAttemptStartedPayload op req key w f"
      using fold_events_typed [OF reduce_fold(2) [OF red]] payload_model_attempt by metis
    with recorded_attempt [OF red mem(1) p] mem(3) view_run_id [OF v] show ?thesis by auto
  qed
  show "collect (map attempt_key as) = Inr (map (\<lambda>_. r @ '':'' @ st_id t) as)"
    by (rule collect_map) (use started in \<open>force simp: attempt_key_def\<close>)
  define tok where "tok e = hd (payload_fence (ev_payload e))" for e :: workflow_run_event
  have "collect (map attempt_token as) = Inr (map tok as)"
    by (rule collect_map) (use started in \<open>force simp: attempt_token_def tok_def\<close>)
  moreover have toks: "concat (map (\<lambda>e. payload_fence (ev_payload e)) as) = map tok as"
  proof -
    have "payload_fence (ev_payload e) = [tok e]" if "e \<in> set as" for e
      using started [OF that] by (auto simp: tok_def)
    then have "concat (map (\<lambda>e. payload_fence (ev_payload e)) as) = concat (map (\<lambda>e. [tok e]) as)"
      by (simp cong: map_cong)
    then show ?thesis by simp
  qed
  have "increasing (map tok as)" if "increasing (attempt_fences d r)"
    using increasing_filter [OF that [unfolded attempt_fences_def]]
    unfolding toks [symmetric] by (simp add: as step_attempts_def)
  ultimately show "\<exists>fs. collect (map attempt_token as) = Inr fs \<and> length fs = length as \<and>
      (increasing (attempt_fences d r) \<longrightarrow> increasing fs)" by auto
qed

lemma read_api:
  assumes ok: "db_ok d" and v: "view d r = Some run"
  shows "workflow_events repr r d = Inr (run_events d r)" and "\<exists>t. workflow_timeline repr r d = Inr t"
    and "projection_matches_history r d = Inr True"
proof -
  have mem: "r \<in> run_ids d" using v by (rule view_in_run_ids)
  from read_known [OF ok mem] obtain run where run: "list_events r d = Inr (run_events d r)"
    "reduce_workflow_run_history (run_events d r) = Inr run" by metis
  from timeline_known [OF run(2), of repr] obtain t where "build_timeline repr (run_events d r) = Inr t" .
  with run show "workflow_events repr r d = Inr (run_events d r)" "\<exists>t. workflow_timeline repr r d = Inr t"
    by (simp_all add: workflow_events_def workflow_timeline_def api_get_def respond_def run_timeline_def)
  show "projection_matches_history r d = Inr True"
    by (rule consistent_projection_matches [OF db_okD(1) [OF ok mem]])
qed

section \<open>The checks hold\<close>

lemma created_columns:
  "map st_id (wr_steps (created_run r now tool wd)) = map ws_id (wd_steps wd)"
  "map st_operation (wr_steps (created_run r now tool wd)) = map ws_operation (wd_steps wd)"
proof -
  have "map g (enumerate n xs) = map f xs" if "\<And>k x. g (k, x) = f x" for f g n and xs :: "workflow_step list"
    by (induction xs arbitrary: n) (simp_all add: that)
  from this [of "ws_id \<circ> snd" ws_id] this [of "ws_operation \<circ> snd" ws_operation]
  show "map st_id (wr_steps (created_run r now tool wd)) = map ws_id (wd_steps wd)"
    and "map st_operation (wr_steps (created_run r now tool wd)) = map ws_operation (wd_steps wd)"
    by (simp_all add: materialize_def new_step_def comp_def split_def)
qed

text \<open>A run from its submission to its completion: its steps and its effects.\<close>

lemma submitted_run:
  assumes "reachable digest \<sigma>" and "(sys_step digest)\<^sup>*\<^sup>* \<sigma> \<tau>"
    and "view (sys_db \<sigma>) r = Some (created_run r now tool wd)"
    and "view (sys_db \<tau>) r = Some run" and "wr_status run = COMPLETED"
  shows "map st_id (wr_steps run) = map ws_id (wd_steps wd)"
    and "count_effects (Some r) op (sys_ledger \<tau>) = length (filter (\<lambda>s. ws_operation s = op) (wd_steps wd))"
proof -
  from run_follows [OF assms(2,1,3)] assms(4) have "extends (created_run r now tool wd) run" by auto
  note cols = extends_columns [OF this] created_columns [of r now tool wd]
  show "map st_id (wr_steps run) = map ws_id (wd_steps wd)" using cols(1,3) by simp
  have "map st_operation (wr_steps run) = map ws_operation (wd_steps wd)" using cols(2,4) by simp
  then have "length (filter (\<lambda>o'. o' = op) (map st_operation (wr_steps run))) =
      length (filter (\<lambda>o'. o' = op) (map ws_operation (wd_steps wd)))" by simp
  then show "count_effects (Some r) op (sys_ledger \<tau>) = length (filter (\<lambda>s. ws_operation s = op) (wd_steps wd))"
    using count_completed [OF reachable_ok [OF steps_reachable [OF assms(2,1)]] assms(4,5)]
    by (simp add: filter_map comp_def)
qed

text \<open>What the final checks of the demo read. Whatever happened between the submission of its two
  runs and their completion (crashes, lost answers, throttling, takeovers, other workers and
  other runs), they find the charge key reused, the ledger exact, the projections
  reconstructed by the history, and the charge fenced whenever it was attempted twice; only
  the checks that need the staged schedule can fail.\<close>

theorem demo_readings_exact:
  assumes "reachable digest \<sigma>" and "(sys_step digest)\<^sup>*\<^sup>* \<sigma> \<tau>"
    and "view (sys_db \<sigma>) paid_id = Some (created_run paid_id t1 tool1 paid_onboarding)"
    and "view (sys_db \<sigma>) trial_id = Some (created_run trial_id t2 tool2 trial_activation)"
    and "view (sys_db \<tau>) paid_id = Some paid" and "wr_status paid = COMPLETED"
    and "view (sys_db \<tau>) trial_id = Some trial" and "wr_status trial = COMPLETED"
    and "canonical paid_id = Some paid_id" and "canonical trial_id = Some trial_id"
    and "charge_key = st_operation_key (hd (wr_steps (created_run paid_id t1 tool1 paid_onboarding)))"
  shows "\<exists>readings x.
    read_demo repr canonical paid_id trial_id (sys_db \<tau>) (sys_ledger \<tau>) = Inr readings \<and>
    workflow_timeline repr trial_id (sys_db \<tau>) = Inr x \<and>
    demo_invariants charge_key readings =
      Inr [(''charge retried after ambiguous commit'',
             2 \<le> length (step_attempts ''charge'' (run_events (sys_db \<tau>) paid_id))),
           (''stable charge key reused'', True),
           (''charge fenced across recovery'',
             2 \<le> length (step_attempts ''charge'' (run_events (sys_db \<tau>) paid_id))),
           (''trial retried'', 2 \<le> length (step_attempts ''provision-trial'' (run_events (sys_db \<tau>) trial_id))),
           (''one targeted 429'', length (filter throttle_retry (tl_entries x)) = 1),
           (''Retry-After honored'', 1900 \<le> sum_list (map waited (filter throttle_retry (tl_entries x)))),
           (''demo-run ledger exact'', True),
           (''history reconstructs projections'', True)]"
proof -
  note reach = steps_reachable [OF assms(2,1)]
  note ok = sys_okD(1) [OF reachable_ok [OF reach]]
  note p = submitted_run [OF assms(1-3,5,6)] and t = submitted_run [OF assms(1,2,4,7,8)]
  have key: "charge_key = paid_id @ '':charge''"
    by (simp add: assms(11) materialize_def paid_onboarding_def new_step_def)
  have "''charge'' \<in> set (map st_id (wr_steps paid))" unfolding p(1) by (simp add: paid_onboarding_def)
  then obtain s where s: "s \<in> set (wr_steps paid)" "st_id s = ''charge''" by auto
  let ?as = "step_attempts ''charge'' (run_events (sys_db \<tau>) paid_id)"
  note as = read_attempts [OF ok assms(5) s(1), of ?as, unfolded s(2), OF refl]
  from as(3) obtain fs where fs: "collect (map attempt_token ?as) = Inr fs" "length fs = length ?as"
    "increasing (attempt_fences (sys_db \<tau>) paid_id) \<longrightarrow> increasing fs" by blast
  have "increasing fs" using fs(3) reachable_fences [OF reach] unfolding fences_inv_def by blast
  then have fenced: "fenced_across_recovery fs = Inr (2 \<le> length ?as)"
    by (auto simp: fenced_across_recovery_def strictly_sorted_increasing fs(2))
  have "fields_ok s" "st_status s = STEP_COMPLETED"
    using db_ok_view(2) [OF ok assms(5)] assms(6) s(1) by (auto simp: wf_run_def)
  then have "st_attempts s \<noteq> 0" by (auto simp: fields_ok_def)
  with as(1) have ne: "?as \<noteq> []" by auto
  obtain tl where timeline: "workflow_timeline repr trial_id (sys_db \<tau>) = Inr tl"
    using read_api(2) [OF ok assms(7)] by blast
  have ledger: "combined_run_ledger canonical [paid_id, trial_id] no_effects (sys_ledger \<tau>) =
      Inr \<lparr>lg_charges = 1, lg_provisions = 2, lg_notifications = 3\<rparr>"
    using p(2) t(2)
    by (simp add: ledger_endpoint_def assms(9,10) add_summaries_def no_effects_def summary_def
        paid_onboarding_def trial_activation_def)
  show ?thesis
    using ne
    by (simp add: read_demo_def demo_invariants_def read_api(1,3) [OF ok assms(5)] read_api(1,3) [OF ok assms(7)]
        as(2) fs(1) fenced timeline ledger key Let_def storage_value_def list_all_iff
        del: combined_run_ledger.simps)
qed

text \<open>Effects of other runs.\<close>

definition other_effects :: "string \<Rightarrow> ledger \<Rightarrow> side_effect_row list" where
  "other_effects r l = filter (\<lambda>e. \<not> sql_like (r @ '':%'') (se_operation_key e)) (lg_effects l)"

lemma count_effects_split:
  "count_effects None op l = count_effects (Some r) op l + length (filter (\<lambda>e. se_operation e = op) (other_effects r l))"
proof -
  have "length (filter P xs) = length (filter (\<lambda>x. P x \<and> Q x) xs) + length (filter P (filter (\<lambda>x. \<not> Q x) xs))"
    for P Q and xs :: "side_effect_row list"
    by (induction xs) auto
  then show ?thesis by (simp add: count_effects_def other_effects_def)
qed

lemma no_effects_before:
  assumes ok: "sys_ok digest \<sigma>" and "r \<notin> run_ids (sys_db \<sigma>)" and "uuid_ok r"
  shows "count_effects (Some r) op (sys_ledger \<sigma>) = 0"
proof -
  have "\<not> sql_like (r @ '':%'') (se_operation_key e)" if e: "e \<in> set (lg_effects (sys_ledger \<sigma>))" for e
  proof -
    have "(se_operation e, se_operation_key e, se_request e) \<in> sys_requests \<sigma>"
      using sys_okD(4) [OF ok] e by (simp add: effects_inv_def)
    from identity_invD(3) [OF sys_okD(3) [OF ok] this] obtain s where s: "known_step (sys_db \<sigma>) s"
      "tool_request s = (se_operation e, se_operation_key e, se_request e)" by blast
    note key = known_step_key [OF sys_okD(1) [OF ok] s(1)]
    have "st_run_id s \<in> run_ids (sys_db \<sigma>)"
      using s(1) view_in_run_ids by (auto simp: known_step_def)
    with assms(2) have "r \<noteq> st_run_id s" by auto
    then show ?thesis
      using sql_like_key [of r "st_run_id s" "st_id s"] key s(2) assms(3)
      by (simp add: tool_request_def uuid_ok_def)
  qed
  then show ?thesis by (simp add: count_effects_def)
qed

text \<open>The graceful drain checks what it claims: if no other run had an effect while it ran,
  then whatever happened between the reading of its baseline and the completion of its run,
  the ledger delta is exact and the projection consistent, so that its verdict depends on
  nothing but whether the charge was attempted once.\<close>

theorem drain_verdict_exact:
  assumes "reachable digest \<sigma>" and "r \<notin> run_ids (sys_db \<sigma>)" and "(sys_step digest)\<^sup>*\<^sup>* \<sigma> \<upsilon>"
    and "view (sys_db \<upsilon>) r = Some (created_run r now tool paid_onboarding)" and "(sys_step digest)\<^sup>*\<^sup>* \<upsilon> \<tau>"
    and "view (sys_db \<tau>) r = Some run" and "wr_status run = COMPLETED"
    and "other_effects r (sys_ledger \<tau>) = other_effects r (sys_ledger \<sigma>)"
  shows "drain_verdict repr r (summary None (sys_ledger \<sigma>)) (sys_db \<tau>) (sys_ledger \<tau>) =
    (if length (step_attempts ''charge'' (run_events (sys_db \<tau>) r)) = 1 then Inr ()
     else Inl (InvariantFailed [''graceful-drain invariant failed'']))"
proof -
  note mid = steps_reachable [OF assms(3,1)]
  note ok = sys_okD(1) [OF reachable_ok [OF steps_reachable [OF assms(5) mid]]]
  note counts = submitted_run(2) [OF mid assms(5,4,6,7)]
  note before = no_effects_before [OF reachable_ok [OF assms(1)] assms(2) view_uuid [OF ok assms(6)]]
  have delta: "ledger_delta (summary None (sys_ledger \<tau>)) (summary None (sys_ledger \<sigma>)) = (1, 1, 1)"
    by (simp add: ledger_delta_def summary_def count_effects_split [of _ "sys_ledger \<tau>" r]
        count_effects_split [of _ "sys_ledger \<sigma>" r] before counts assms(8) paid_onboarding_def)
  from read_api(2) [OF ok assms(6)] obtain t where "workflow_timeline repr r (sys_db \<tau>) = Inr t" by blast
  then show ?thesis
    by (simp add: drain_verdict_def read_api(1,3) [OF ok assms(6)] delta storage_value_def)
qed

section \<open>The environment of the demo\<close>

lemma script_texts:
  "decimal_of_text ''0'' = Some 0" "decimal_of_text ''2'' = Some 2" "decimal_of_text ''60'' = Some 60"
  "decimal_of_text ''0.1'' = Some (1 / 10)" "decimal_of_text ''0.02'' = Some (1 / 50)"
  by code_simp+

lemma plain_script_texts:
  "\<forall>text \<in> {''0'', ''2'', ''60'', ''0.1'', ''0.02''}. drop_underscores (strip text) = Some text \<and>
     split_sign text = (False, text) \<and> map lower text \<notin> {''inf'', ''infinity'', ''nan''}"
  by code_simp

lemma script_floats:
  "float_of_text ''0'' = Some (Finite 0)" "float_of_text ''2'' = Some (Finite (to_double 2))"
  "float_of_text ''60'' = Some (Finite (to_double 60))" "float_of_text ''0.1'' = Some (Finite (to_double (1 / 10)))"
  "float_of_text ''0.02'' = Some (Finite (to_double (1 / 50)))"
proof -
  have "to_double 0 = 0" by (simp add: to_double_def round_half_even_def Let_def)
  then show "float_of_text ''0'' = Some (Finite 0)"
    using plain_script_texts script_texts(1) by (simp add: float_of_text_def in_float_range_def)
qed (use plain_script_texts in \<open>simp_all add: float_of_decimal [OF script_texts(2)] float_of_decimal [OF script_texts(3)]
      float_of_decimal [OF script_texts(4)] float_of_decimal [OF script_texts(5)] del: insert_iff\<close>)

lemma port_text: "0 \<le> port \<Longrightarrow> port < 65536 \<Longrightarrow> int_of_text (show_int port) = Some port"
proof -
  assume port: "0 \<le> port" "port < 65536"
  then have "length (show_nat (nat port)) \<le> 5" by (intro length_show_nat) auto
  with int_of_show_nat [of "nat port"] port show ?thesis by (simp add: show_int_def)
qed

lemma lease_bounds: "0 < to_double (1 / 10)" "to_double (1 / 10) < to_double (1 / 2)"
proof -
  have "\<bar>to_double (1 / 2) - 1 / 2\<bar> \<le> 1 / 16" "\<bar>to_double (1 / 10) - 1 / 10\<bar> \<le> 1 / 80"
    using to_double_near [of "1 / 2"] to_double_near [of "1 / 10"] by simp_all
  then show "0 < to_double (1 / 10)" "to_double (1 / 10) < to_double (1 / 2)" by linarith+
qed

definition demo_settings :: "string \<Rightarrow> int \<Rightarrow> settings" where
  "demo_settings state tool_port = \<lparr>se_state_dir = Resolve (PathText state),
     se_engine_db = Child (Resolve (PathText state)) ''engine.db'',
     se_ledger_db = Child (Resolve (PathText state)) ''ledger.db'',
     se_tool_base_url = local_url tool_port,
     se_poll_interval = Finite (to_double (1 / 50)), se_request_timeout = Finite (to_double 60),
     se_max_attempts = 8, se_base_backoff = Finite (to_double (1 / 4)), se_max_backoff = Finite (to_double 10),
     se_worker_count = 1, se_lease_ttl = Finite (to_double (1 / 2)), se_renew_interval = Finite (to_double (1 / 10)),
     se_tool_key = ''mock-tool''\<rparr>"

lemma demo_lookups:
  assumes "E = demo_environment state signal api_port tool_port env"
  shows "E ''CRASHSAFE_STATE_DIR'' = Some state" "E ''CRASHSAFE_TOOL_PORT'' = Some (show_int tool_port)"
    "E ''CRASHSAFE_TOOL_URL'' = Some (local_url tool_port)" "E ''CRASHSAFE_FLAKY_RATE'' = Some ''0''"
    "E ''CRASHSAFE_FAIL_FIRST_OPERATION'' = Some ''provision''" "E ''CRASHSAFE_RETRY_AFTER'' = Some ''2''"
    "E ''CRASHSAFE_REQUEST_TIMEOUT'' = Some ''60''" "E ''CRASHSAFE_LEASE_TTL'' = Some ''0.5''"
    "E ''CRASHSAFE_LEASE_RENEW_INTERVAL'' = Some ''0.1''" "E ''CRASHSAFE_POLL_INTERVAL'' = Some ''0.02''"
    "E ''CRASHSAFE_WORKERS'' = None" "E ''CRASHSAFE_ENGINE_DB'' = None" "E ''CRASHSAFE_LEDGER_DB'' = None"
    "E ''CRASHSAFE_TOOL_DB'' = None" "E ''CRASHSAFE_MAX_ATTEMPTS'' = None" "E ''CRASHSAFE_BASE_BACKOFF'' = None"
    "E ''CRASHSAFE_MAX_BACKOFF'' = None" "E ''CRASHSAFE_TOOL_KEY'' = None" "E ''CRASHSAFE_FAIL_FIRST_N'' = None"
    "E ''CRASHSAFE_CRASH_AT'' = None" "E ''CRASHSAFE_DELAY_AFTER_TOOL_COMMIT'' = None"
  by (simp_all add: assms demo_environment_def isolated_environment_def)

text \<open>The demo is isolated: whatever the shell exports, its processes accept the environment
  they are given and read the demo's own settings from it: the tool never fails at random and
  throttles the first provisioning once, no worker crashes itself or delays by default.\<close>

theorem demo_isolated:
  assumes "0 \<le> tool_port" and "tool_port < 65536"
    and "E = demo_environment state signal api_port tool_port env"
  shows "from_env E = Inr (demo_settings state tool_port) \<and>
    create_app E l = Inr (\<lparr>ta_flaky_rate = Finite 0, ta_retry_after = Finite (to_double 2),
        ta_forced_operation = Some PROVISION\<rparr>,
      \<lparr>ts_ledger = l, ts_forced_failures = 0, ts_operation_pending = True\<rparr>) \<and>
    es_crash_at (engine_settings_of E (demo_settings state tool_port)) = None \<and>
    E ''CRASHSAFE_DELAY_AFTER_TOOL_COMMIT'' = None"
proof -
  note E = demo_lookups [OF assms(3)]
  note texts = script_floats default_floats default_integers port_text [OF assms(1,2)]
  have settings: "from_env E = Inr (demo_settings state tool_port)"
    using lease_bounds
    by (simp add: from_env_def int_env_def float_env_def getenv_def E texts nonempty_env_def ledger_path_def
        check_settings_def float_le_def demo_settings_def Let_def)
  have "int_of_text ''0'' = Some 0" by code_simp
  then have "create_app E l = Inr (\<lparr>ta_flaky_rate = Finite 0, ta_retry_after = Finite (to_double 2),
        ta_forced_operation = Some PROVISION\<rparr>,
      \<lparr>ts_ledger = l, ts_forced_failures = 0, ts_operation_pending = True\<rparr>)"
    by (simp add: create_app_def settings tool_settings_def float_env_def int_env_def getenv_def E texts
        forced_operation_def step_name_of_def enum_step_name_def)
  with settings show ?thesis by (simp add: engine_settings_of_def E)
qed

end
