(* ===== verification/Outcomes.thy ===== *)
theory Outcomes
  imports Recovery
begin

text \<open>
  When a transition of a step succeeds and what it then leaves in the rows: each of the four
  leased transitions, under its guards, does exactly its updates. On top of that, what
  \<open>commit_phase\<close> does with each outcome of a tool call while the worker's lease is current:
  completion, retry with backoff, cooldown of the tool, and failure.
\<close>

section \<open>Rows after an update\<close>

lemma find_update_kept:
  assumes "\<And>x. p x \<Longrightarrow> p (f x)"
  shows "find p (update_where p f xs) = map_option f (find p xs)"
  using assms by (induction xs) auto

lemma get_step_row_update:
  assumes "get_step_row d r i = Inr row" and "\<And>x. sr_run_id (f x) = sr_run_id x" and "\<And>x. sr_id (f x) = sr_id x"
  shows "get_step_row (update_step r i f d) r i = Inr (f row)"
proof -
  have "find (\<lambda>s. sr_run_id s = r \<and> sr_id s = i) (db_steps d) = Some row"
    using assms(1) by (auto simp: get_step_row_def split: option.splits)
  then show ?thesis
    using find_update_kept [of "\<lambda>s. sr_run_id s = r \<and> sr_id s = i" f "db_steps d"] assms(2,3)
    by (simp add: get_step_row_def update_step_def)
qed

lemma append_event_succeeds:
  assumes "payload_model p = Some et"
  obtains e where "append_event r et p now step attempt version d = Inr (d\<lparr>db_events := db_events d @ [e]\<rparr>)"
  using assms by (simp add: append_event_def canonical_payload_def)

lemma get_step_row_events [simp]: "get_step_row (d\<lparr>db_events := es\<rparr>) r i = get_step_row d r i"
  by (simp add: get_step_row_def)

lemma dependencies_events [simp]: "dependencies (d\<lparr>db_events := es\<rparr>) r = dependencies d r"
  by (rule ext) (simp add: dependencies_def)

lemma dependencies_update_step [simp]: "dependencies (update_step r' i f d) r = dependencies d r"
  by (rule ext) (simp add: dependencies_def update_step_def)

section \<open>Successful transitions\<close>

lemma attempt_success:
  assumes "get_step_row d r i = Inr row" and "require_lease d r ck owner fence = Inr ()"
    and "runnable_status (sr_status row)" and "\<not> blocked d r i"
  obtains e where "record_attempt_body now ck r i owner fence d =
    (let f = (\<lambda>s. s\<lparr>sr_status := STEP_INTENT_RECORDED, sr_attempts := sr_attempts row + 1,
              sr_next_attempt_at := None, sr_last_error := None, sr_updated_at := now\<rparr>)
     in Inr (step_from_row (f row) (dependencies d r),
          update_step r i f (d\<lparr>db_events := db_events d @ [e]\<rparr>)))"
proof -
  let ?f = "\<lambda>s. s\<lparr>sr_status := STEP_INTENT_RECORDED, sr_attempts := sr_attempts row + 1,
      sr_next_attempt_at := None, sr_last_error := None, sr_updated_at := now\<rparr>"
  have "payload_model (StepAttemptStartedPayload (sr_operation row) (sr_request row) (sr_operation_key row)
      owner fence) = Some STEP_ATTEMPT_STARTED" by simp
  from append_event_succeeds [OF this, of r now "Some i" "Some (sr_attempts row + 1)"
      "if owner \<noteq> None then ATTEMPT_EVENT_SCHEMA_VERSION else EVENT_SCHEMA_VERSION" d]
  obtain e where e: "append_event r STEP_ATTEMPT_STARTED (StepAttemptStartedPayload (sr_operation row)
      (sr_request row) (sr_operation_key row) owner fence) now (Some i) (Some (sr_attempts row + 1))
      (if owner \<noteq> None then ATTEMPT_EVENT_SCHEMA_VERSION else EVENT_SCHEMA_VERSION) d =
      Inr (d\<lparr>db_events := db_events d @ [e]\<rparr>)" .
  have "get_step_row (update_step r i ?f (d\<lparr>db_events := db_events d @ [e]\<rparr>)) r i = Inr (?f row)"
    by (rule get_step_row_update) (use assms(1) in simp_all)
  moreover have "sr_run_id row = r" using get_step_row_Inr [OF assms(1)] by simp
  ultimately have "record_attempt_body now ck r i owner fence d =
      Inr (step_from_row (?f row) (dependencies d r), update_step r i ?f (d\<lparr>db_events := db_events d @ [e]\<rparr>))"
    using assms e by (simp add: record_attempt_body_def Let_def)
  then show thesis using that by simp
qed

lemma retry_success:
  assumes "get_step_row d r i = Inr row" and "require_lease d r ck owner fence = Inr ()"
    and "sr_status row = STEP_INTENT_RECORDED"
  obtains e where "schedule_retry_body now ck r i msg nx owner fence throttle d =
    (let d1 = update_step r i (\<lambda>s. s\<lparr>sr_status := STEP_RETRY_WAIT, sr_last_error := Some msg,
              sr_next_attempt_at := Some nx, sr_updated_at := now\<rparr>) (d\<lparr>db_events := db_events d @ [e]\<rparr>)
     in Inr ((), if throttle then upsert_throttle (sr_tool_key row) nx msg now d1 else d1))"
proof -
  have "payload_model (StepRetryScheduledPayload msg nx) = Some STEP_RETRY_SCHEDULED" by simp
  from append_event_succeeds [OF this, of r now "Some i" "Some (sr_attempts row)" EVENT_SCHEMA_VERSION d]
  obtain e where "append_event r STEP_RETRY_SCHEDULED (StepRetryScheduledPayload msg nx) now (Some i)
      (Some (sr_attempts row)) EVENT_SCHEMA_VERSION d = Inr (d\<lparr>db_events := db_events d @ [e]\<rparr>)" .
  moreover have "sr_run_id row = r" using get_step_row_Inr [OF assms(1)] by simp
  ultimately show thesis
    using assms that [of e] by (simp add: schedule_retry_body_def require_active_attempt_def Let_def)
qed

lemma fail_success:
  assumes "get_step_row d r i = Inr row" and "require_lease d r ck owner fence = Inr ()"
    and "sr_status row = STEP_INTENT_RECORDED"
  obtains e1 e2 where "fail_step_body now ck r i msg owner fence d =
    Inr ((), update_run r (\<lambda>w. w\<lparr>rr_status := FAILED, rr_updated_at := now\<rparr>)
      (update_step r i (\<lambda>s. s\<lparr>sr_status := STEP_FAILED, sr_last_error := Some msg, sr_updated_at := now\<rparr>)
        (d\<lparr>db_events := db_events d @ [e1, e2]\<rparr>)))"
proof -
  have "payload_model (StepFailedPayload msg) = Some STEP_FAILED_EVENT" by simp
  from append_event_succeeds [OF this, of r now "Some i" "Some (sr_attempts row)" EVENT_SCHEMA_VERSION d]
  obtain e1 where e1: "append_event r STEP_FAILED_EVENT (StepFailedPayload msg) now (Some i)
      (Some (sr_attempts row)) EVENT_SCHEMA_VERSION d = Inr (d\<lparr>db_events := db_events d @ [e1]\<rparr>)" .
  have "payload_model (WorkflowRunFailedPayload i msg) = Some WORKFLOW_RUN_FAILED" by simp
  from append_event_succeeds [OF this, of r now "Some i" None EVENT_SCHEMA_VERSION
      "d\<lparr>db_events := db_events d @ [e1]\<rparr>"]
  obtain e2 where e2: "append_event r WORKFLOW_RUN_FAILED (WorkflowRunFailedPayload i msg) now (Some i) None
      EVENT_SCHEMA_VERSION (d\<lparr>db_events := db_events d @ [e1]\<rparr>) =
      Inr (d\<lparr>db_events := db_events d @ [e1]\<rparr>\<lparr>db_events :=
        db_events (d\<lparr>db_events := db_events d @ [e1]\<rparr>) @ [e2]\<rparr>)" .
  have "sr_run_id row = r" using get_step_row_Inr [OF assms(1)] by simp
  then show thesis
    using assms e1 e2 that [of e1 e2] by (simp add: fail_step_body_def require_active_attempt_def Let_def)
qed

lemma complete_success:
  assumes "get_step_row d r i = Inr row" and "require_lease d r ck owner fence = Inr ()"
    and "sr_status row = STEP_INTENT_RECORDED"
  obtains e es where "complete_step_body now ck r i out owner fence d =
    (let d2 = update_step r i (\<lambda>s. s\<lparr>sr_status := STEP_COMPLETED, sr_output := Some out,
              sr_next_attempt_at := None, sr_last_error := None, sr_completed_at := Some now,
              sr_updated_at := now\<rparr>) (d\<lparr>db_events := db_events d @ [e]\<rparr>)
     in Inr ((), if remaining_steps d2 r = 0
          then update_run r (\<lambda>w. w\<lparr>rr_status := COMPLETED, rr_completed_at := Some now, rr_updated_at := now\<rparr>)
                 (d2\<lparr>db_events := db_events d2 @ es\<rparr>)
          else d2))"
proof -
  let ?f = "\<lambda>s. s\<lparr>sr_status := STEP_COMPLETED, sr_output := Some out, sr_next_attempt_at := None,
      sr_last_error := None, sr_completed_at := Some now, sr_updated_at := now\<rparr>"
  have "payload_model (StepCompletedPayload out) = Some STEP_COMPLETED_EVENT" by simp
  from append_event_succeeds [OF this, of r now "Some i" "Some (sr_attempts row)" EVENT_SCHEMA_VERSION d]
  obtain e where e: "append_event r STEP_COMPLETED_EVENT (StepCompletedPayload out) now (Some i)
      (Some (sr_attempts row)) EVENT_SCHEMA_VERSION d = Inr (d\<lparr>db_events := db_events d @ [e]\<rparr>)" .
  let ?d2 = "update_step r i ?f (d\<lparr>db_events := db_events d @ [e]\<rparr>)"
  have "payload_model WorkflowRunCompletedPayload = Some WORKFLOW_RUN_COMPLETED" by simp
  from append_event_succeeds [OF this, of r now None None EVENT_SCHEMA_VERSION ?d2]
  obtain e2 where e2: "append_event r WORKFLOW_RUN_COMPLETED WorkflowRunCompletedPayload now None None
      EVENT_SCHEMA_VERSION ?d2 = Inr (?d2\<lparr>db_events := db_events ?d2 @ [e2]\<rparr>)" .
  have "sr_run_id row = r" using get_step_row_Inr [OF assms(1)] by simp
  then show thesis
    using assms e e2 that [of e "[e2]"] by (simp add: complete_step_body_def Let_def)
qed

section \<open>The retry policy\<close>

lemma throttle_of_upsert:
  "\<exists>th. throttle_of (upsert_throttle k nx msg now d) k = Some th \<and> nx \<le> th_blocked_until th"
proof (cases "throttle_of d k")
  case None
  have app: "find p (xs @ [x]) = (case find p xs of None \<Rightarrow> if p x then Some x else None | s \<Rightarrow> s)"
    for p and xs :: "tool_throttle list" and x
    by (induction xs) auto
  from None show ?thesis by (simp add: upsert_throttle_def throttle_of_def app)
next
  case (Some th)
  then show ?thesis by (simp add: upsert_throttle_def throttle_of_def find_update_kept)
qed

lemma run_row_of_update:
  assumes "\<And>w. rr_run_id (f w) = rr_run_id w"
  shows "run_row_of (update_run r f d) r = map_option f (run_row_of d r)"
  using find_update_kept [of "\<lambda>w. rr_run_id w = r" f "db_runs d"] assms
  by (simp add: run_row_of_def update_run_def)

lemma get_step_row_other [simp]:
  "get_step_row (update_run r' f d) r i = get_step_row d r i"
  "get_step_row (upsert_throttle k nx msg now d) r i = get_step_row d r i"
  by (simp_all add: get_step_row_def update_run_def)

text \<open>C26: the retry policy. While the worker still holds the lease, a retryable failure fails
  the step and its run when the attempts are used up. Otherwise the step waits until the
  deadline the tool asked for, or else until the end of the exponential backoff, with the
  error recorded; a throttled tool is blocked at least as long. If the deadline cannot be
  computed the exception ends the attempt and nothing changes.\<close>

theorem retry_policy:
  assumes "get_step_row d (st_run_id s) (st_id s) = Inr row" and "sr_status row = STEP_INTENT_RECORDED"
    and "require_lease d (st_run_id s) (cc_lease t) (Some (le_owner_id l)) (Some (le_fence_token l)) = Inr ()"
    and "commit_phase cfg t s l (RetryableToolError msg retry_after throttle) d = (ph, d')"
  shows "if es_max_attempts cfg \<le> st_attempts s
    then ph = Releasing l (Inr (did_step s)) \<and>
      get_step_row d' (st_run_id s) (st_id s) = Inr (row\<lparr>sr_status := STEP_FAILED,
        sr_last_error := Some (''retry budget exhausted: '' @ msg), sr_updated_at := cc_now t\<rparr>) \<and>
      run_row_of d' (st_run_id s) = map_option (\<lambda>w. w\<lparr>rr_status := FAILED, rr_updated_at := cc_now t\<rparr>)
        (run_row_of d (st_run_id s))
    else (case rbind (retry_delay cfg s retry_after) (deadline (cc_engine t)) of
      Inl e \<Rightarrow> ph = Releasing l (Inl (TimeError e)) \<and> d' = d
    | Inr nx \<Rightarrow> ph = Releasing l (Inr (did_step s)) \<and>
        get_step_row d' (st_run_id s) (st_id s) = Inr (row\<lparr>sr_status := STEP_RETRY_WAIT,
          sr_last_error := Some msg, sr_next_attempt_at := Some nx, sr_updated_at := cc_now t\<rparr>) \<and>
        (throttle \<longrightarrow> (\<exists>th. throttle_of d' (sr_tool_key row) = Some th \<and> nx \<le> th_blocked_until th)))"
proof (cases "es_max_attempts cfg \<le> st_attempts s")
  case True
  let ?msg = "''retry budget exhausted: '' @ msg"
  obtain e1 e2 where body: "fail_step_body (cc_now t) (cc_lease t) (st_run_id s) (st_id s) ?msg
      (Some (le_owner_id l)) (Some (le_fence_token l)) d =
    Inr ((), update_run (st_run_id s) (\<lambda>w. w\<lparr>rr_status := FAILED, rr_updated_at := cc_now t\<rparr>)
      (update_step (st_run_id s) (st_id s) (\<lambda>s. s\<lparr>sr_status := STEP_FAILED, sr_last_error := Some ?msg,
        sr_updated_at := cc_now t\<rparr>) (d\<lparr>db_events := db_events d @ [e1, e2]\<rparr>)))"
    by (rule fail_success [OF assms(1,3,2)])
  have "run_row_of (update_step r i f d) r' = run_row_of d r'" "run_row_of (d\<lparr>db_events := es\<rparr>) r' = run_row_of d r'"
    for r i f d r' es by (simp_all add: run_row_of_def update_step_def)
  with True assms(1,4) body show ?thesis
    by (auto simp: transaction_def handle_retryable_failure_def fail_step_def storage_result_def settle_def
        get_step_row_update run_row_of_update)
next
  case False
  show ?thesis
  proof (cases "rbind (retry_delay cfg s retry_after) (deadline (cc_engine t))")
    case (Inl e)
    with False assms(4) show ?thesis
      by (auto simp: handle_retryable_failure_def settle_def after_error_def)
  next
    case (Inr nx)
    obtain e where body: "schedule_retry_body (cc_now t) (cc_lease t) (st_run_id s) (st_id s) msg nx
        (Some (le_owner_id l)) (Some (le_fence_token l)) throttle d =
      (let d1 = update_step (st_run_id s) (st_id s) (\<lambda>s. s\<lparr>sr_status := STEP_RETRY_WAIT,
              sr_last_error := Some msg, sr_next_attempt_at := Some nx, sr_updated_at := cc_now t\<rparr>)
              (d\<lparr>db_events := db_events d @ [e]\<rparr>)
       in Inr ((), if throttle then upsert_throttle (sr_tool_key row) nx msg (cc_now t) d1 else d1))"
      by (rule retry_success [OF assms(1,3,2)])
    from False Inr assms(1,4) body [unfolded Let_def] show ?thesis
      by (auto simp: transaction_def handle_retryable_failure_def schedule_retry_def storage_result_def settle_def
          get_step_row_update throttle_of_upsert)
  qed
qed

section \<open>Cooldowns\<close>

definition blocked_until :: "db \<Rightarrow> string \<Rightarrow> timestamp \<Rightarrow> bool" where
  "blocked_until d k t \<longleftrightarrow> (\<exists>th. throttle_of d k = Some th \<and> t \<le> th_blocked_until th)"

lemma throttle_upsert_keeps:
  assumes "blocked_until d k t" shows "blocked_until (upsert_throttle k' nx msg now d) k t"
proof -
  obtain th where th: "throttle_of d k = Some th" "t \<le> th_blocked_until th"
    using assms by (auto simp: blocked_until_def)
  show ?thesis
  proof (cases "throttle_of d k'")
    case None
    have app: "find p (xs @ [x]) = (case find p xs of None \<Rightarrow> if p x then Some x else None | s \<Rightarrow> s)"
      for p and xs :: "tool_throttle list" and x
      by (induction xs) auto
    from None th show ?thesis by (simp add: blocked_until_def upsert_throttle_def throttle_of_def app)
  next
    case (Some th')
    let ?f = "\<lambda>t. t\<lparr>th_blocked_until := max (th_blocked_until t) nx,
        th_reason := (if th_blocked_until t \<le> nx then msg else th_reason t), th_updated_at := now\<rparr>"
    have "find (\<lambda>x. th_tool_key x = k) (update_where (\<lambda>t. th_tool_key t = k') ?f xs) =
        map_option (\<lambda>x. if th_tool_key x = k' then ?f x else x) (find (\<lambda>x. th_tool_key x = k) xs)" for xs
      by (induction xs) auto
    then have "throttle_of (upsert_throttle k' nx msg now d) k =
        map_option (\<lambda>x. if th_tool_key x = k' then ?f x else x) (throttle_of d k)"
      using Some by (simp add: upsert_throttle_def throttle_of_def)
    then show ?thesis using th by (simp add: blocked_until_def le_max_iff_disj)
  qed
qed

lemma insert_throttles:
  "insert_run w d = Inr d' \<Longrightarrow> db_throttles d' = db_throttles d"
  "insert_step s d = Inr d' \<Longrightarrow> db_throttles d' = db_throttles d"
  "insert_dependency x d = Inr d' \<Longrightarrow> db_throttles d' = db_throttles d"
  by (auto simp: insert_run_def insert_step_def insert_dependency_def split: if_splits)

lemmas insert_all_throttles =
  insert_all_preserves [of insert_step, where f = db_throttles, OF _ insert_throttles(2)]
  insert_all_preserves [of insert_dependency, where f = db_throttles, OF _ insert_throttles(3)]

lemma append_throttles: "append_event r et p now step attempt version d = Inr d' \<Longrightarrow> db_throttles d' = db_throttles d"
  by (erule append_event_Inr) simp

lemma update_throttles [simp]:
  "db_throttles (update_step r i f d) = db_throttles d" "db_throttles (update_run r g d) = db_throttles d"
  by (simp_all add: update_step_def update_run_def)

lemma create_throttles: "db_throttles (snd (create_workflow_run r now wd tk dt d)) = db_throttles d"
proof -
  have "db_throttles d' = db_throttles d" if body: "create_workflow_run_body r now tool wd d = Inr ((), d')" for tool d'
  proof -
    from body obtain w steps deps created d1 d2 d3 where
      steps: "insert_run w d = Inr d1" "insert_all insert_step steps d1 = Inr d2"
        "insert_all insert_dependency deps d2 = Inr d3"
      and app: "append_event r WORKFLOW_RUN_CREATED created now None None 3 d3 = Inr d'"
      by (auto simp: create_workflow_run_body_def rbind_Inr_iff Let_def)
    from append_throttles [OF app] insert_throttles(1) [OF steps(1)] insert_all_throttles(1) [OF steps(2)]
      insert_all_throttles(2) [OF steps(3)] show ?thesis by simp
  qed
  then show ?thesis by (auto simp: create_workflow_run_def transaction_def split: sum.splits)
qed

lemma rebuild_throttles: "db_throttles (snd (rebuild_projection r d)) = db_throttles d"
proof -
  have "db_throttles d' = db_throttles d" if "rebuild_write_body r run p d = Inr ((), d')" for run p d'
  proof -
    from that obtain w steps deps d1 d2 where
      *: "insert_run w (delete_projection r d) = Inr d1" "insert_all insert_step steps d1 = Inr d2"
        "insert_all insert_dependency deps d2 = Inr d'"
      by (auto simp: rebuild_write_body_def rbind_Inr_iff)
    then show ?thesis
      using insert_throttles(1) [OF *(1)] insert_all_throttles(1) [OF *(2)] insert_all_throttles(2) [OF *(3)] by simp
  qed
  then show ?thesis
    by (auto simp: rebuild_projection_def rebuild_write_def transaction_def split: sum.splits)
qed

lemma retry_throttles:
  assumes "schedule_retry_body now ck r i msg nx owner fence throttle d = Inr (u, d')" and "blocked_until d k t"
  shows "blocked_until d' k t"
  using assms(1)
proof (rule schedule_retry_body_Inr)
  fix row d1
  assume app: "append_event r STEP_RETRY_SCHEDULED (StepRetryScheduledPayload msg nx) now (Some i)
      (Some (sr_attempts row)) 1 d = Inr d1"
    and d': "d' = (let d2 = update_step r i (\<lambda>s. s\<lparr>sr_status := STEP_RETRY_WAIT,
        sr_last_error := Some msg, sr_next_attempt_at := Some nx, sr_updated_at := now\<rparr>) d1
      in if throttle then upsert_throttle (sr_tool_key row) nx msg now d2 else d2)"
  let ?d2 = "update_step r i (\<lambda>s. s\<lparr>sr_status := STEP_RETRY_WAIT, sr_last_error := Some msg,
      sr_next_attempt_at := Some nx, sr_updated_at := now\<rparr>) d1"
  have "db_throttles ?d2 = db_throttles d" using append_throttles [OF app] by simp
  then have "blocked_until ?d2 k t" using assms(2) by (simp add: blocked_until_def throttle_of_def)
  then show ?thesis by (simp add: d' Let_def throttle_upsert_keeps)
qed

lemma blocked_until_same: "blocked_until d k t \<Longrightarrow> db_throttles d' = db_throttles d \<Longrightarrow> blocked_until d' k t"
  by (simp add: blocked_until_def throttle_of_def)

lemma perform_blocked:
  assumes "blocked_until d k t"
  shows "blocked_until (perform x d) k t"
proof (cases x)
  case (Create r now wd tool_key default_tool)
  with assms show ?thesis by (simp add: blocked_until_same [OF _ create_throttles])
next
  case (Claim owner ttl now)
  have "db_throttles (perform x d) = db_throttles d"
    by (cases "select_runnable d now True")
      (simp_all add: Claim claim_runnable_step_def transaction_def claim_body_def Let_def upsert_lease_def)
  with assms show ?thesis by (rule blocked_until_same)
next
  case (Attempt now at r i owner fence)
  show ?thesis unfolding Attempt perform.simps record_attempt_def
    by (rule transaction_preserves [where P = "\<lambda>d. blocked_until d k t", OF assms])
      (erule record_attempt_body_Inr, rule blocked_until_same [OF assms], simp add: append_throttles)
next
  case (Retry now at r i error nx owner fence throttle)
  show ?thesis unfolding Retry perform.simps schedule_retry_def
    by (rule transaction_preserves [where P = "\<lambda>d. blocked_until d k t", OF assms]) (erule retry_throttles [OF _ assms])
next
  case (Fail now at r i error owner fence)
  show ?thesis unfolding Fail perform.simps fail_step_def
    by (rule transaction_preserves [where P = "\<lambda>d. blocked_until d k t", OF assms])
      (erule fail_step_body_Inr, rule blocked_until_same [OF assms], simp add: append_throttles)
next
  case (Complete now at r i out owner fence)
  show ?thesis unfolding Complete perform.simps complete_step_def
    by (rule transaction_preserves [where P = "\<lambda>d. blocked_until d k t", OF assms])
      (erule complete_step_body_Inr, auto intro!: blocked_until_same [OF assms] simp: append_throttles)
next
  case (Rebuild r)
  with assms show ?thesis by (simp add: blocked_until_same [OF _ rebuild_throttles])
qed (use assms in \<open>auto intro!: blocked_until_same [OF assms]
     simp: renew_lease_def release_lease_def transaction_def Let_def\<close>)

lemma run_blocked: "blocked_until d k t \<Longrightarrow> blocked_until (fold perform xs d) k t"
  by (induction xs arbitrary: d) (simp_all add: perform_blocked)

text \<open>C27: a cooldown gates every run. Once a tool is throttled until some deadline, no claim
  before that deadline returns a step of that tool, of whatever run, whatever storage
  operations are performed in between: none of them moves the deadline back.\<close>

theorem cooldown_gates_claims:
  assumes "throttle_of d k = Some th" and "now < th_blocked_until th"
    and "claim_runnable_step owner ttl now (fold perform xs d) = (Inr (Some c), d')"
  shows "st_tool_key (cl_step c) \<noteq> k"
proof -
  have "blocked_until (fold perform xs d) k (th_blocked_until th)"
    using assms(1) by (intro run_blocked) (simp add: blocked_until_def)
  then obtain th' where th': "throttle_of (fold perform xs d) k = Some th'" "now < th_blocked_until th'"
    using assms(2) by (auto simp: blocked_until_def)
  from assms(3) obtain row where row: "select_runnable (fold perform xs d) now True = Some row"
    "le_run_id (cl_lease c) = sr_run_id row"
    "cl_lease c = \<lparr>le_run_id = sr_run_id row, le_owner_id = owner, le_fence_token =
        next_fence (fold perform xs d) (sr_run_id row), le_expires_at = now + ttl, le_updated_at = now\<rparr>"
    "cl_step c = step_from_row row (dependencies (fold perform xs d) (sr_run_id row))"
    "d' = upsert_lease (cl_lease c) (fold perform xs d)" by (rule claim_Some)
  from select_runnable_Some(2) [OF row(1)]
  have "due (map_option th_blocked_until (throttle_of (fold perform xs d) (sr_tool_key row))) now"
    by (simp add: eligible_def)
  with th' show ?thesis by (auto simp: row(4) due_def)
qed

end
