(* ===== verification/Worker.thy ===== *)
theory Worker
  imports Outcomes
begin

text \<open>
  \<open>crashsafe/worker.py\<close>: the polling loops around \<open>run_once\<close>. A tick is one iteration that the
  drain flag and the deadline admit, with the clock readings and the tool's behaviour in it;
  the loops end with the list of ticks. The flag, the signals that set it and the checks of
  every round are in \<open>Worker_Process\<close>, whose loops are these on the admitted rounds.
  \<open>Progress\<close> shows that a healthy worker finishes.
\<close>

section \<open>The loops\<close>

type_synonym tick = "run_clock \<times> (step_record \<Rightarrow> gateway_outcome)"

text \<open>How a worker process ends; \<open>Killed\<close> is the injected \<open>os._exit(91)\<close>.\<close>

datatype worker_exit = ExitCode int | Raised engine_error | Killed

fun run_until_terminal :: "engine_settings \<Rightarrow> string \<Rightarrow> string \<Rightarrow> tick list \<Rightarrow> db \<Rightarrow> worker_exit \<times> db" where
  "run_until_terminal cfg worker r [] d = (ExitCode 3, d)"
| "run_until_terminal cfg worker r ((t, gateway) # ticks) d =
     (case get_workflow_run r d of
        Inl e \<Rightarrow> (Raised (StorageError e), d)
      | Inr run \<Rightarrow>
          if wr_status run = COMPLETED then (ExitCode 0, d)
          else if wr_status run = FAILED then (ExitCode 2, d)
          else (case run_once cfg worker t gateway d of
              (Finished (Inr out), d') \<Rightarrow> run_until_terminal cfg worker r ticks d'
            | (Finished (Inl e), d') \<Rightarrow> (Raised e, d')
            | (_, d') \<Rightarrow> (Killed, d')))"

fun run_forever :: "engine_settings \<Rightarrow> string \<Rightarrow> tick list \<Rightarrow> db \<Rightarrow> worker_exit \<times> db" where
  "run_forever cfg worker [] d = (ExitCode 0, d)"
| "run_forever cfg worker ((t, gateway) # ticks) d =
     (case run_once cfg worker t gateway d of
        (Finished (Inr out), d') \<Rightarrow> run_forever cfg worker ticks d'
      | (Finished (Inl e), d') \<Rightarrow> (Raised e, d')
      | (_, d') \<Rightarrow> (Killed, d'))"

text \<open>The three ways to start the process; \<open>main\<close> takes an empty run id for none.\<close>

datatype worker_args = Once tick | UntilTerminal string "tick list" | Forever "tick list"

fun worker_main :: "engine_settings \<Rightarrow> string \<Rightarrow> worker_args \<Rightarrow> db \<Rightarrow> worker_exit \<times> db" where
  "worker_main cfg worker (Once (t, gateway)) d =
     (case run_once cfg worker t gateway d of
        (Finished (Inr out), d') \<Rightarrow> (ExitCode 0, d')
      | (Finished (Inl e), d') \<Rightarrow> (Raised e, d')
      | (_, d') \<Rightarrow> (Killed, d'))"
| "worker_main cfg worker (UntilTerminal r ticks) d =
     (if r = [] then run_forever cfg worker ticks d
      else (case run_until_terminal cfg worker r ticks d of
        (Raised (StorageError (WorkflowRunNotFoundError _)), d') \<Rightarrow> (ExitCode 4, d')
      | x \<Rightarrow> x))"
| "worker_main cfg worker (Forever ticks) d = run_forever cfg worker ticks d"

section \<open>Exit codes\<close>

text \<open>No transition of a step raises \<open>WorkflowRunNotFoundError\<close>.\<close>

lemma bodies_raise:
  "record_attempt_body now ck r i owner fence d \<noteq> Inl (WorkflowRunNotFoundError x)"
  "schedule_retry_body now ck r i msg nx owner fence throttle d \<noteq> Inl (WorkflowRunNotFoundError x)"
  "fail_step_body now ck r i msg owner fence d \<noteq> Inl (WorkflowRunNotFoundError x)"
  "complete_step_body now ck r i out owner fence d \<noteq> Inl (WorkflowRunNotFoundError x)"
  by (auto simp: body_defs rbind_Inl_iff get_step_row_def require_lease_def append_event_def
      canonical_payload_def Let_def split: option.splits if_splits)

lemma transaction_raise: "fst (transaction body d) = Inl e \<longleftrightarrow> body d = Inl e"
  by (simp add: transaction_def split: sum.splits)

lemma after_error_raise: "after_error l out e = Releasing l' (Inl e') \<Longrightarrow> e' = e"
  by (auto simp: after_error_def split: engine_error.splits storage_error.splits)

lemma settle_raise: "fst (settle l out x) = Releasing l' (Inl e') \<Longrightarrow> fst x = Inl e'"
  by (auto simp: settle_def split: prod.splits sum.splits dest: after_error_raise)

lemma storage_result_raise: "fst (storage_result x) = Inl (StorageError e) \<Longrightarrow> fst x = Inl e"
  by (auto simp: storage_result_def split: prod.splits sum.splits)

lemmas raise_rules = after_error_raise settle_raise storage_result_raise

lemma attempt_phase_raise:
  "fst (attempt_phase cfg now ck c d) \<noteq> Releasing l (Inl (StorageError (WorkflowRunNotFoundError x)))"
proof
  assume "fst (attempt_phase cfg now ck c d) = Releasing l (Inl (StorageError (WorkflowRunNotFoundError x)))"
  then have "fst (record_attempt now ck (st_run_id (cl_step c)) (st_id (cl_step c)) (Some (le_owner_id (cl_lease c)))
      (Some (le_fence_token (cl_lease c))) d) = Inl (WorkflowRunNotFoundError x)"
    by (auto simp: attempt_phase_def split: prod.splits sum.splits if_splits dest: after_error_raise)
  then show False by (simp add: record_attempt_def transaction_raise bodies_raise)
qed

lemma handle_raise:
  "fst (handle_retryable_failure cfg t s msg after throttle owner fence d) \<noteq>
    Inl (StorageError (WorkflowRunNotFoundError x))"
  by (auto simp: handle_retryable_failure_def fail_step_def schedule_retry_def transaction_raise bodies_raise
      split: sum.splits dest!: storage_result_raise)

lemma commit_phase_raise:
  "fst (commit_phase cfg t s m g d) \<noteq> Releasing l (Inl (StorageError (WorkflowRunNotFoundError x)))"
proof (cases g)
  case (ToolAnswer res)
  have "fst (complete_step (cc_now t) (cc_lease t) (st_run_id s) (st_id s) (result_payload res)
      (Some (le_owner_id m)) (Some (le_fence_token m)) d) \<noteq> Inl (WorkflowRunNotFoundError x)"
    by (simp add: complete_step_def transaction_raise bodies_raise)
  with ToolAnswer show ?thesis
    by (auto simp: commit_answer_def split: prod.splits sum.splits if_splits dest: after_error_raise)
next
  case (PermanentToolError msg)
  then show ?thesis
    by (auto simp: fail_step_def transaction_raise bodies_raise dest!: settle_raise storage_result_raise)
qed (auto simp: handle_raise dest!: settle_raise after_error_raise)

lemma run_once_raise:
  "fst (run_once cfg worker t gateway d) \<noteq> Finished (Inl (StorageError (WorkflowRunNotFoundError x)))"
proof -
  have finish: "fst (finish_phase now y) \<noteq> Finished (Inl (StorageError (WorkflowRunNotFoundError x)))"
    if "\<forall>l. fst y \<noteq> Releasing l (Inl (StorageError (WorkflowRunNotFoundError x)))"
      and "fst y \<noteq> Finished (Inl (StorageError (WorkflowRunNotFoundError x)))" for now y
    using that by (auto simp: finish_phase_def release_phase_def split: prod.splits worker_phase.splits)
  have ended: "fst (attempt_phase cfg now ck c d) \<noteq> Finished z" "fst (commit_phase cfg ct s l g d) \<noteq> Finished z"
    for now ck c d ct s l g z
  proof -
    show "fst (attempt_phase cfg now ck c d) \<noteq> Finished z"
      by (auto simp: attempt_phase_def after_error_def split: prod.splits sum.splits if_splits
          engine_error.splits storage_error.splits)
    have "after_error l' out e \<noteq> Finished z" for l' out e
      by (auto simp: after_error_def split: engine_error.splits storage_error.splits)
    then show "fst (commit_phase cfg ct s l g d) \<noteq> Finished z"
      by (cases g) (auto simp: commit_answer_def settle_def split: prod.splits sum.splits if_splits)
  qed
  obtain ph d1 where c: "claim_phase cfg worker (rc_claim t) d = (ph, d1)" by fastforce
  show ?thesis
  proof (cases "\<exists>cl. ph = Claimed cl")
    case False
    have "ph \<noteq> Finished (Inl (StorageError (WorkflowRunNotFoundError x)))"
      using c claim_never_raises [of worker _ "rc_claim t" d]
      by (auto simp: claim_phase_def split: sum.splits prod.splits option.splits) (metis fst_conv)
    with False c show ?thesis by (auto simp: run_once_def split: worker_phase.splits)
  next
    case True
    then obtain cl where ph: "ph = Claimed cl" by blast
    obtain ph2 d2 where a: "attempt_phase cfg (rc_attempt t) (rc_attempt_lease t) cl d1 = (ph2, d2)" by fastforce
    have "\<forall>l. ph2 \<noteq> Releasing l (Inl (StorageError (WorkflowRunNotFoundError x)))"
      using attempt_phase_raise [of cfg "rc_attempt t" "rc_attempt_lease t" cl d1 _ x] a by simp
    moreover have "ph2 \<noteq> Finished z" for z using ended(1) [of "rc_attempt t" "rc_attempt_lease t" cl d1 z] a by simp
    ultimately show ?thesis
      using c ph a finish [of "(ph2, d2)" "rc_release t"]
        finish [of "commit_phase cfg (rc_commit t) _ _ _ _" "rc_release t", OF _ ended(2)] commit_phase_raise
      by (auto simp: run_once_def split: worker_phase.splits)
  qed
qed

lemma run_until_terminal_codes:
  "run_until_terminal cfg worker r ticks d = (x, d') \<Longrightarrow>
    (x = ExitCode 0 \<longrightarrow> (\<exists>run. get_workflow_run r d' = Inr run \<and> wr_status run = COMPLETED)) \<and>
    (x = ExitCode 2 \<longrightarrow> (\<exists>run. get_workflow_run r d' = Inr run \<and> wr_status run = FAILED)) \<and>
    (\<forall>r'. x = Raised (StorageError (WorkflowRunNotFoundError r')) \<longrightarrow>
       get_workflow_run r d' = Inl (WorkflowRunNotFoundError r)) \<and>
    (\<forall>c. x = ExitCode c \<longrightarrow> c \<in> {0, 2, 3})"
proof (induction cfg worker r ticks d rule: run_until_terminal.induct)
  case (1 cfg worker r d)
  then show ?case by auto
next
  case (2 cfg worker r t gateway ticks d)
  show ?case
  proof (cases "get_workflow_run r d")
    case (Inl e)
    moreover from Inl have "e = WorkflowRunNotFoundError r"
      by (auto simp: get_of_view split: option.splits)
    ultimately show ?thesis using 2(2) by auto
  next
    case (Inr run)
    show ?thesis
    proof (cases "wr_status run = RUNNING")
      case False
      with Inr 2(2) show ?thesis by (cases "wr_status run") (auto split: if_splits)
    next
      case True
      obtain ph d1 where ro: "run_once cfg worker t gateway d = (ph, d1)" by fastforce
      show ?thesis
      proof (cases "\<exists>out. ph = Finished (Inr out)")
        case out: True
        then obtain out where out: "ph = Finished (Inr out)" by blast
        have "run_until_terminal cfg worker r ticks d1 = (x, d')" using 2(2) Inr True ro out by simp
        from 2(1) [OF Inr _ _ ro [symmetric] out refl this] True show ?thesis by simp
      next
        case False
        have "ph \<noteq> Finished (Inl (StorageError (WorkflowRunNotFoundError r')))" for r'
          using run_once_raise [of cfg worker t gateway d r'] ro by simp
        then have "(\<forall>c. x \<noteq> ExitCode c) \<and> (\<forall>r'. x \<noteq> Raised (StorageError (WorkflowRunNotFoundError r')))"
          using False 2(2) Inr True ro by (auto split: worker_phase.splits sum.splits)
        then show ?thesis by simp
      qed
    qed
  qed
qed

text \<open>C28: the exit codes of \<open>--until-terminal\<close> mean what they say: 0 that the run is completed,
  2 that it failed, 4 that it does not exist; no other code but 3 (drained or out of time)
  is ever returned.\<close>

theorem exit_codes_truthful:
  assumes "worker_main cfg worker (UntilTerminal r ticks) d = (ExitCode c, d')" and "r \<noteq> []"
  shows "c \<in> {0, 2, 3, 4} \<and>
    (c = 0 \<longrightarrow> (\<exists>run. get_workflow_run r d' = Inr run \<and> wr_status run = COMPLETED)) \<and>
    (c = 2 \<longrightarrow> (\<exists>run. get_workflow_run r d' = Inr run \<and> wr_status run = FAILED)) \<and>
    (c = 4 \<longrightarrow> get_workflow_run r d' = Inl (WorkflowRunNotFoundError r))"
proof -
  obtain x d1 where x: "run_until_terminal cfg worker r ticks d = (x, d1)" by fastforce
  show ?thesis
  proof (cases "\<exists>r'. x = Raised (StorageError (WorkflowRunNotFoundError r'))")
    case True
    with x assms run_until_terminal_codes [OF x] show ?thesis by auto
  next
    case False
    with x assms have "x = ExitCode c \<and> d1 = d'"
      by (auto split: worker_exit.splits engine_error.splits storage_error.splits)
    with run_until_terminal_codes [OF x] show ?thesis by auto
  qed
qed

end
