(* ===== verification/Progress.thy ===== *)
theory Progress
  imports Worker
begin

text \<open>
  Progress of a worker on its own: when the deadlines in the database have passed, the tool
  answers and no lease expires within an attempt, every \<open>run_once\<close> completes exactly one
  step, so \<open>run_until_terminal\<close> ends with the run completed after at most one tick per open
  step of the database.
\<close>

section \<open>Open steps\<close>

definition open_steps :: "db \<Rightarrow> nat" where
  "open_steps d = length (filter (\<lambda>s. sr_status s \<noteq> STEP_COMPLETED \<and> run_is_running d (sr_run_id s)) (db_steps d))"

definition quiet :: "db \<Rightarrow> timestamp \<Rightarrow> bool" where
  "quiet d t \<longleftrightarrow> (\<forall>l \<in> set (db_leases d). le_expires_at l \<le> t) \<and>
     (\<forall>th \<in> set (db_throttles d). th_blocked_until th \<le> t) \<and>
     (\<forall>s \<in> set (db_steps d). due (sr_next_attempt_at s) t)"

definition run_status :: "db \<Rightarrow> string \<Rightarrow> workflow_run_status option" where
  "run_status d r = map_option rr_status (run_row_of d r)"

definition only_completes :: "db \<Rightarrow> db \<Rightarrow> bool" where
  "only_completes d d' \<longleftrightarrow> (\<forall>r. run_status d' r = run_status d r \<or>
     run_status d r = Some RUNNING \<and> run_status d' r = Some COMPLETED)"

lemma run_is_running_status: "run_is_running d r \<longleftrightarrow> run_status d r = Some RUNNING"
  by (auto simp: run_is_running_def run_status_def split: option.splits)

lemma view_run_status: "view d r = Some run \<Longrightarrow> run_status d r = Some (wr_status run)"
  using view_status [of d r run] by (auto simp: run_status_def)

lemma quiet_mono: "quiet d t \<Longrightarrow> t \<le> t' \<Longrightarrow> quiet d t'"
  by (fastforce simp: quiet_def due_def split: option.splits)

lemma quiet_due:
  assumes "quiet d t"
  shows "s \<in> set (db_steps d) \<Longrightarrow> due (sr_next_attempt_at s) t"
    and "due (map_option th_blocked_until (throttle_of d k)) t"
    and "due (map_option le_expires_at (lease_of d r)) t"
proof -
  show "s \<in> set (db_steps d) \<Longrightarrow> due (sr_next_attempt_at s) t" using assms by (simp add: quiet_def)
  show "due (map_option th_blocked_until (throttle_of d k)) t"
    using assms find_Some_set [of _ "db_throttles d"]
    by (auto simp: quiet_def due_def throttle_of_def split: option.split)
  show "due (map_option le_expires_at (lease_of d r)) t"
    using assms lease_of_Some [of d r] by (auto simp: quiet_def due_def split: option.split)
qed

text \<open>In a quiet database every running run has a claimable step.\<close>

lemma quiet_eligible:
  assumes ok: "db_ok d" and v: "view d r = Some run" and "wr_status run = RUNNING" and "quiet d now"
  shows "select_runnable d now True \<noteq> None"
proof -
  from running_has_ready_step [OF db_ok_view(2) [OF ok v] assms(3) db_ok_view(3) [OF ok v]]
  obtain s where s: "s \<in> set (wr_steps run)" "runnable_status (st_status s)"
    "set (st_depends_on s) \<subseteq> set (completed_ids (wr_steps run))" .
  then obtain row where row: "row \<in> set (db_steps d)" "sr_run_id row = r"
    "s = step_from_row row (dependencies d r)"
    by (auto simp: wr_steps_view [OF v] set_run_step_rows)
  have "eligible d now True row"
    using eligible_iff [OF ok v row(1,2)] s row assms(3) quiet_due [OF assms(4)] by simp
  then show ?thesis using row(1) by (auto simp: select_runnable_None)
qed

section \<open>Counting updates of one row\<close>

lemma count_update_where:
  assumes "\<And>x. p x \<Longrightarrow> p (h x)"
  shows "length (filter P (update_where p h xs)) =
    length (filter (\<lambda>x. P x \<and> \<not> p x) xs) + length (filter (\<lambda>x. P (h x)) (filter p xs))"
  using assms by (induction xs) auto

lemma count_split: "length (filter P xs) =
    length (filter (\<lambda>x. P x \<and> \<not> p x) xs) + length (filter P (filter p xs))"
  by (induction xs) auto

lemma row_unique:
  assumes "db_ok d" and "get_step_row d r i = Inr row"
  shows "filter (\<lambda>s. sr_run_id s = r \<and> sr_id s = i) (db_steps d) = [row]"
proof -
  let ?p = "\<lambda>s. sr_run_id s = r \<and> sr_id s = i"
  have row: "row \<in> set (db_steps d)" "sr_run_id row = r" "sr_id row = i"
    using get_step_row_Inr [OF assms(2)] by auto
  have "r \<in> run_ids d" using db_okD(2) [OF assms(1)] row by blast
  then obtain run where v: "view d r = Some run" using db_okD(1) [OF assms(1)] by (auto simp: consistent_def)
  have "map st_id (wr_steps run) = map sr_id (run_step_rows d r)"
    by (simp add: wr_steps_view [OF v] comp_def)
  then have "distinct (map sr_id (run_step_rows d r))"
    using db_ok_view(2) [OF assms(1) v] by (simp add: wf_run_def step_ids_def)
  then have "distinct (map sr_id (filter (\<lambda>s. sr_run_id s = r) (db_steps d)))"
    by (simp add: run_step_rows_def distinct_map)
  from filter_distinct_key [OF this, of row] row
  have "filter (\<lambda>s. sr_id s = i) (filter (\<lambda>s. sr_run_id s = r) (db_steps d)) = [row]" by simp
  then show ?thesis by (simp add: conj_commute)
qed

section \<open>One healthy attempt\<close>

definition new_lease :: "string \<Rightarrow> timestamp \<Rightarrow> timestamp \<Rightarrow> db \<Rightarrow> step_row \<Rightarrow> workflow_run_lease" where
  "new_lease worker now expires d row = \<lparr>le_run_id = sr_run_id row, le_owner_id = worker,
     le_fence_token = next_fence d (sr_run_id row), le_expires_at = expires, le_updated_at = now\<rparr>"

definition attempted :: "timestamp \<Rightarrow> step_row \<Rightarrow> step_row \<Rightarrow> step_row" where
  "attempted now row s = s\<lparr>sr_status := STEP_INTENT_RECORDED, sr_attempts := sr_attempts row + 1,
     sr_next_attempt_at := None, sr_last_error := None, sr_updated_at := now\<rparr>"

definition completed :: "timestamp \<Rightarrow> json \<Rightarrow> step_row \<Rightarrow> step_row" where
  "completed now out s = s\<lparr>sr_status := STEP_COMPLETED, sr_output := Some out, sr_next_attempt_at := None,
     sr_last_error := None, sr_completed_at := Some now, sr_updated_at := now\<rparr>"

lemma row_changes [simp]:
  "sr_run_id (attempted now row s) = sr_run_id s" "sr_id (attempted now row s) = sr_id s"
  "sr_status (attempted now row s) = STEP_INTENT_RECORDED" "sr_next_attempt_at (attempted now row s) = None"
  "sr_run_id (completed now out s) = sr_run_id s" "sr_id (completed now out s) = sr_id s"
  "sr_status (completed now out s) = STEP_COMPLETED" "sr_next_attempt_at (completed now out s) = None"
  by (simp_all add: attempted_def completed_def)

lemma healthy_claim:
  assumes "select_runnable d now True = Some row" and "deadline now (es_lease_ttl cfg) = Inr expires"
    and "l = new_lease worker now expires d row"
  shows "claim_phase cfg worker now d =
    (Claimed \<lparr>cl_step = step_from_row row (dependencies d (sr_run_id row)), cl_lease = l\<rparr>, upsert_lease l d)"
proof -
  have "claim_body worker (expires - now) now d =
      Inr (Some \<lparr>cl_step = step_from_row row (dependencies d (sr_run_id row)), cl_lease = l\<rparr>, upsert_lease l d)"
    using assms(1,3) by (simp add: claim_body_def Let_def new_lease_def dependencies_def [abs_def])
  then show ?thesis
    using assms(2) by (simp add: claim_phase_def claim_runnable_step_def transaction_def)
qed

lemma own_lease_accepted:
  assumes "l \<in> set (db_leases d)" and "ck < le_expires_at l" and "le_run_id l = r"
  shows "require_lease d r ck (Some (le_owner_id l)) (Some (le_fence_token l)) = Inr ()"
  using assms by (auto simp: require_lease_Inr lease_match_def)

lemma upsert_mem: "l \<in> set (db_leases (upsert_lease l d))"
  using lease_of_upsert [of l d "le_run_id l"] lease_of_Some [of "upsert_lease l d" "le_run_id l" l] by simp

lemma upsert_other [simp]:
  "get_step_row (upsert_lease l d) r i = get_step_row d r i"
  "blocked (upsert_lease l d) r i = blocked d r i"
  "dependencies (upsert_lease l d) r = dependencies d r"
  by (simp_all add: get_step_row_def blocked_def dependencies_def [abs_def])

lemma healthy_attempt:
  assumes row: "get_step_row d r i = Inr row" "runnable_status (sr_status row)" "\<not> blocked d r i"
    and l: "l \<in> set (db_leases d)" "ck < le_expires_at l" "le_run_id l = r"
    and c: "cl_lease c = l" "st_run_id (cl_step c) = r" "st_id (cl_step c) = i" and crash: "es_crash_at cfg = None"
  obtains e where "attempt_phase cfg now ck c d =
      (Requesting (step_from_row (attempted now row row) (dependencies d r)) l,
       update_step r i (attempted now row) (d\<lparr>db_events := db_events d @ [e]\<rparr>))"
    and "record_attempt_body now ck r i (Some (le_owner_id l)) (Some (le_fence_token l)) d =
      Inr (step_from_row (attempted now row row) (dependencies d r),
       update_step r i (attempted now row) (d\<lparr>db_events := db_events d @ [e]\<rparr>))"
proof -
  obtain e where e: "record_attempt_body now ck r i (Some (le_owner_id l)) (Some (le_fence_token l)) d =
      (let f = (\<lambda>s. s\<lparr>sr_status := STEP_INTENT_RECORDED, sr_attempts := sr_attempts row + 1,
              sr_next_attempt_at := None, sr_last_error := None, sr_updated_at := now\<rparr>)
       in Inr (step_from_row (f row) (dependencies d r),
          update_step r i f (d\<lparr>db_events := db_events d @ [e]\<rparr>)))"
    by (rule attempt_success [OF row(1) own_lease_accepted [OF l] row(2,3)])
  then have body: "record_attempt_body now ck r i (Some (le_owner_id l)) (Some (le_fence_token l)) d =
      Inr (step_from_row (attempted now row row) (dependencies d r),
       update_step r i (attempted now row) (d\<lparr>db_events := db_events d @ [e]\<rparr>))"
    by (simp add: attempted_def [abs_def])
  moreover from body have "attempt_phase cfg now ck c d =
      (Requesting (step_from_row (attempted now row row) (dependencies d r)) l,
       update_step r i (attempted now row) (d\<lparr>db_events := db_events d @ [e]\<rparr>))"
    using c crash by (simp add: attempt_phase_def record_attempt_def transaction_def crash_requested_def)
  ultimately show thesis by (intro that)
qed

lemma healthy_commit:
  assumes row: "get_step_row d r i = Inr row" "sr_status row = STEP_INTENT_RECORDED"
    and l: "l \<in> set (db_leases d)" "cc_lease t < le_expires_at l" "le_run_id l = r"
    and s: "st_run_id s = r" "st_id s = i" and crash: "es_crash_at cfg = None"
  obtains e es d2 where "d2 = update_step r i (completed (cc_now t) (result_payload res)) (d\<lparr>db_events := db_events d @ [e]\<rparr>)"
    and "complete_step_body (cc_now t) (cc_lease t) r i (result_payload res) (Some (le_owner_id l))
      (Some (le_fence_token l)) d = Inr ((), if remaining_steps d2 r = 0
        then update_run r (\<lambda>w. w\<lparr>rr_status := COMPLETED, rr_completed_at := Some (cc_now t), rr_updated_at := cc_now t\<rparr>)
               (d2\<lparr>db_events := db_events d2 @ es\<rparr>)
        else d2)"
    and "commit_phase cfg t s l (ToolAnswer res) d = (Releasing l (Inr (did_step s)),
      if remaining_steps d2 r = 0
        then update_run r (\<lambda>w. w\<lparr>rr_status := COMPLETED, rr_completed_at := Some (cc_now t), rr_updated_at := cc_now t\<rparr>)
               (d2\<lparr>db_events := db_events d2 @ es\<rparr>)
        else d2)"
proof -
  obtain e es where body: "complete_step_body (cc_now t) (cc_lease t) r i (result_payload res) (Some (le_owner_id l))
      (Some (le_fence_token l)) d =
    (let d2 = update_step r i (\<lambda>s. s\<lparr>sr_status := STEP_COMPLETED, sr_output := Some (result_payload res),
              sr_next_attempt_at := None, sr_last_error := None, sr_completed_at := Some (cc_now t),
              sr_updated_at := cc_now t\<rparr>) (d\<lparr>db_events := db_events d @ [e]\<rparr>)
     in Inr ((), if remaining_steps d2 r = 0
          then update_run r (\<lambda>w. w\<lparr>rr_status := COMPLETED, rr_completed_at := Some (cc_now t), rr_updated_at := cc_now t\<rparr>)
                 (d2\<lparr>db_events := db_events d2 @ es\<rparr>)
          else d2))"
    by (rule complete_success [OF row(1) own_lease_accepted [OF l] row(2)])
  define d2 where "d2 = update_step r i (completed (cc_now t) (result_payload res)) (d\<lparr>db_events := db_events d @ [e]\<rparr>)"
  have b: "complete_step_body (cc_now t) (cc_lease t) r i (result_payload res) (Some (le_owner_id l))
      (Some (le_fence_token l)) d = Inr ((), if remaining_steps d2 r = 0
        then update_run r (\<lambda>w. w\<lparr>rr_status := COMPLETED, rr_completed_at := Some (cc_now t), rr_updated_at := cc_now t\<rparr>)
               (d2\<lparr>db_events := db_events d2 @ es\<rparr>)
        else d2)"
    using body by (simp add: d2_def completed_def [abs_def] Let_def)
  then show thesis
    using s crash
    by (intro that [OF d2_def b])
      (simp add: commit_answer_def complete_step_def transaction_def crash_requested_def)
qed

text \<open>How the count changes when one open row of a running run is rewritten.\<close>

lemma open_update:
  assumes "db_ok d" and "get_step_row d r i = Inr row" and "sr_status row \<noteq> STEP_COMPLETED" and "run_is_running d r"
    and keep: "\<And>x. sr_run_id (h x) = sr_run_id x" "\<And>x. sr_id (h x) = sr_id x"
    and "\<And>q. run_is_running d' q = run_is_running d q"
    and steps: "db_steps d' = update_where (\<lambda>s. sr_run_id s = r \<and> sr_id s = i) h (db_steps d)"
  shows "open_steps d' + (if sr_status (h row) = STEP_COMPLETED then 1 else 0) = open_steps d"
proof -
  let ?p = "\<lambda>s. sr_run_id s = r \<and> sr_id s = i"
  let ?P = "\<lambda>s. sr_status s \<noteq> STEP_COMPLETED \<and> run_is_running d (sr_run_id s)"
  note one = row_unique [OF assms(1,2)]
  have "sr_run_id row = r" using get_step_row_Inr [OF assms(2)] by simp
  then have P: "?P row" "?P (h row) \<longleftrightarrow> sr_status (h row) \<noteq> STEP_COMPLETED"
    using assms(3,4) keep by auto
  have "open_steps d' = length (filter (\<lambda>s. ?P s \<and> \<not> ?p s) (db_steps d)) + (if ?P (h row) then 1 else 0)"
    unfolding open_steps_def steps assms(7) using count_update_where [of ?p h ?P "db_steps d"] keep one by simp
  moreover have "open_steps d = length (filter (\<lambda>s. ?P s \<and> \<not> ?p s) (db_steps d)) + 1"
    unfolding open_steps_def using count_split [of ?P "db_steps d" ?p] one P(1) by simp
  ultimately show ?thesis using P(2) by simp
qed

lemma run_status_same [simp]:
  "run_status (update_step r i f d) q = run_status d q" "run_status (d\<lparr>db_events := es\<rparr>) q = run_status d q"
  "run_status (d\<lparr>db_leases := ls\<rparr>) q = run_status d q" "run_status (upsert_lease l d) q = run_status d q"
  by (simp_all add: run_status_def run_row_of_def update_step_def)

lemma run_status_update:
  assumes "\<And>w. rr_run_id (f w) = rr_run_id w" and "\<And>w. rr_status (f w) = st"
  shows "run_status (update_run r f d) q = (if q = r then map_option (\<lambda>_. st) (run_status d q) else run_status d q)"
proof (cases "q = r")
  case True
  then show ?thesis using run_row_of_update [of f r d] assms by (auto simp: run_status_def option.map_comp comp_def)
next
  case False
  have "find (\<lambda>w. rr_run_id w = q) (update_where (\<lambda>w. rr_run_id w = r) f ws) = find (\<lambda>w. rr_run_id w = q) ws" for ws
    using False assms(1) by (induction ws) auto
  with False show ?thesis by (simp add: run_status_def run_row_of_def update_run_def)
qed

text \<open>Completing the last step of a run closes no further rows.\<close>

lemma open_close_run:
  assumes "remaining_steps d r = 0" and "db_steps d' = db_steps d"
    and "\<And>q. q \<noteq> r \<Longrightarrow> run_is_running d' q = run_is_running d q"
  shows "open_steps d' = open_steps d"
proof -
  have "s \<in> set (db_steps d) \<Longrightarrow> sr_run_id s = r \<Longrightarrow> sr_status s = STEP_COMPLETED" for s
    using assms(1) by (auto simp: remaining_steps_def filter_empty_conv)
  then have "filter (\<lambda>s. sr_status s \<noteq> STEP_COMPLETED \<and> run_is_running d' (sr_run_id s)) (db_steps d) =
      filter (\<lambda>s. sr_status s \<noteq> STEP_COMPLETED \<and> run_is_running d (sr_run_id s)) (db_steps d)"
    using assms(3) by (intro filter_cong) auto
  then show ?thesis by (simp add: open_steps_def assms(2))
qed

lemma quiet_release:
  assumes "quiet d t" and "t \<le> now" and "distinct (map le_run_id (db_leases d'))"
    and leases: "db_leases d' = db_leases (upsert_lease l d)" and th: "db_throttles d' = db_throttles d"
    and steps: "\<And>s. s \<in> set (db_steps d') \<Longrightarrow> s \<in> set (db_steps d) \<or> sr_next_attempt_at s = None"
  shows "quiet (snd (release_lease now (le_run_id l) (le_owner_id l) (le_fence_token l) d')) now"
proof -
  let ?d = "snd (release_lease now (le_run_id l) (le_owner_id l) (le_fence_token l) d')"
  have tables: "db_steps ?d = db_steps d'" "db_throttles ?d = db_throttles d'"
    "db_leases ?d = update_where (lease_match (le_run_id l) (le_owner_id l) (le_fence_token l))
      (\<lambda>l. l\<lparr>le_expires_at := now, le_updated_at := now\<rparr>) (db_leases d')"
    by (simp_all add: release_lease_def transaction_def Let_def)
  have "le_expires_at m \<le> now" if m: "m \<in> set (db_leases d')"
      "\<not> lease_match (le_run_id l) (le_owner_id l) (le_fence_token l) m" for m
  proof -
    have "m \<noteq> l" using m(2) by (auto simp: lease_match_def)
    moreover have "l \<in> set (db_leases d')" unfolding leases by (rule upsert_mem)
    ultimately have "le_run_id m \<noteq> le_run_id l"
      using m(1) assms(3) by (meson distinct_map inj_onD)
    then have "m \<in> set (db_leases d)"
      using m(1) \<open>m \<noteq> l\<close> unfolding leases upsert_lease_def by (auto simp: set_update_where split: if_splits)
    with assms(1,2) show ?thesis by (fastforce simp: quiet_def)
  qed
  then have "\<forall>m \<in> set (db_leases ?d). le_expires_at m \<le> now" by (auto simp: tables(3) set_update_where)
  moreover have "\<forall>x \<in> set (db_throttles ?d). th_blocked_until x \<le> now"
    using assms(1,2) by (fastforce simp: quiet_def tables(2) th)
  moreover have "due (sr_next_attempt_at s) now" if "s \<in> set (db_steps ?d)" for s
    using quiet_mono [OF assms(1,2)] steps [of s] that by (auto simp: quiet_def tables(1) due_def)
  ultimately show ?thesis by (simp add: quiet_def)
qed

section \<open>A healthy worker finishes\<close>

definition healthy_tick :: "engine_settings \<Rightarrow> timestamp \<Rightarrow> tick \<Rightarrow> bool" where
  "healthy_tick cfg t x \<longleftrightarrow> t \<le> rc_claim (fst x) \<and> rc_claim (fst x) \<le> rc_release (fst x) \<and>
     (\<exists>expires. deadline (rc_claim (fst x)) (es_lease_ttl cfg) = Inr expires \<and>
        rc_attempt_lease (fst x) < expires \<and> cc_lease (rc_commit (fst x)) < expires) \<and>
     (\<forall>s. \<exists>res. snd x s = ToolAnswer res)"

fun healthy_ticks :: "engine_settings \<Rightarrow> timestamp \<Rightarrow> tick list \<Rightarrow> bool" where
  "healthy_ticks cfg t [] \<longleftrightarrow> True"
| "healthy_ticks cfg t (x # xs) \<longleftrightarrow> healthy_tick cfg t x \<and> healthy_ticks cfg (rc_release (fst x)) xs"

text \<open>The databases a healthy tick passes through, from the claim of a row to the release.\<close>

definition requested_db :: "run_clock \<Rightarrow> step_row \<Rightarrow> workflow_run_lease \<Rightarrow> workflow_run_event \<Rightarrow> db \<Rightarrow> db" where
  "requested_db t row l e d = update_step (sr_run_id row) (sr_id row) (attempted (rc_attempt t) row)
     ((upsert_lease l d)\<lparr>db_events := db_events d @ [e]\<rparr>)"

definition answered_db :: "run_clock \<Rightarrow> step_row \<Rightarrow> tool_result \<Rightarrow> workflow_run_event \<Rightarrow> db \<Rightarrow> db" where
  "answered_db t row res e d = update_step (sr_run_id row) (sr_id row)
     (completed (cc_now (rc_commit t)) (result_payload res)) (d\<lparr>db_events := db_events d @ [e]\<rparr>)"

definition closed_db :: "run_clock \<Rightarrow> step_row \<Rightarrow> workflow_run_event list \<Rightarrow> db \<Rightarrow> db" where
  "closed_db t row es d = (if remaining_steps d (sr_run_id row) = 0
     then update_run (sr_run_id row) (\<lambda>w. w\<lparr>rr_status := COMPLETED, rr_completed_at := Some (cc_now (rc_commit t)),
            rr_updated_at := cc_now (rc_commit t)\<rparr>) (d\<lparr>db_events := db_events d @ es\<rparr>)
     else d)"

definition freed_db :: "timestamp \<Rightarrow> workflow_run_lease \<Rightarrow> db \<Rightarrow> db" where
  "freed_db now l d = snd (release_lease now (le_run_id l) (le_owner_id l) (le_fence_token l) d)"

definition finished_row :: "run_clock \<Rightarrow> step_row \<Rightarrow> tool_result \<Rightarrow> step_row \<Rightarrow> step_row" where
  "finished_row t row res s =
     completed (cc_now (rc_commit t)) (result_payload res) (attempted (rc_attempt t) row s)"

lemma finished_row_simps [simp]:
  "sr_run_id (finished_row t row res s) = sr_run_id s" "sr_id (finished_row t row res s) = sr_id s"
  "sr_status (finished_row t row res s) = STEP_COMPLETED" "sr_next_attempt_at (finished_row t row res s) = None"
  "sr_position (finished_row t row res s) = sr_position s"
  "sr_attempts (finished_row t row res s) = sr_attempts row + 1"
  by (simp_all add: finished_row_def) (simp_all add: completed_def attempted_def)

lemma remaining_steps_cong: "db_steps d' = db_steps d \<Longrightarrow> remaining_steps d' r = remaining_steps d r"
  by (simp add: remaining_steps_def)

lemma path_tables:
  "db_steps (requested_db t row l e d) =
     update_where (\<lambda>s. sr_run_id s = sr_run_id row \<and> sr_id s = sr_id row) (attempted (rc_attempt t) row) (db_steps d)"
  "db_leases (requested_db t row l e d) = db_leases (upsert_lease l d)"
  "db_throttles (requested_db t row l e d) = db_throttles d"
  "run_status (requested_db t row l e d) q = run_status d q"
  "db_steps (answered_db t row res e' d) = update_where (\<lambda>s. sr_run_id s = sr_run_id row \<and> sr_id s = sr_id row)
     (completed (cc_now (rc_commit t)) (result_payload res)) (db_steps d)"
  "db_leases (answered_db t row res e' d) = db_leases d" "db_throttles (answered_db t row res e' d) = db_throttles d"
  "run_status (answered_db t row res e' d) q = run_status d q"
  "db_steps (closed_db t row es d) = db_steps d" "db_leases (closed_db t row es d) = db_leases d"
  "db_throttles (closed_db t row es d) = db_throttles d"
  "db_steps (freed_db now l d) = db_steps d" "db_throttles (freed_db now l d) = db_throttles d"
  "run_status (freed_db now l d) q = run_status d q" "db_events (freed_db now l d) = db_events d"
  by (simp_all add: requested_db_def answered_db_def closed_db_def freed_db_def release_lease_def transaction_def
      Let_def update_step_def run_status_def run_row_of_def)

lemma finished_rows: "db_steps (answered_db t row res e' (requested_db t row l e d)) =
    update_where (\<lambda>s. sr_run_id s = sr_run_id row \<and> sr_id s = sr_id row) (finished_row t row res) (db_steps d)"
proof -
  have "update_where p g (update_where p f xs) = update_where p (g \<circ> f) xs" if "\<And>x. p (f x) = p x"
    for p and f g :: "step_row \<Rightarrow> step_row" and xs
    using that by (induction xs) auto
  then show ?thesis by (simp add: path_tables) (simp add: finished_row_def [abs_def] comp_def)
qed

lemma run_status_closed: "run_status (closed_db t row es d) q =
    (if q = sr_run_id row \<and> remaining_steps d q = 0 then map_option (\<lambda>_. COMPLETED) (run_status d q) else run_status d q)"
  by (auto simp: closed_db_def run_status_update)

lemma selected_row:
  assumes ok: "db_ok d" and sel: "select_runnable d now True = Some row"
  shows "get_step_row d (sr_run_id row) (sr_id row) = Inr row" and "runnable_status (sr_status row)"
    and "\<not> blocked d (sr_run_id row) (sr_id row)" and "run_is_running d (sr_run_id row)"
proof -
  note mem = select_runnable_Some [OF sel]
  show elig: "runnable_status (sr_status row)" "\<not> blocked d (sr_run_id row) (sr_id row)"
    "run_is_running d (sr_run_id row)"
    using mem(2) by (simp_all add: eligible_def run_is_running_def)
  from run_is_running_view [OF elig(3)] obtain run where v: "view d (sr_run_id row) = Some run" by blast
  show "get_step_row d (sr_run_id row) (sr_id row) = Inr row"
    by (rule get_step_row_mem [OF v db_ok_view(2) [OF ok v] mem(1) refl])
qed

text \<open>A healthy tick up to the request, and from the answer to its commit.\<close>

lemma request_path:
  assumes ok: "db_ok d" and sel: "select_runnable d (rc_claim t) True = Some row"
    and ex: "deadline (rc_claim t) (es_lease_ttl cfg) = Inr expires" "rc_attempt_lease t < expires"
    and crash: "es_crash_at cfg = None" and l: "l = new_lease worker (rc_claim t) expires d row"
    and c: "c = \<lparr>cl_step = step_from_row row (dependencies d (sr_run_id row)), cl_lease = l\<rparr>"
    and s: "s = step_from_row (attempted (rc_attempt t) row row) (dependencies d (sr_run_id row))"
  obtains e where "claim_phase cfg worker (rc_claim t) d = (Claimed c, upsert_lease l d)"
    and "attempt_phase cfg (rc_attempt t) (rc_attempt_lease t) c (upsert_lease l d) =
      (Requesting s l, requested_db t row l e d)"
    and "db_ok (requested_db t row l e d)" and "log_grows d (requested_db t row l e d)"
proof -
  let ?r = "sr_run_id row" and ?i = "sr_id row" and ?d1 = "upsert_lease l d"
  note row = selected_row [OF ok sel]
  have l': "le_run_id l = ?r" "le_expires_at l = expires" by (simp_all add: l new_lease_def)
  have claim: "claim_phase cfg worker (rc_claim t) d = (Claimed c, ?d1)"
    unfolding c by (rule healthy_claim [OF sel ex(1) l])
  have "claim_body worker (expires - rc_claim t) (rc_claim t) d = Inr (Some c, ?d1)"
    using sel by (simp add: claim_body_def Let_def l c new_lease_def dependencies_def [abs_def])
  then have ok1: "db_ok ?d1" using claim_ok [OF ok] by blast
  have running1: "run_is_running ?d1 ?r" using row(4) by (simp add: run_is_running_status)
  obtain e where att: "attempt_phase cfg (rc_attempt t) (rc_attempt_lease t) c ?d1 =
      (Requesting s l, requested_db t row l e d)"
    and body: "record_attempt_body (rc_attempt t) (rc_attempt_lease t) ?r ?i (Some (le_owner_id l))
        (Some (le_fence_token l)) ?d1 = Inr (s, requested_db t row l e d)"
    by (rule healthy_attempt [where d = ?d1 and r = ?r and i = ?i and row = row and l = l and c = c and cfg = cfg
        and ck = "rc_attempt_lease t" and now = "rc_attempt t"])
      (use ex l' crash row in \<open>simp_all add: requested_db_def upsert_mem c s\<close>)
  note w = write_attempt [OF body]
  from worker_write_ok [OF w ok1 running1] have ok2: "db_ok (requested_db t row l e d)" by blast
  have "log_grows d (requested_db t row l e d)"
    using worker_write_facts(3) [OF w] by (simp add: log_grows_def)
  then show thesis by (rule that [OF claim att ok2])
qed

lemma answer_path:
  assumes ok: "db_ok d2" and d2: "d2 = requested_db t row l e d" and row: "get_step_row d (sr_run_id row) (sr_id row) = Inr row"
    and running: "run_is_running d (sr_run_id row)" and l: "le_run_id l = sr_run_id row"
    and crash: "es_crash_at cfg = None" and ex: "cc_lease (rc_commit t) < le_expires_at l"
    and s: "st_run_id s = sr_run_id row" "st_id s = sr_id row"
  obtains e' es d3 where "d3 = closed_db t row es (answered_db t row res e' d2)"
    and "commit_phase cfg (rc_commit t) s l (ToolAnswer res) d2 = (Releasing l (Inr (did_step s)), d3)"
    and "db_ok d3" and "log_grows d2 d3"
proof -
  let ?r = "sr_run_id row" and ?i = "sr_id row"
  have row2: "get_step_row d2 ?r ?i = Inr (attempted (rc_attempt t) row row)"
    unfolding d2 requested_db_def by (rule get_step_row_update) (use row in simp_all)
  obtain e' es where body: "complete_step_body (cc_now (rc_commit t)) (cc_lease (rc_commit t)) ?r ?i (result_payload res)
      (Some (le_owner_id l)) (Some (le_fence_token l)) d2 = Inr ((), closed_db t row es (answered_db t row res e' d2))"
    and commit: "commit_phase cfg (rc_commit t) s l (ToolAnswer res) d2 =
      (Releasing l (Inr (did_step s)), closed_db t row es (answered_db t row res e' d2))"
    by (rule healthy_commit [OF row2 _ _ _ l, of "rc_commit t" s cfg res])
      (use ex s crash in \<open>auto simp: d2 path_tables upsert_mem closed_db_def answered_db_def\<close>)
  note w = write_complete [OF body]
  have "run_is_running d2 ?r" using running by (simp add: run_is_running_status d2 path_tables)
  from worker_write_ok [OF w ok this] have "db_ok (closed_db t row es (answered_db t row res e' d2))" by blast
  from that [OF refl commit this worker_write_facts(3) [OF w]] show thesis .
qed

text \<open>One healthy tick, end to end.\<close>

lemma run_once_path:
  assumes ok: "db_ok d" and q: "quiet d T" and tick: "healthy_tick cfg T (t, gateway)"
    and crash: "es_crash_at cfg = None" and v: "view d q = Some run" "wr_status run = RUNNING"
  obtains row l e e' es res d2 d3 where "select_runnable d (rc_claim t) True = Some row"
    and "d2 = requested_db t row l e d" and "d3 = closed_db t row es (answered_db t row res e' d2)"
    and "db_ok d3" and "log_grows d d3"
    and "run_once cfg worker t gateway d = (Finished (Inr (did_step
      (step_from_row (attempted (rc_attempt t) row row) (dependencies d (sr_run_id row))))), freed_db (rc_release t) l d3)"
proof -
  from tick obtain expires where T: "T \<le> rc_claim t"
    and ex: "deadline (rc_claim t) (es_lease_ttl cfg) = Inr expires" "rc_attempt_lease t < expires"
      "cc_lease (rc_commit t) < expires" and answers: "\<And>s. \<exists>res. gateway s = ToolAnswer res"
    by (auto simp: healthy_tick_def)
  obtain row where sel: "select_runnable d (rc_claim t) True = Some row"
    using quiet_eligible [OF ok v quiet_mono [OF q T]] by blast
  note row = selected_row [OF ok sel]
  define l where "l = new_lease worker (rc_claim t) expires d row"
  define s where "s = step_from_row (attempted (rc_attempt t) row row) (dependencies d (sr_run_id row))"
  have l: "le_run_id l = sr_run_id row" "cc_lease (rc_commit t) < le_expires_at l"
    using ex(3) by (simp_all add: l_def new_lease_def)
  have s: "st_run_id s = sr_run_id row" "st_id s = sr_id row" by (simp_all add: s_def)
  obtain e where claim: "claim_phase cfg worker (rc_claim t) d =
      (Claimed \<lparr>cl_step = step_from_row row (dependencies d (sr_run_id row)), cl_lease = l\<rparr>, upsert_lease l d)"
    and att: "attempt_phase cfg (rc_attempt t) (rc_attempt_lease t)
        \<lparr>cl_step = step_from_row row (dependencies d (sr_run_id row)), cl_lease = l\<rparr> (upsert_lease l d) =
      (Requesting s l, requested_db t row l e d)"
    and ok2: "db_ok (requested_db t row l e d)" "log_grows d (requested_db t row l e d)"
    by (rule request_path [OF ok sel ex(1,2) crash l_def refl s_def])
  obtain res where res: "gateway s = ToolAnswer res" using answers by blast
  obtain e' es d3 where d3: "d3 = closed_db t row es (answered_db t row res e' (requested_db t row l e d))"
    "commit_phase cfg (rc_commit t) s l (ToolAnswer res) (requested_db t row l e d) = (Releasing l (Inr (did_step s)), d3)"
    "db_ok d3" "log_grows (requested_db t row l e d) d3"
    by (rule answer_path [OF ok2(1) refl row(1,4) l(1) crash l(2) s])
  have "run_once cfg worker t gateway d = (Finished (Inr (did_step s)), freed_db (rc_release t) l d3)"
    using claim att res d3(2) by (simp add: run_once_def finish_phase_def release_phase_def freed_db_def)
  moreover have "log_grows d d3" using ok2(2) d3(4) by (auto simp: log_grows_def)
  ultimately show thesis using s_def by (intro that [OF sel refl d3(1,3)]) simp_all
qed

lemma run_once_healthy:
  assumes ok: "db_ok d" and q: "quiet d T" and tick: "healthy_tick cfg T (t, gateway)"
    and crash: "es_crash_at cfg = None" and v: "view d q = Some run" "wr_status run = RUNNING"
  obtains s d' row res where "run_once cfg worker t gateway d = (Finished (Inr (did_step s)), d')"
    and "db_ok d'" and "quiet d' (rc_release t)" and "Suc (open_steps d') = open_steps d" and "only_completes d d'"
    and "log_grows d d'" and "select_runnable d (rc_claim t) True = Some row"
    and "db_steps d' = update_where (\<lambda>s. sr_run_id s = sr_run_id row \<and> sr_id s = sr_id row) (finished_row t row res) (db_steps d)"
    and "\<And>r. run_status d' r = (if r = sr_run_id row \<and> remaining_steps d' r = 0 then Some COMPLETED else run_status d r)"
proof -
  from tick have T: "T \<le> rc_claim t" "rc_claim t \<le> rc_release t" by (auto simp: healthy_tick_def)
  obtain row l e e' es res d2 d3 where sel: "select_runnable d (rc_claim t) True = Some row"
    and d2: "d2 = requested_db t row l e d"
    and d3: "d3 = closed_db t row es (answered_db t row res e' d2)" "db_ok d3" "log_grows d d3"
    and run: "run_once cfg worker t gateway d = (Finished (Inr (did_step
      (step_from_row (attempted (rc_attempt t) row row) (dependencies d (sr_run_id row))))), freed_db (rc_release t) l d3)"
    by (rule run_once_path [OF assms])
  let ?p = "\<lambda>s. sr_run_id s = sr_run_id row \<and> sr_id s = sr_id row"
  define a where "a = answered_db t row res e' d2"
  define d' where "d' = freed_db (rc_release t) l d3"
  have elig: "runnable_status (sr_status row)" "run_status d (sr_run_id row) = Some RUNNING"
    using select_runnable_Some(2) [OF sel]
    by (simp_all add: eligible_def run_is_running_def run_is_running_status [symmetric])
  have steps: "db_steps a = update_where ?p (finished_row t row res) (db_steps d)" "db_steps d' = db_steps a"
    unfolding a_def d2 by (rule finished_rows) (simp add: d'_def d3(1) path_tables a_def d2)
  have status_a: "run_status a r = run_status d r" for r by (simp add: a_def d2 path_tables)
  have status: "run_status d' r = (if r = sr_run_id row \<and> remaining_steps d' r = 0 then Some COMPLETED else run_status d r)" for r
    using elig(2) remaining_steps_cong [OF steps(2), of r]
    by (simp add: d'_def d3(1) path_tables run_status_closed a_def [symmetric] status_a)
  have open_a: "Suc (open_steps a) = open_steps d"
    using open_update [OF ok selected_row(1) [OF ok sel], of "finished_row t row res" a] elig steps(1)
    by (auto simp: run_is_running_status status_a runnable_status_def)
  have "open_steps d' = open_steps a"
  proof (cases "remaining_steps a (sr_run_id row) = 0")
    case True
    then show ?thesis
      by (intro open_close_run [OF _ steps(2)]) (auto simp: run_is_running_status status status_a)
  next
    case False
    then have "run_status d' r = run_status a r" for r
      using status [of r] remaining_steps_cong [OF steps(2), of r] by (auto simp: status_a)
    then show ?thesis by (simp add: open_steps_def run_is_running_status steps(2))
  qed
  with open_a have open_d: "Suc (open_steps d') = open_steps d" by simp
  have quiet: "quiet d' (rc_release t)"
    unfolding d'_def freed_db_def
  proof (rule quiet_release [OF quiet_mono [OF q T(1)] T(2) db_okD(6) [OF d3(2)]])
    show "db_leases d3 = db_leases (upsert_lease l d)" "db_throttles d3 = db_throttles d"
      by (simp_all add: d3(1) d2 path_tables)
    show "x \<in> set (db_steps d) \<or> sr_next_attempt_at x = None" if "x \<in> set (db_steps d3)" for x
      using that steps(1) by (auto simp: d3(1) path_tables a_def [symmetric] set_update_where)
  qed
  have only: "only_completes d d'" using elig(2) by (auto simp: only_completes_def status)
  have "db_ok d'" unfolding d'_def freed_db_def by (rule release_lease_ok [OF d3(2)])
  moreover have "log_grows d d'" using d3(3) by (simp add: log_grows_def d'_def path_tables)
  ultimately show thesis
    using run steps by (intro that [OF _ _ quiet open_d only _ sel _ status]) (simp_all add: d'_def [symmetric])
qed

lemma healthy_ticks_complete:
  assumes "db_ok d" and "quiet d T" and "healthy_ticks cfg T ticks" and "es_crash_at cfg = None"
    and "get_workflow_run r d = Inr run" and "wr_status run \<noteq> FAILED" and "open_steps d < length ticks"
  shows "\<exists>d' run'. run_until_terminal cfg worker r ticks d = (ExitCode 0, d') \<and>
    get_workflow_run r d' = Inr run' \<and> wr_status run' = COMPLETED \<and> db_ok d' \<and> log_grows d d'"
  using assms
proof (induction ticks arbitrary: d T run)
  case Nil
  then show ?case by simp
next
  case (Cons x ticks)
  obtain t gateway where x: "x = (t, gateway)" by fastforce
  show ?case
  proof (cases "wr_status run = COMPLETED")
    case True
    with Cons.prems(1,5) x show ?thesis by simp
  next
    case False
    with Cons.prems(6) have running: "wr_status run = RUNNING" by (cases "wr_status run") simp_all
    have v: "view d r = Some run" using Cons.prems(5) by (simp add: get_workflow_run_view)
    obtain s d1 row res where once: "run_once cfg worker t gateway d = (Finished (Inr (did_step s)), d1)"
      and d1: "db_ok d1" "quiet d1 (rc_release t)" "Suc (open_steps d1) = open_steps d" "only_completes d d1"
        "log_grows d d1"
      by (rule run_once_healthy [OF Cons.prems(1,2) _ Cons.prems(4) v running, of t gateway worker])
        (use Cons.prems(3) x in auto)
    have "run_status d1 r \<noteq> None \<and> run_status d1 r \<noteq> Some FAILED"
      using d1(4) view_run_status [OF v] running
      unfolding only_completes_def by (metis option.distinct(1) option.inject workflow_run_status.distinct(3,5))
    moreover from this have "r \<in> run_ids d1"
      using run_row_of_None_ids [of d1 r] by (auto simp: run_status_def)
    moreover from this obtain run1 where v1: "view d1 r = Some run1"
      using db_okD(1) [OF d1(1)] by (auto simp: consistent_def)
    ultimately have "get_workflow_run r d1 = Inr run1" "wr_status run1 \<noteq> FAILED"
      using view_run_status [OF v1] by (auto simp: get_workflow_run_view)
    from Cons.IH [OF d1(1,2) _ Cons.prems(4) this] Cons.prems(3,7) d1(3) x
    obtain d' run' where "run_until_terminal cfg worker r ticks d1 = (ExitCode 0, d')"
      "get_workflow_run r d' = Inr run'" "wr_status run' = COMPLETED" "db_ok d'" "log_grows d1 d'" by auto
    with Cons.prems(5) running once x d1(5) show ?thesis by (auto simp: log_grows_def)
  qed
qed

text \<open>C25: a healthy worker finishes. Let the deadlines in the database have passed, let the tool
  answer, no crash be injected and no lease expire within an attempt. Then, for a run that
  has not failed, \<open>run_until_terminal\<close> returns 0 with the run completed, within one tick more
  than there are open steps in the database.\<close>

theorem healthy_worker_completes:
  assumes "db_ok d" and "quiet d T" and "healthy_ticks cfg T ticks" and "es_crash_at cfg = None"
    and "get_workflow_run r d = Inr run" and "wr_status run \<noteq> FAILED" and "open_steps d < length ticks"
  shows "\<exists>d' run'. run_until_terminal cfg worker r ticks d = (ExitCode 0, d') \<and>
    get_workflow_run r d' = Inr run' \<and> wr_status run' = COMPLETED"
  using healthy_ticks_complete [OF assms] by blast

end
