(* ===== verification/Heartbeat.thy ===== *)
theory Heartbeat
  imports Config Fencing
begin

text \<open>
  The parts of a worker process around its steps: \<open>LeaseHeartbeat\<close> of \<open>crashsafe/engine.py\<close>, the
  thread that renews the lease while a tool request is in flight, and \<open>build_worker\<close> of
  \<open>crashsafe/worker.py\<close>. A round of the loop is one return of \<open>stop.wait\<close> before the stop; in
  it the renewal either runs at some instant or raises, and before it other processes may
  have committed any storage operations.
\<close>

section \<open>The heartbeat\<close>

datatype round = Renewal timestamp "storage_op list" | RenewalRaises "storage_op list"

fun heartbeat_loop :: "workflow_run_lease \<Rightarrow> int \<Rightarrow> round list \<Rightarrow> db \<Rightarrow> db" where
  "heartbeat_loop l ttl [] d = d"
| "heartbeat_loop l ttl (RenewalRaises others # rounds) d = heartbeat_loop l ttl rounds (fold perform others d)"
| "heartbeat_loop l ttl (Renewal now others # rounds) d =
     (case heartbeat_round now l ttl (fold perform others d) of
        (renewed, d') \<Rightarrow> if renewed then heartbeat_loop l ttl rounds d' else d')"

text \<open>The deadline the rounds leave.\<close>

fun lease_deadline :: "timestamp \<Rightarrow> int \<Rightarrow> round list \<Rightarrow> timestamp" where
  "lease_deadline expires ttl [] = expires"
| "lease_deadline expires ttl (RenewalRaises others # rounds) = lease_deadline expires ttl rounds"
| "lease_deadline expires ttl (Renewal now others # rounds) = lease_deadline (now + ttl) ttl rounds"

text \<open>The others may claim any run at any instant before the deadline as it then is, and do
  whatever they like to runs and steps; the lease may be named by its holder only, and its run is
  not rebuilt.\<close>

fun foreign :: "workflow_run_lease \<Rightarrow> timestamp \<Rightarrow> storage_op \<Rightarrow> bool" where
  "foreign l expires (Claim owner ttl now) \<longleftrightarrow> now < expires"
| "foreign l expires (Renew now r owner fence ttl) \<longleftrightarrow>
     (r, owner, fence) \<noteq> (le_run_id l, le_owner_id l, le_fence_token l)"
| "foreign l expires (Release now r owner fence) \<longleftrightarrow>
     (r, owner, fence) \<noteq> (le_run_id l, le_owner_id l, le_fence_token l)"
| "foreign l expires (Rebuild r) \<longleftrightarrow> r \<noteq> le_run_id l"
| "foreign l expires _ \<longleftrightarrow> True"

text \<open>Each renewal, and each claim of the others, comes before the deadline it meets.\<close>

fun in_time :: "workflow_run_lease \<Rightarrow> timestamp \<Rightarrow> int \<Rightarrow> round list \<Rightarrow> bool" where
  "in_time l expires ttl [] \<longleftrightarrow> True"
| "in_time l expires ttl (RenewalRaises others # rounds) \<longleftrightarrow>
     list_all (foreign l expires) others \<and> in_time l expires ttl rounds"
| "in_time l expires ttl (Renewal now others # rounds) \<longleftrightarrow>
     list_all (foreign l expires) others \<and> now < expires \<and> in_time l (now + ttl) ttl rounds"

text \<open>The row of the lease, up to what a renewal changes.\<close>

definition holds_until :: "workflow_run_lease \<Rightarrow> timestamp \<Rightarrow> db \<Rightarrow> bool" where
  "holds_until l expires d \<longleftrightarrow> leases_ok d \<and> (\<exists>m. lease_of d (le_run_id l) = Some m \<and>
     le_owner_id m = le_owner_id l \<and> le_fence_token m = le_fence_token l \<and> le_expires_at m = expires)"

lemma holds_untilE:
  assumes "holds_until l expires d"
  obtains m where "leases_ok d" and "lease_of d (le_run_id l) = Some m" and "le_owner_id m = le_owner_id l"
    and "le_fence_token m = le_fence_token l" and "le_expires_at m = expires"
  using assms by (auto simp: holds_until_def)

text \<open>While the lease has not expired no claim takes its run.\<close>

lemma claim_elsewhere:
  assumes "holds_until l expires d" and "now < expires" and "claim_runnable_step worker ttl now d = (Inr (Some c), d')"
  shows "le_run_id (cl_lease c) \<noteq> le_run_id l" and "holds_until l expires d'"
proof -
  obtain m where m: "leases_ok d" "lease_of d (le_run_id l) = Some m" "le_owner_id m = le_owner_id l"
    "le_fence_token m = le_fence_token l" "le_expires_at m = expires" by (rule holds_untilE [OF assms(1)])
  obtain row where row: "select_runnable d now True = Some row" "le_run_id (cl_lease c) = sr_run_id row"
    and d': "d' = upsert_lease (cl_lease c) d" by (rule claim_Some [OF assms(3)])
  from select_runnable_Some(2) [OF row(1)] have "due (map_option le_expires_at (lease_of d (sr_run_id row))) now"
    by (simp add: eligible_def)
  with m(2,5) assms(2) row(2) show other: "le_run_id (cl_lease c) \<noteq> le_run_id l" by (auto simp: due_def)
  with m show "holds_until l expires d'"
    by (simp add: holds_until_def d' upsert_leases_ok lease_of_upsert)
qed

lemma holds_update_other:
  assumes "holds_until l expires d" and "\<And>x. le_run_id (f x) = le_run_id x" and "\<And>m. lease_of d (le_run_id l) = Some m \<Longrightarrow>
      le_owner_id m = le_owner_id l \<Longrightarrow> le_fence_token m = le_fence_token l \<Longrightarrow> \<not> p m"
  shows "holds_until l expires (d\<lparr>db_leases := update_where p f (db_leases d)\<rparr>)"
proof -
  obtain m where m: "leases_ok d" "lease_of d (le_run_id l) = Some m" "le_owner_id m = le_owner_id l"
    "le_fence_token m = le_fence_token l" "le_expires_at m = expires" by (rule holds_untilE [OF assms(1)])
  have "\<not> p m" by (rule assms(3) [OF m(2-4)])
  then have "find (\<lambda>x. le_run_id x = r) (update_where p f ls) = Some m" if "find (\<lambda>x. le_run_id x = r) ls = Some m" for r ls
    using that by (induction ls) (auto simp: update_where_def assms(2) split: if_splits)
  moreover have "map le_run_id (update_where p f ls) = map le_run_id ls" for ls
    by (simp add: update_where_def assms(2))
  ultimately show ?thesis using m by (simp add: holds_until_def lease_of_def leases_ok_def)
qed

lemma rebuild_leases:
  "db_leases (snd (rebuild_projection r d)) \<in> {db_leases d, filter (\<lambda>l. le_run_id l \<noteq> r) (db_leases d)}"
proof -
  have "db_leases d' = filter (\<lambda>l. le_run_id l \<noteq> r) (db_leases d)" if body: "rebuild_write_body r run p d = Inr ((), d')" for run p d'
  proof -
    from body obtain w steps deps d1 d2 where
      *: "insert_run w (delete_projection r d) = Inr d1" "insert_all insert_step steps d1 = Inr d2"
        "insert_all insert_dependency deps d2 = Inr d'"
      by (auto simp: rebuild_write_body_def rbind_Inr_iff)
    show ?thesis
      using insert_leases(1) [OF *(1)] insert_all_leases(1) [OF *(2)] insert_all_leases(2) [OF *(3)] by simp
  qed
  then show ?thesis
    by (auto simp: rebuild_projection_def rebuild_write_def transaction_def split: sum.splits)
qed

lemma find_filter_other:
  "r \<noteq> r' \<Longrightarrow> find (\<lambda>l. le_run_id l = r) (filter (\<lambda>l. le_run_id l \<noteq> r') ls) = find (\<lambda>l. le_run_id l = r) ls"
  by (induction ls) auto

lemma foreign_keeps:
  assumes "holds_until l expires d" and "foreign l expires x"
  shows "holds_until l expires (perform x d)"
proof -
  obtain m where m: "leases_ok d" "lease_of d (le_run_id l) = Some m" "le_owner_id m = le_owner_id l"
    "le_fence_token m = le_fence_token l" "le_expires_at m = expires" by (rule holds_untilE [OF assms(1)])
  note other = holds_update_other [OF assms(1)] and named = lease_of_Some [of d "le_run_id l"]
  show ?thesis
  proof (cases x)
    case (Claim owner ttl now)
    with assms(2) have t: "now < expires" by simp
    obtain y d' where c: "claim_runnable_step owner ttl now d = (y, d')" by fastforce
    consider "y = Inr None" | z where "y = Inr (Some z)"
      using claim_never_raises [of owner ttl now d] c by (cases y rule: sum.exhaust; cases "projr y") auto
    then have "holds_until l expires d'"
    proof cases
      case 1
      with c claim_None [of owner ttl now d d'] assms(1) show ?thesis by simp
    next
      case 2
      from claim_elsewhere(2) [OF assms(1) t c [unfolded 2]] show ?thesis .
    qed
    with c show ?thesis by (simp add: Claim)
  next
    case (Renew now r' owner fence ttl)
    with assms(2) named show ?thesis
      by (fastforce simp: renew_lease_def transaction_def Let_def lease_match_def intro!: other)
  next
    case (Release now r' owner fence)
    with assms(2) named show ?thesis
      by (fastforce simp: release_lease_def transaction_def Let_def lease_match_def intro!: other)
  next
    case (Rebuild r')
    with assms(2) have "le_run_id l \<noteq> r'" by auto
    with rebuild_leases [of r' d] m show ?thesis
      by (auto simp: holds_until_def Rebuild lease_of_def leases_ok_def find_filter_other distinct_map_filter)
  qed (use perform_leases [of x d] m in \<open>simp_all add: holds_until_def lease_of_def leases_ok_def\<close>)
qed

lemma others_keep:
  "list_all (foreign l expires) xs \<Longrightarrow> holds_until l expires d \<Longrightarrow> holds_until l expires (fold perform xs d)"
  by (induction xs arbitrary: d) (simp_all add: foreign_keeps)

lemma lease_of_update_where:
  assumes "distinct (map le_run_id ls)" and "find (\<lambda>l. le_run_id l = r) ls = Some m" and "q m"
    and "\<And>l. le_run_id (f l) = le_run_id l" and "\<And>l. q l \<Longrightarrow> le_run_id l = r"
  shows "find (\<lambda>l. le_run_id l = r) (update_where q f ls) = Some (f m)"
    and "filter q ls = [m]"
proof -
  have "find (\<lambda>l. le_run_id l = r) (update_where q f ls) = Some (f m) \<and> filter q ls = [m]"
    using assms(1,2)
  proof (induction ls)
    case (Cons l ls)
    show ?case
    proof (cases "le_run_id l = r")
      case True
      with Cons.prems have "m = l" "\<forall>x \<in> set ls. le_run_id x \<noteq> r" by (auto simp: image_iff)
      moreover from this assms(5) have "filter q ls = []" by (auto simp: filter_empty_conv)
      ultimately show ?thesis using True assms(3,4) by (simp add: update_where_def)
    next
      case False
      with assms(5) have "\<not> q l" by blast
      with False Cons show ?thesis by (simp add: update_where_def)
    qed
  qed simp
  then show "find (\<lambda>l. le_run_id l = r) (update_where q f ls) = Some (f m)" and "filter q ls = [m]" by simp_all
qed

lemma renewal_in_time:
  assumes "holds_until l expires d" and "now < expires"
  shows "\<exists>d'. heartbeat_round now l ttl d = (True, d') \<and> holds_until l (now + ttl) d'"
proof -
  obtain m where m: "leases_ok d" "lease_of d (le_run_id l) = Some m" "le_owner_id m = le_owner_id l"
    "le_fence_token m = le_fence_token l" "le_expires_at m = expires" by (rule holds_untilE [OF assms(1)])
  let ?q = "\<lambda>x. lease_match (le_run_id l) (le_owner_id l) (le_fence_token l) x \<and> now < le_expires_at x"
  let ?f = "\<lambda>x. x\<lparr>le_expires_at := now + ttl, le_updated_at := now\<rparr>"
  have find: "find (\<lambda>x. le_run_id x = le_run_id l) (db_leases d) = Some m" using m(2) by (simp add: lease_of_def)
  have q: "?q m" using m(3-5) assms(2) lease_of_Some [OF m(2)] by (simp add: lease_match_def)
  note u = lease_of_update_where [OF m(1) [unfolded leases_ok_def] find, of ?q ?f, OF q]
  let ?d = "d\<lparr>db_leases := update_where ?q ?f (db_leases d)\<rparr>"
  have one: "filter ?q (db_leases d) = [m]" by (rule u(2)) (simp_all add: lease_match_def)
  have "lease_of ?d (le_run_id l) = Some (?f m)"
    unfolding lease_of_def by simp (rule u(1), simp_all add: lease_match_def)
  moreover have "heartbeat_round now l ttl d = (True, ?d)"
    by (simp add: heartbeat_round_def renew_lease_def transaction_def Let_def one)
  moreover have "map le_run_id (update_where ?q ?f (db_leases d)) = map le_run_id (db_leases d)"
    by (simp add: update_where_def)
  ultimately show ?thesis using m by (intro exI [of _ ?d]) (simp add: holds_until_def leases_ok_def)
qed

lemma loop_holds:
  assumes "holds_until l expires d" and "in_time l expires ttl rounds"
  shows "holds_until l (lease_deadline expires ttl rounds) (heartbeat_loop l ttl rounds d)"
  using assms
proof (induction l ttl rounds d arbitrary: expires rule: heartbeat_loop.induct)
  case (2 l ttl others rounds d)
  then show ?case using others_keep by simp
next
  case (3 l ttl now others rounds d)
  from 3(3) have t: "list_all (foreign l expires) others" "now < expires" "in_time l (now + ttl) ttl rounds" by simp_all
  from renewal_in_time [OF others_keep [OF t(1) 3(2)] t(2), of ttl] obtain d' where
    d': "heartbeat_round now l ttl (fold perform others d) = (True, d')" "holds_until l (now + ttl) d'" by blast
  from 3(1) [OF d'(1) [symmetric] TrueI d'(2) t(3)] d'(1) show ?case by simp
qed simp

text \<open>C11: heartbeats keep the lease. Between the renewals the other processes commit any
  operations: they submit runs, claim and attempt steps, postpone, fail and complete them,
  renew and release leases of their own, rebuild other runs. While every renewal, and every
  claim of the others, comes before the deadline that is current then (and a renewal that
  raises is no more than a missed one), the run keeps its lease with the same owner and
  token, its deadline is one TTL after the last renewal, and no worker can claim the run
  before that deadline. That a claim cannot take the run is a consequence, not an assumption;
  what is assumed of the others is that none of them names the lease by its run, owner and token, and
  that the run is not rebuilt, which would delete its lease.\<close>

theorem heartbeat_keeps_lease:
  assumes "lease_of d (le_run_id l) = Some m" and "le_owner_id m = le_owner_id l"
    and "le_fence_token m = le_fence_token l" and "leases_ok d"
    and "in_time l (le_expires_at m) ttl rounds"
    and "now < lease_deadline (le_expires_at m) ttl rounds"
  shows "(\<exists>m'. lease_of (heartbeat_loop l ttl rounds d) (le_run_id l) = Some m' \<and>
      le_owner_id m' = le_owner_id l \<and> le_fence_token m' = le_fence_token l \<and>
      le_expires_at m' = lease_deadline (le_expires_at m) ttl rounds) \<and>
    (\<forall>worker ttl' c d'. claim_runnable_step worker ttl' now (heartbeat_loop l ttl rounds d) = (Inr (Some c), d') \<longrightarrow>
      le_run_id (cl_lease c) \<noteq> le_run_id l)"
proof -
  have "holds_until l (le_expires_at m) d" using assms(1-4) by (simp add: holds_until_def)
  note held = loop_holds [OF this assms(5)]
  with claim_elsewhere(1) [OF held assms(6)] show ?thesis by (auto simp: holds_until_def)
qed

section \<open>Building a worker\<close>

text \<open>\<open>worker_id or f"worker-{pid}-{hex8}"\<close>.\<close>

definition engine_worker_id :: "string option \<Rightarrow> nat \<Rightarrow> string \<Rightarrow> string" where
  "engine_worker_id worker_id pid hex =
     (case worker_id of
        None \<Rightarrow> ''worker-'' @ show_nat pid @ ''-'' @ take 8 hex
      | Some name \<Rightarrow> if name = [] then ''worker-'' @ show_nat pid @ ''-'' @ take 8 hex else name)"

record worker_process =
  wp_engine :: engine_settings
  wp_worker_id :: string
  wp_database :: path
  wp_tool_url :: string
  wp_request_timeout :: py_float
  wp_renew_interval :: py_float
  wp_poll_interval :: py_float

definition build_worker :: "environment \<Rightarrow> nat \<Rightarrow> string \<Rightarrow> config_error + worker_process" where
  "build_worker env pid hex = rbind (from_env env) (\<lambda>s.
     Inr \<lparr>wp_engine = engine_settings_of env s,
       wp_worker_id = engine_worker_id (env ''CRASHSAFE_WORKER_ID'') pid hex,
       wp_database = se_engine_db s, wp_tool_url = se_tool_base_url s,
       wp_request_timeout = se_request_timeout s, wp_renew_interval = se_renew_interval s,
       wp_poll_interval = se_poll_interval s\<rparr>)"

section \<open>Witness\<close>

text \<open>Worker 1 has claimed the older of two runs. Between its renewals, the second of which raises, a
  second worker looks for work twice: it gets the other run, and then nothing.\<close>

definition beat_workflow :: workflow_definition where
  "beat_workflow = \<lparr>wd_name = ''pay'', wd_steps =
     [ChargeStep ''pay'' [] \<lparr>ch_customer_id = ''c1'', ch_amount_cents = 500\<rparr>]\<rparr>"

definition beat_db :: db where
  "beat_db = fold perform [Create ''a1'' 1 beat_workflow None ''mock'', Create ''b2'' 2 beat_workflow None ''mock'',
     Claim ''w1'' 10 3] empty_db"

definition held_lease :: workflow_run_lease where
  "held_lease = \<lparr>le_run_id = ''a1'', le_owner_id = ''w1'', le_fence_token = 1, le_expires_at = 13, le_updated_at = 3\<rparr>"

definition beat_rounds :: "round list" where
  "beat_rounds = [Renewal 8 [Claim ''w2'' 50 5, Attempt 6 6 ''b2'' ''pay'' (Some ''w2'') (Some 1)],
     RenewalRaises [Claim ''w2'' 50 14], Renewal 16 []]"

lemma beat_lease: "lease_of beat_db ''a1'' = Some held_lease" "leases_ok beat_db"
    "lease_of (heartbeat_loop held_lease 10 beat_rounds beat_db) ''b2'' \<noteq> None"
  by code_simp+

theorem heartbeat_keeps_lease_witness:
  "\<exists>m. lease_of (heartbeat_loop held_lease 10 beat_rounds beat_db) ''a1'' = Some m \<and>
    le_owner_id m = ''w1'' \<and> le_fence_token m = 1 \<and> le_expires_at m = 26 \<and>
    lease_of (heartbeat_loop held_lease 10 beat_rounds beat_db) ''b2'' \<noteq> None"
proof -
  have l: "le_run_id held_lease = ''a1''" "le_owner_id held_lease = ''w1''" "le_fence_token held_lease = 1"
    "le_expires_at held_lease = 13" by (simp_all add: held_lease_def)
  have t: "in_time held_lease (le_expires_at held_lease) 10 beat_rounds"
    "25 < lease_deadline (le_expires_at held_lease) 10 beat_rounds" "lease_deadline 13 10 beat_rounds = 26"
    by (simp_all add: l beat_rounds_def)
  show ?thesis
    using heartbeat_keeps_lease [of beat_db held_lease held_lease 10 beat_rounds 25, unfolded l(1), OF beat_lease(1) refl refl
        beat_lease(2) t(1,2)] beat_lease(3) t(3) l by auto
qed

end
