(* ===== verification/Worker_Process.thy ===== *)
theory Worker_Process
  imports Worker Heartbeat
begin

text \<open>
  A worker process of \<open>crashsafe/worker.py\<close> from its start to its end: the signal handler and
  the flag it sets, the two loops with the checks of flag and deadline in every round, and
  \<open>main\<close> with the file that holds the process id. The loops are those of \<open>Worker\<close> on the
  rounds that flag and deadline admit; a process whose loop ends leaves neither a lease nor its
  file. \<open>argparse\<close> is not modelled: \<open>main\<close> is given the namespace it returns or the code it exits
  with; writing and unlinking a file succeed. The ends here are those that the code reaches: a
  process that is killed from outside (SIGKILL, a loss of power) just stops, which the crash
  step of \<open>System\<close> allows at every instant.
\<close>

section \<open>Signals and loops\<close>

text \<open>One round of a loop: the signals handled since the previous check, the monotonic clock, and
  what \<open>run_once\<close> meets if it is called.\<close>

record poll_round =
  po_signals :: "int list"
  po_clock :: py_float
  po_tick :: tick

definition request_stop :: "int \<Rightarrow> bool \<Rightarrow> bool" where
  "request_stop signum drain_requested = True"

text \<open>\<open>None\<close>: the rounds end before the loop does.\<close>

fun poll_forever :: "engine_settings \<Rightarrow> string \<Rightarrow> poll_round list \<Rightarrow> bool \<Rightarrow> db \<Rightarrow> (worker_exit \<times> db) option" where
  "poll_forever cfg worker [] drain d = None"
| "poll_forever cfg worker (p # ps) drain d =
     (let drain = fold request_stop (po_signals p) drain in
      if drain then Some (ExitCode 0, d)
      else (case run_once cfg worker (fst (po_tick p)) (snd (po_tick p)) d of
          (Finished (Inr out), d') \<Rightarrow> poll_forever cfg worker ps drain d'
        | (Finished (Inl e), d') \<Rightarrow> Some (Raised e, d')
        | (_, d') \<Rightarrow> Some (Killed, d')))"

fun poll_until_terminal :: "engine_settings \<Rightarrow> string \<Rightarrow> string \<Rightarrow> py_float \<Rightarrow> poll_round list \<Rightarrow> bool \<Rightarrow> db
    \<Rightarrow> (worker_exit \<times> db) option" where
  "poll_until_terminal cfg worker r until [] drain d = None"
| "poll_until_terminal cfg worker r until (p # ps) drain d =
     (let drain = fold request_stop (po_signals p) drain in
      if drain \<or> \<not> float_less (po_clock p) until then Some (ExitCode 3, d)
      else (case get_workflow_run r d of
          Inl e \<Rightarrow> Some (Raised (StorageError e), d)
        | Inr run \<Rightarrow>
            if wr_status run = COMPLETED then Some (ExitCode 0, d)
            else if wr_status run = FAILED then Some (ExitCode 2, d)
            else (case run_once cfg worker (fst (po_tick p)) (snd (po_tick p)) d of
                (Finished (Inr out), d') \<Rightarrow> poll_until_terminal cfg worker r until ps drain d'
              | (Finished (Inl e), d') \<Rightarrow> Some (Raised e, d')
              | (_, d') \<Rightarrow> Some (Killed, d'))))"

section \<open>The process\<close>

text \<open>\<open>time.monotonic() + timeout\<close>.\<close>

fun float_plus :: "py_float \<Rightarrow> py_float \<Rightarrow> py_float" where
  "float_plus (Finite x) (Finite y) = in_float_range (to_double (x + y))"
| "float_plus NaN y = NaN"
| "float_plus x NaN = NaN"
| "float_plus PosInf NegInf = NaN"
| "float_plus NegInf PosInf = NaN"
| "float_plus PosInf y = PosInf"
| "float_plus NegInf y = NegInf"
| "float_plus x y = y"

record worker_namespace =
  ns_once :: bool
  ns_until_terminal :: "string option"
  ns_timeout :: py_float

definition poll_main :: "worker_process \<Rightarrow> worker_namespace \<Rightarrow> py_float \<Rightarrow> poll_round list \<Rightarrow> db
    \<Rightarrow> (worker_exit \<times> db) option" where
  "poll_main w ns started ps d =
     (if ns_once ns
      then (case ps of [] \<Rightarrow> None
        | p # _ \<Rightarrow> Some (worker_main (wp_engine w) (wp_worker_id w) (Once (po_tick p)) d))
      else (case ns_until_terminal ns of
          Some (c # cs) \<Rightarrow>
            map_option (\<lambda>x. case x of
                (Raised (StorageError (WorkflowRunNotFoundError _)), d') \<Rightarrow> (ExitCode 4, d') | y \<Rightarrow> y)
              (poll_until_terminal (wp_engine w) (wp_worker_id w) (c # cs)
                (float_plus started (ns_timeout ns)) ps False d)
        | _ \<Rightarrow> poll_forever (wp_engine w) (wp_worker_id w) ps False d))"

type_synonym files = "string \<Rightarrow> string option"

definition pid_file :: "environment \<Rightarrow> string option" where
  "pid_file env = nonempty_env env ''CRASHSAFE_WORKER_PID_FILE''"

definition write_pid :: "environment \<Rightarrow> nat \<Rightarrow> files \<Rightarrow> files" where
  "write_pid env pid files = (case pid_file env of None \<Rightarrow> files | Some path \<Rightarrow> files(path \<mapsto> show_nat pid))"

definition unlink_pid :: "environment \<Rightarrow> files \<Rightarrow> files" where
  "unlink_pid env files = (case pid_file env of None \<Rightarrow> files | Some path \<Rightarrow> files(path := None))"

datatype process_end = Misconfigured config_error | ParserExit int | Ended worker_exit

text \<open>\<open>main\<close>: the arguments are parsed after the file is written and outside of the \<open>try\<close> whose
  \<open>finally\<close> unlinks it; \<open>os._exit\<close> runs no \<open>finally\<close>.\<close>

definition run_process :: "environment \<Rightarrow> nat \<Rightarrow> string \<Rightarrow> int + worker_namespace \<Rightarrow> py_float \<Rightarrow> poll_round list
    \<Rightarrow> files \<Rightarrow> db \<Rightarrow> (process_end \<times> files \<times> db) option" where
  "run_process env pid hex parsed started ps files d =
     (case build_worker env pid hex of
        Inl e \<Rightarrow> Some (Misconfigured e, files, d)
      | Inr w \<Rightarrow>
          (let files = write_pid env pid files in
           case parsed of
             Inl code \<Rightarrow> Some (ParserExit code, files, d)
           | Inr ns \<Rightarrow> map_option (\<lambda>(x, d').
               (Ended x, if x = Killed then files else unlink_pid env files, d')) (poll_main w ns started ps d)))"

section \<open>The rounds that are admitted\<close>

definition admitted :: "py_float option \<Rightarrow> poll_round \<Rightarrow> bool" where
  "admitted until p \<longleftrightarrow> po_signals p = [] \<and> (case until of None \<Rightarrow> True | Some t \<Rightarrow> float_less (po_clock p) t)"

definition admitted_ticks :: "py_float option \<Rightarrow> poll_round list \<Rightarrow> tick list" where
  "admitted_ticks until ps = map po_tick (takeWhile (admitted until) ps)"

lemma fold_request_stop [simp]: "fold request_stop signals drain \<longleftrightarrow> drain \<or> signals \<noteq> []"
  by (induction signals arbitrary: drain) (auto simp: request_stop_def)

lemma poll_forever_ticks:
  assumes "\<not> list_all (admitted None) ps"
  shows "poll_forever cfg worker ps False d = Some (run_forever cfg worker (admitted_ticks None ps) d)"
  using assms
proof (induction ps arbitrary: d)
  case (Cons p ps)
  then show ?case
    by (cases "po_tick p") (auto simp: admitted_ticks_def admitted_def split: prod.splits worker_phase.splits sum.splits)
qed simp

lemma poll_until_ticks:
  assumes "\<not> list_all (admitted (Some until)) ps"
  shows "poll_until_terminal cfg worker r until ps False d =
    Some (run_until_terminal cfg worker r (admitted_ticks (Some until) ps) d)"
  using assms
proof (induction ps arbitrary: d)
  case (Cons p ps)
  then show ?case
    by (cases "po_tick p")
      (auto simp: admitted_ticks_def admitted_def split: prod.splits worker_phase.splits sum.splits)
qed simp

text \<open>A run that ends within the admitted rounds does not see the next ones.\<close>

lemma poll_until_admitted:
  assumes "run_until_terminal cfg worker r (map po_tick ps) d = (ExitCode 0, d')" and "list_all (admitted (Some until)) ps"
  shows "poll_until_terminal cfg worker r until (ps @ later) False d = Some (ExitCode 0, d')"
  using assms
proof (induction ps arbitrary: d)
  case (Cons p ps)
  then show ?case
    by (cases "po_tick p")
      (auto simp: admitted_def split: prod.splits worker_phase.splits sum.splits if_splits)
qed simp

text \<open>The arguments of \<open>Worker\<close> that the process stands for.\<close>

definition process_args :: "worker_namespace \<Rightarrow> py_float \<Rightarrow> poll_round list \<Rightarrow> worker_args" where
  "process_args ns started ps =
     (if ns_once ns then Once (po_tick (hd ps))
      else (case ns_until_terminal ns of
          Some (c # cs) \<Rightarrow> UntilTerminal (c # cs) (admitted_ticks (Some (float_plus started (ns_timeout ns))) ps)
        | _ \<Rightarrow> Forever (admitted_ticks None ps)))"

lemma poll_main_ticks:
  assumes "\<exists>p \<in> set ps. po_signals p \<noteq> []"
  shows "poll_main w ns started ps d = Some (worker_main (wp_engine w) (wp_worker_id w) (process_args ns started ps) d)"
proof -
  have stops: "\<not> list_all (admitted until) ps" for until using assms by (auto simp: list_all_iff admitted_def)
  note loops = poll_forever_ticks [OF stops] poll_until_ticks [OF stops]
  have "ps \<noteq> []" using assms by auto
  then show ?thesis
    by (auto simp: poll_main_def process_args_def loops neq_Nil_conv split: option.split list.split)
qed

text \<open>The whole of a worker process. Once a signal arrives the process ends, with the exit and the database
  that the loops of \<open>Worker\<close> have on the rounds before flag and deadline: the attempt in
  flight is finished, none is begun after the signal. While it runs the pid file holds its
  id; it is gone after every end except the injected \<open>os._exit\<close> and the exit of the argument
  parser, which leave it behind, and a configuration error comes before it is written.\<close>

theorem worker_process_exact:
  assumes "\<exists>p \<in> set ps. po_signals p \<noteq> []"
  shows "run_process env pid hex parsed started ps files d = Some (case build_worker env pid hex of
      Inl e \<Rightarrow> (Misconfigured e, files, d)
    | Inr w \<Rightarrow> (case parsed of
        Inl code \<Rightarrow> (ParserExit code, write_pid env pid files, d)
      | Inr ns \<Rightarrow> (case worker_main (wp_engine w) (wp_worker_id w) (process_args ns started ps) d of
          (x, d') \<Rightarrow> (Ended x, if x = Killed then write_pid env pid files else unlink_pid env files, d'))))"
proof -
  have "unlink_pid env (write_pid env pid files) = unlink_pid env files"
    by (simp add: unlink_pid_def write_pid_def split: option.split)
  then show ?thesis
    by (simp add: run_process_def poll_main_ticks [OF assms] split: sum.split prod.split)
qed

section \<open>What a process leaves\<close>

text \<open>No lease of the worker reaches beyond \<open>T\<close>.\<close>

definition holds_nothing :: "string \<Rightarrow> timestamp \<Rightarrow> db \<Rightarrow> bool" where
  "holds_nothing worker T d \<longleftrightarrow> (\<forall>l \<in> set (db_leases d). le_owner_id l = worker \<longrightarrow> le_expires_at l \<le> T)"

lemma attempt_phase_lease:
  assumes "attempt_phase cfg now checked c d = (ph, d')"
  shows "ph = Dead \<or> (\<exists>s. ph = Requesting s (cl_lease c)) \<or> (\<exists>res. ph = Releasing (cl_lease c) res)"
    and "db_leases d' = db_leases d"
proof -
  show "ph = Dead \<or> (\<exists>s. ph = Requesting s (cl_lease c)) \<or> (\<exists>res. ph = Releasing (cl_lease c) res)"
    using assms by (auto simp: attempt_phase_def after_error_def split: prod.splits sum.splits if_splits
        engine_error.splits storage_error.splits)
  from assms show "db_leases d' = db_leases d"
    by (cases rule: attempt_phase_cases) (auto elim!: record_attempt_body_Inr append_event_Inr)
qed

lemma commit_phase_lease:
  assumes "commit_phase cfg t s l g d = (ph, d')"
  shows "ph = Dead \<or> (\<exists>res. ph = Releasing l res)" and "db_leases d' = db_leases d"
proof -
  have "after_error l out e = Dead \<or> (\<exists>res. after_error l out e = Releasing l res)" for out e
    by (auto simp: after_error_def split: engine_error.splits storage_error.splits)
  then show "ph = Dead \<or> (\<exists>res. ph = Releasing l res)"
    using assms by (cases g) (auto simp: commit_answer_def settle_def split: prod.splits sum.splits if_splits)
  show "db_leases d' = db_leases d" using commit_phase_cases [OF assms] worker_write_facts(4) by blast
qed

lemma release_holds_nothing:
  assumes "holds_nothing worker T d" and "db_leases d' = db_leases (upsert_lease l d)" and "now \<le> T"
  shows "holds_nothing worker T (snd (release_lease now (le_run_id l) (le_owner_id l) (le_fence_token l) d'))"
proof -
  have "m = l \<or> m \<in> set (db_leases d)" if "m \<in> set (db_leases d')" for m
    using that unfolding assms(2) by (auto simp: upsert_lease_def set_update_where split: if_splits)
  then show ?thesis
    using assms(1,3) by (auto simp: holds_nothing_def release_lease_def transaction_def Let_def set_update_where lease_match_def)
qed

text \<open>However an attempt ends, unless it dies, its lease is released at the end.\<close>

lemma run_once_releases:
  assumes once: "run_once cfg worker t gateway d = (Finished res, d')" and none: "holds_nothing worker T d" and T: "rc_release t \<le> T"
  shows "holds_nothing worker T d'"
proof -
  obtain ph d1 where c: "claim_phase cfg worker (rc_claim t) d = (ph, d1)" by fastforce
  from c show ?thesis
  proof (cases rule: claim_phase_cases)
    case idle
    have "\<nexists>c. ph = Claimed c" using idle(2) by auto
    with once c have "d' = d1" by (auto simp: run_once_def split: worker_phase.splits)
    with idle(1) none show ?thesis by simp
  next
    case (claimed cl ttl)
    let ?l = "cl_lease cl"
    have d1: "db_leases d1 = db_leases (upsert_lease ?l d)" using claimed(1) by (auto elim: claim_Some)
    note release = release_holds_nothing [OF none _ T]
    obtain ph2 d2 where a: "attempt_phase cfg (rc_attempt t) (rc_attempt_lease t) cl d1 = (ph2, d2)" by fastforce
    note l2 = attempt_phase_lease [OF a]
    from l2(1) show ?thesis
    proof (elim disjE exE)
      fix s assume req: "ph2 = Requesting s ?l"
      obtain ph3 d3 where m: "commit_phase cfg (rc_commit t) s ?l (gateway s) d2 = (ph3, d3)" by fastforce
      have "(Finished res, d') = finish_phase (rc_release t) (ph3, d3)"
        using once c claimed(2) a req m by (simp add: run_once_def)
      with commit_phase_lease [OF m] l2(2) d1 release [of d3 ?l] show ?thesis
        by (auto simp: finish_phase_def release_phase_def)
    next
      fix res2 assume "ph2 = Releasing ?l res2"
      with once c claimed(2) a have "(Finished res, d') = release_phase (rc_release t) ?l res2 d2"
        by (simp add: run_once_def finish_phase_def)
      with l2(2) d1 release [of d2 ?l] show ?thesis by (simp add: release_phase_def)
    next
      assume "ph2 = Dead"
      with once c claimed(2) a show ?thesis by (simp add: run_once_def finish_phase_def)
    qed
  qed
qed


lemma poll_forever_releases:
  assumes "poll_forever cfg worker ps drain d = Some (x, d')" and "x \<noteq> Killed" and "holds_nothing worker T d"
    and "\<forall>p \<in> set ps. rc_release (fst (po_tick p)) \<le> T"
  shows "holds_nothing worker T d'"
  using assms
proof (induction ps arbitrary: drain d)
  case (Cons p ps)
  show ?case
  proof (cases "fold request_stop (po_signals p) drain")
    case False
    obtain y d1 where once: "run_once cfg worker (fst (po_tick p)) (snd (po_tick p)) d = (y, d1)" by fastforce
    from Cons.prems once False obtain res where y: "y = Finished res"
      by (cases y) (auto simp del: fold_request_stop)
    with run_once_releases once Cons.prems(3,4) have "holds_nothing worker T d1" by fastforce
    with Cons once False y show ?thesis by (cases res) (auto simp del: fold_request_stop)
  qed (use Cons.prems in auto)
qed simp

lemma poll_until_terminal_releases:
  assumes "poll_until_terminal cfg worker r until ps drain d = Some (x, d')" and "x \<noteq> Killed"
    and "holds_nothing worker T d" and "\<forall>p \<in> set ps. rc_release (fst (po_tick p)) \<le> T"
  shows "holds_nothing worker T d'"
  using assms
proof (induction ps arbitrary: drain d)
  case (Cons p ps)
  obtain y d1 where once: "run_once cfg worker (fst (po_tick p)) (snd (po_tick p)) d = (y, d1)" by fastforce
  have next_d: "holds_nothing worker T d1" if "y = Finished res" for res
    using that run_once_releases once Cons.prems(3,4) by fastforce
  show ?case
    using Cons.prems Cons.IH [OF _ Cons.prems(2)] once next_d
    by (auto simp del: fold_request_stop simp: Let_def split: if_splits sum.splits worker_phase.splits)
qed simp

lemma worker_main_once_releases:
  assumes "worker_main cfg worker (Once t) d = (x, d')" and "x \<noteq> Killed" and "holds_nothing worker T d"
    and "rc_release (fst t) \<le> T"
  shows "holds_nothing worker T d'"
proof -
  obtain y d1 where once: "run_once cfg worker (fst t) (snd t) d = (y, d1)" by fastforce
  with assms(1,2) obtain res where "y = Finished res \<and> d1 = d'"
    by (cases t) (auto split: worker_phase.splits sum.splits)
  with run_once_releases once assms(3,4) show ?thesis by blast
qed

lemma exit_database:
  "(case z of (Raised (StorageError (WorkflowRunNotFoundError _)), d') \<Rightarrow> (ExitCode 4, d') | y \<Rightarrow> y) = (x, d') \<longleftrightarrow>
    snd z = d' \<and> x = (case fst z of Raised (StorageError (WorkflowRunNotFoundError _)) \<Rightarrow> ExitCode 4 | y \<Rightarrow> y)"
  by (cases z) (auto split: worker_exit.splits engine_error.splits storage_error.splits)

lemma poll_main_releases:
  assumes "poll_main w ns started ps d = Some (x, d')" and "x \<noteq> Killed" and "holds_nothing (wp_worker_id w) T d"
    and "\<forall>p \<in> set ps. rc_release (fst (po_tick p)) \<le> T"
  shows "holds_nothing (wp_worker_id w) T d'"
proof -
  from assms(1) consider
      (once) p qs where "ps = p # qs" "worker_main (wp_engine w) (wp_worker_id w) (Once (po_tick p)) d = (x, d')"
    | (until) r y where "poll_until_terminal (wp_engine w) (wp_worker_id w) r (float_plus started (ns_timeout ns)) ps False d
        = Some (y, d')" "y = Killed \<longrightarrow> x = Killed"
    | (forever) "poll_forever (wp_engine w) (wp_worker_id w) ps False d = Some (x, d')"
    by (auto simp: poll_main_def exit_database split: if_splits list.splits option.splits)
  then show ?thesis
  proof cases
    case once
    with worker_main_once_releases [OF once(2) assms(2,3)] assms(4) show ?thesis by simp
  next
    case until
    with poll_until_terminal_releases [OF until(1) _ assms(3,4)] assms(2) show ?thesis by blast
  next
    case forever
    from poll_forever_releases [OF forever assms(2-4)] show ?thesis .
  qed
qed


section \<open>Witness\<close>

text \<open>A worker that is asked for a run that does not exist, and interrupted afterwards.\<close>

definition pid_environment :: environment where
  "pid_environment = [''CRASHSAFE_WORKER_PID_FILE'' \<mapsto> ''/state/worker.pid'']"

definition idle_tick :: tick where
  "idle_tick = (\<lparr>rc_claim = 0, rc_attempt = 0, rc_attempt_lease = 0,
     rc_commit = \<lparr>cc_engine = 0, cc_now = 0, cc_lease = 0\<rparr>, rc_release = 0\<rparr>, \<lambda>s. BadAnswer)"

definition two_rounds :: "poll_round list" where
  "two_rounds = [\<lparr>po_signals = [], po_clock = Finite 7, po_tick = idle_tick\<rparr>,
     \<lparr>po_signals = [15], po_clock = Finite 8, po_tick = idle_tick\<rparr>]"

lemma pid_settings: "from_env pid_environment = Inr default_settings"
  using default_bounds
  by (simp add: from_env_def int_env_def float_env_def getenv_def ledger_path_def nonempty_env_def pid_environment_def
      check_settings_def float_le_def default_settings_def default_integers default_floats Let_def)

theorem worker_process_exact_witness:
  "run_process pid_environment 41 ''beef'' (Inr \<lparr>ns_once = False, ns_until_terminal = Some ''zz'', ns_timeout = PosInf\<rparr>)
      (Finite 0) two_rounds [''/state/worker.pid'' \<mapsto> ''old''] empty_db =
    Some (Ended (ExitCode 4), Map.empty, empty_db)"
proof -
  have "\<exists>p \<in> set two_rounds. po_signals p \<noteq> []" by (simp add: two_rounds_def)
  moreover have "get_workflow_run ''zz'' empty_db = Inl (WorkflowRunNotFoundError ''zz'')" by code_simp
  moreover obtain w where "build_worker pid_environment 41 ''beef'' = Inr w" by (simp add: build_worker_def pid_settings)
  moreover have "pid_file pid_environment = Some ''/state/worker.pid''"
    by (simp add: pid_file_def nonempty_env_def pid_environment_def)
  ultimately show ?thesis
    by (subst worker_process_exact) (simp_all add: process_args_def admitted_ticks_def admitted_def
        two_rounds_def idle_tick_def unlink_pid_def)
qed

end
