(* ===== verification/Staging.thy ===== *)
theory Staging
  imports Scripts Progress Worker_Process
begin

text \<open>
  The stages of \<open>scripts/demo.py\<close> and \<open>scripts/graceful_drain.py\<close> in their order: what \<open>main\<close>
  checks between starting its processes, and where it stops with which error. Every stage is
  given what it observes: the result of a wait, the exit code of a process, the states in
  which it reads. The worker that is told to stop, in the loops of \<open>Worker_Process\<close>, is then shown
  to leave what the second script wants.
\<close>

section \<open>Stages\<close>

text \<open>\<open>Popen.returncode\<close> of a worker: an uncaught exception is 1, \<open>os._exit(91)\<close> is 91.\<close>

fun return_code :: "worker_exit \<Rightarrow> int" where
  "return_code (ExitCode n) = n"
| "return_code (Raised e) = 1"
| "return_code Killed = 91"

text \<open>\<open>process.wait\<close> with its own limit: \<open>None\<close> is \<open>TimeoutExpired\<close>.\<close>

definition expect_exit :: "int \<Rightarrow> string \<Rightarrow> int option \<Rightarrow> script_error + unit" where
  "expect_exit wanted msg code = (case code of
     None \<Rightarrow> Inl (WaitFailed TimedOut)
   | Some c \<Rightarrow> if c \<noteq> wanted then Inl (StageFailed msg) else Inr ())"

definition waited_for :: "wait_error + unit \<Rightarrow> script_error + unit" where
  "waited_for x = (case x of Inl e \<Rightarrow> Inl (WaitFailed e) | Inr _ \<Rightarrow> Inr ())"

definition read_run :: "(json \<Rightarrow> string) \<Rightarrow> string \<Rightarrow> db \<Rightarrow> script_error + workflow_run" where
  "read_run repr r d = (case api_get repr (GetRun r) d of Ok (RunBody run) \<Rightarrow> Inr run | x \<Rightarrow> Inl (HttpError x))"

definition first_step :: "workflow_run \<Rightarrow> script_error + step_record" where
  "first_step run = (case wr_steps run of [] \<Rightarrow> Inl IndexError | s # _ \<Rightarrow> Inr s)"

section \<open>The stages of the drain\<close>

definition check_drained :: "(json \<Rightarrow> string) \<Rightarrow> string \<Rightarrow> db \<Rightarrow> script_error + unit" where
  "check_drained repr r d =
     rbind (read_run repr r d) (\<lambda>drained.
     if wr_status drained \<noteq> RUNNING
     then Inl (StageFailed ''drain did not stop after committing only the in-flight step'')
     else rbind (first_step drained) (\<lambda>s.
       if st_status s \<noteq> STEP_COMPLETED
       then Inl (StageFailed ''drain did not stop after committing only the in-flight step'')
       else Inr ()))"

lemma read_run_view: "view d r = Some run \<Longrightarrow> read_run repr r d = Inr run"
  by (simp add: read_run_def api_get_def respond_def get_of_view)

text \<open>\<open>raise_for_status\<close> and the posted run.\<close>

definition submitted_body :: "api_response \<Rightarrow> script_error + workflow_run" where
  "submitted_body x = (case x of Created (RunBody run) \<Rightarrow> Inr run | _ \<Rightarrow> Inl (HttpError x))"

text \<open>What \<open>main\<close> observes, in its order; \<open>gr_polled\<close> is what \<open>worker.poll()\<close> returns while the request
  is in flight, and a process is given by its exit and the database it leaves.\<close>

record drain_run =
  gr_before :: db
  gr_tool_up :: "wait_error + unit"
  gr_api_up :: "wait_error + unit"
  gr_baseline :: ledger
  gr_response :: api_response
  gr_charge_committed :: "wait_error + unit"
  gr_polled :: "int option"
  gr_drained :: "int option \<times> db"
  gr_resumed :: "int option \<times> db"
  gr_ledger :: ledger

definition submit_drain :: "drain_run \<Rightarrow> script_error + string" where
  "submit_drain x =
     rbind (waited_for (gr_tool_up x)) (\<lambda>_.
     rbind (waited_for (gr_api_up x)) (\<lambda>_.
     rbind (submitted_body (gr_response x)) (\<lambda>run. Inr (wr_run_id run))))"

definition stop_drain :: "(json \<Rightarrow> string) \<Rightarrow> string \<Rightarrow> drain_run \<Rightarrow> script_error + unit" where
  "stop_drain repr r x =
     rbind (waited_for (gr_charge_committed x)) (\<lambda>_.
     rbind (if gr_polled x \<noteq> None then Inl (StageFailed ''worker exited before its in-flight attempt completed'')
       else Inr ()) (\<lambda>_.
     rbind (expect_exit 0 ''draining worker did not exit cleanly'' (fst (gr_drained x))) (\<lambda>_.
     rbind (check_drained repr r (snd (gr_drained x))) (\<lambda>_.
     rbind (workflow_timeline repr r (snd (gr_drained x))) (\<lambda>_. Inr ())))))"

definition resume_drain :: "(json \<Rightarrow> string) \<Rightarrow> string \<Rightarrow> drain_run \<Rightarrow> script_error + unit" where
  "resume_drain repr r x =
     rbind (expect_exit 0 ''replacement worker did not complete the run'' (fst (gr_resumed x))) (\<lambda>_.
       drain_verdict repr r (summary None (gr_baseline x)) (snd (gr_resumed x)) (gr_ledger x))"

definition drain_main :: "(json \<Rightarrow> string) \<Rightarrow> drain_run \<Rightarrow> script_error + unit" where
  "drain_main repr x =
     rbind (refuse_unfinished (gr_before x)) (\<lambda>_.
     rbind (submit_drain x) (\<lambda>r.
     rbind (stop_drain repr r x) (\<lambda>_. resume_drain repr r x)))"

section \<open>The stages of the demo\<close>

definition retry_persisted :: "workflow_run_event list \<Rightarrow> bool" where
  "retry_persisted es \<longleftrightarrow> list_ex (\<lambda>e. ev_event_type e = STEP_RETRY_SCHEDULED) es"

text \<open>The first scheduled retry and its \<open>next_attempt_at\<close>.\<close>

definition persisted_retry :: "(json \<Rightarrow> string) \<Rightarrow> string \<Rightarrow> db \<Rightarrow> script_error + timestamp" where
  "persisted_retry repr r d =
     rbind (workflow_events repr r d) (\<lambda>es.
     case find (\<lambda>e. ev_event_type e = STEP_RETRY_SCHEDULED) es of
       None \<Rightarrow> Inl StopIteration
     | Some e \<Rightarrow> (case ev_payload e of
           StepRetryScheduledPayload msg next_attempt_at \<Rightarrow> Inr next_attempt_at
         | _ \<Rightarrow> Inl (KeyError ''next_attempt_at'')))"

definition both_completed :: "(json \<Rightarrow> string) \<Rightarrow> string \<Rightarrow> string \<Rightarrow> db \<Rightarrow> script_error + bool" where
  "both_completed repr paid_id trial_id d =
     rbind (read_run repr paid_id d) (\<lambda>paid.
     if wr_status paid \<noteq> COMPLETED then Inr False
     else rbind (read_run repr trial_id d) (\<lambda>trial. Inr (wr_status trial = COMPLETED)))"

text \<open>What \<open>main\<close> observes, in its order.\<close>

record demo_run =
  dr_before :: db
  dr_tool_up :: "wait_error + unit"
  dr_api_up :: "wait_error + unit"
  dr_paid_response :: api_response
  dr_trial_response :: api_response
  dr_charge_committed :: "wait_error + unit"
  dr_retry_seen :: "wait_error + unit"
  dr_worker_2 :: "int option"
  dr_retried :: db
  dr_kill_ledger :: ledger
  dr_worker_1 :: "int option"
  dr_killed :: db
  dr_all_completed :: "wait_error + unit"
  dr_resumed :: "int option"
  dr_final :: db
  dr_ledger :: ledger

definition print_timelines :: "(json \<Rightarrow> string) \<Rightarrow> string \<Rightarrow> string \<Rightarrow> db \<Rightarrow> script_error + timeline list" where
  "print_timelines repr paid_id trial_id d =
     rbind (workflow_timeline repr paid_id d) (\<lambda>x.
     rbind (workflow_timeline repr trial_id d) (\<lambda>y. Inr [x, y]))"

definition start_demo :: "demo_run \<Rightarrow> script_error + string \<times> string \<times> string" where
  "start_demo x =
     rbind (waited_for (dr_tool_up x)) (\<lambda>_.
     rbind (waited_for (dr_api_up x)) (\<lambda>_.
     rbind (submitted_body (dr_paid_response x)) (\<lambda>paid.
     rbind (submitted_body (dr_trial_response x)) (\<lambda>trial.
     rbind (first_step paid) (\<lambda>charge.
       Inr (wr_run_id paid, wr_run_id trial, st_operation_key charge))))))"

definition crash_demo :: "(json \<Rightarrow> string) \<Rightarrow> (string \<Rightarrow> string option) \<Rightarrow> string \<Rightarrow> string \<Rightarrow> demo_run
    \<Rightarrow> script_error + unit" where
  "crash_demo repr canonical paid_id trial_id x =
     rbind (waited_for (dr_retry_seen x)) (\<lambda>_.
     rbind (expect_exit 0 ''worker-2 did not finish its single 429 attempt'' (dr_worker_2 x)) (\<lambda>_.
     rbind (persisted_retry repr trial_id (dr_retried x)) (\<lambda>_.
     rbind (combined_run_ledger canonical [paid_id, trial_id] no_effects (dr_kill_ledger x)) (\<lambda>_.
     rbind (expect_exit (- 9) ''worker-1 did not exit from SIGKILL'' (dr_worker_1 x)) (\<lambda>_.
     rbind (read_run repr paid_id (dr_killed x)) (\<lambda>interrupted.
     rbind (first_step interrupted) (\<lambda>_.
     rbind (print_timelines repr paid_id trial_id (dr_killed x)) (\<lambda>_. Inr ()))))))))"

definition resume_demo :: "(json \<Rightarrow> string) \<Rightarrow> (string \<Rightarrow> string option) \<Rightarrow> string \<Rightarrow> string \<Rightarrow> string
    \<Rightarrow> demo_run \<Rightarrow> script_error + unit" where
  "resume_demo repr canonical paid_id trial_id charge_key x =
     rbind (waited_for (dr_all_completed x)) (\<lambda>_.
     rbind (expect_exit 0 ''resumed worker did not stop cleanly'' (dr_resumed x)) (\<lambda>_.
     rbind (read_demo repr canonical paid_id trial_id (dr_final x) (dr_ledger x)) (\<lambda>readings.
     rbind (print_timelines repr paid_id trial_id (dr_final x)) (\<lambda>_.
       demo_verdict charge_key readings))))"

definition demo_main :: "(json \<Rightarrow> string) \<Rightarrow> (string \<Rightarrow> string option) \<Rightarrow> demo_run \<Rightarrow> script_error + unit" where
  "demo_main repr canonical x =
     rbind (refuse_unfinished (dr_before x)) (\<lambda>_.
     rbind (start_demo x) (\<lambda>(paid_id, trial_id, charge_key).
     rbind (waited_for (dr_charge_committed x)) (\<lambda>_.
     rbind (crash_demo repr canonical paid_id trial_id x) (\<lambda>_.
       resume_demo repr canonical paid_id trial_id charge_key x))))"

section \<open>When the demo passes\<close>

lemma expect_exit_Inr: "expect_exit wanted msg code = Inr u \<longleftrightarrow> code = Some wanted"
  by (simp add: expect_exit_def split: option.splits)

lemma refuse_unfinished_Inr: "refuse_unfinished d = Inr u \<longleftrightarrow> unfinished_runs d = Inr []"
  by (simp add: refuse_unfinished_def storage_value_def split: sum.splits)

lemma waited_for_Inr: "waited_for x = Inr u \<longleftrightarrow> x = Inr ()"
  by (simp add: waited_for_def split: sum.splits)

lemma persisted_retry_Inr:
  assumes ok: "db_ok d" and v: "view d r = Some run"
  shows "(\<exists>t. persisted_retry repr r d = Inr t) \<longleftrightarrow> retry_persisted (run_events d r)"
proof -
  let ?retry = "\<lambda>e. ev_event_type e = STEP_RETRY_SCHEDULED"
  have "\<exists>msg t. ev_payload e = StepRetryScheduledPayload msg t" if "find ?retry (run_events d r) = Some e" for e
  proof -
    have "e \<in> set (run_events d r)" "?retry e" using that by (auto simp: find_Some_iff)
    with fold_events_typed [OF reduce_fold(2) [OF db_ok_view(1) [OF ok v]]]
    have "payload_model (ev_payload e) = Some STEP_RETRY_SCHEDULED" by metis
    then show ?thesis by (cases "ev_payload e") simp_all
  qed
  moreover have "retry_persisted (run_events d r) \<longleftrightarrow> find ?retry (run_events d r) \<noteq> None"
    by (auto simp: retry_persisted_def list_ex_iff find_None_iff)
  ultimately show ?thesis
    by (cases "find ?retry (run_events d r)") (auto simp: persisted_retry_def read_api(1) [OF ok v])
qed

lemma print_timelines_ok:
  assumes "db_ok d" and "view d p = Some x" and "view d q = Some y"
  shows "\<exists>ts. print_timelines repr p q d = Inr ts"
  using read_api(2) [OF assms(1,2), of repr] read_api(2) [OF assms(1,3), of repr] by (auto simp: print_timelines_def)

lemma read_run_Inr: "read_run repr r d = Inr run \<longleftrightarrow> view d r = Some run"
proof (cases "view d r")
  case None
  then show ?thesis by (simp add: read_run_def api_get_def respond_def get_of_view)
qed (simp add: read_run_view)

lemma both_completed_Inr: "both_completed repr p q d = Inr True \<longleftrightarrow>
    (\<exists>x y. view d p = Some x \<and> wr_status x = COMPLETED \<and> view d q = Some y \<and> wr_status y = COMPLETED)"
  by (auto simp: both_completed_def rbind_Inr_iff read_run_Inr split: if_splits)

text \<open>The requests of the first stages never fail: they are made of runs that exist.\<close>

lemma start_demo_Inr:
  assumes "dr_paid_response x = Created (RunBody (created_run paid_id t1 tool1 paid_onboarding))"
    and "dr_trial_response x = Created (RunBody (created_run trial_id t2 tool2 trial_activation))"
    and "charge_key = st_operation_key (hd (wr_steps (created_run paid_id t1 tool1 paid_onboarding)))"
  shows "start_demo x = Inr y \<longleftrightarrow> dr_tool_up x = Inr () \<and> dr_api_up x = Inr () \<and> y = (paid_id, trial_id, charge_key)"
proof -
  have "first_step (created_run paid_id t1 tool1 paid_onboarding) =
      Inr (hd (wr_steps (created_run paid_id t1 tool1 paid_onboarding)))"
    by (simp add: first_step_def paid_onboarding_def materialize_def)
  then show ?thesis
    using assms by (auto simp: start_demo_def rbind_Inr_iff waited_for_Inr submitted_body_def)
qed

lemma combined_ledger_reads:
  assumes "\<forall>r \<in> set rs. canonical r = Some r"
  shows "\<exists>total. combined_run_ledger canonical rs t l = Inr total"
  using assms by (induction rs arbitrary: t) (auto simp: ledger_endpoint_def)

lemma crash_demo_Inr:
  assumes ok: "db_ok (dr_retried x)" "db_ok (dr_killed x)"
    and v: "view (dr_retried x) trial_id = Some r" "view (dr_killed x) paid_id = Some p" "view (dr_killed x) trial_id = Some q"
    and "wr_steps p \<noteq> []" and "canonical paid_id = Some paid_id" and "canonical trial_id = Some trial_id"
  shows "crash_demo repr canonical paid_id trial_id x = Inr () \<longleftrightarrow>
    dr_retry_seen x = Inr () \<and> dr_worker_2 x = Some 0 \<and> dr_worker_1 x = Some (- 9) \<and>
    retry_persisted (run_events (dr_retried x) trial_id)"
proof -
  obtain total where "combined_run_ledger canonical [paid_id, trial_id] no_effects (dr_kill_ledger x) = Inr total"
    using combined_ledger_reads [of "[paid_id, trial_id]" canonical] assms(7,8) by fastforce
  moreover obtain ts where "print_timelines repr paid_id trial_id (dr_killed x) = Inr ts"
    using print_timelines_ok [OF ok(2) v(2,3)] by metis
  moreover obtain s where "first_step p = Inr s" using assms(6) by (cases "wr_steps p") (auto simp: first_step_def)
  ultimately show ?thesis
    using persisted_retry_Inr [OF ok(1) v(1), of repr]
    by (auto simp: crash_demo_def rbind_Inr_iff waited_for_Inr expect_exit_Inr read_run_Inr v(2)
        simp del: combined_run_ledger.simps)
qed

text \<open>The throttled retries as the log has them, and the wait that the timeline derives.\<close>

definition throttled_event :: "workflow_run_event \<Rightarrow> bool" where
  "throttled_event e \<longleftrightarrow> (case ev_payload e of
     StepRetryScheduledPayload msg next_attempt_at \<Rightarrow> msg = ''tool throttled the request'' | _ \<Rightarrow> False)"

definition event_wait :: "workflow_run_event \<Rightarrow> int" where
  "event_wait e = (case ev_payload e of
     StepRetryScheduledPayload msg next_attempt_at \<Rightarrow> max 0 (milliseconds (next_attempt_at - ev_occurred_at e)) | _ \<Rightarrow> 0)"

lemma throttles_round:
  assumes "payload_model (ev_payload e) = Some (ev_event_type e)" and "timeline_event repr run origin e m = Inr m'"
  shows "map waited (filter throttle_retry (tm_entries m')) =
    map waited (filter throttle_retry (tm_entries m)) @ map event_wait (filter throttled_event [e])"
  using assms
  by (cases "ev_payload e"; cases "ev_event_type e")
    (auto simp: timeline_event_def parse_payload_def timeline_payload_def base_entry_def throttle_retry_def
      throttled_event_def event_wait_def waited_def Let_def)

lemma throttles_rounds:
  assumes "\<forall>e \<in> set es. payload_model (ev_payload e) = Some (ev_event_type e)"
    and "timeline_events repr run origin es m = Inr m'"
  shows "map waited (filter throttle_retry (tm_entries m')) =
    map waited (filter throttle_retry (tm_entries m)) @ map event_wait (filter throttled_event es)"
  using assms
proof (induction es arbitrary: m)
  case (Cons e es)
  from Cons.prems(2) obtain l where l: "timeline_event repr run origin e m = Inr l"
    "timeline_events repr run origin es l = Inr m'" by (auto simp: rbind_Inr_iff)
  from Cons.prems(1) have "payload_model (ev_payload e) = Some (ev_event_type e)" by simp
  with Cons.IH [OF _ l(2)] Cons.prems(1) throttles_round [OF _ l(1)] show ?case by simp
qed simp

lemma timeline_throttles:
  assumes ok: "db_ok d" and v: "view d r = Some run" and t: "workflow_timeline repr r d = Inr y"
  shows "map waited (filter throttle_retry (tl_entries y)) = map event_wait (filter throttled_event (run_events d r))"
proof -
  let ?es = "run_events d r"
  note red = db_ok_view(1) [OF ok v]
  have "build_timeline repr ?es = Inr y"
    using t list_events_consistent [OF red]
    by (auto simp: workflow_timeline_def api_get_def run_timeline_def respond_def split: sum.splits)
  then obtain m where m: "timeline_events repr run (ev_occurred_at (hd ?es)) ?es timeline_start = Inr m"
    "tl_entries y = tm_entries m"
    using red by (cases ?es) (auto simp: build_timeline_def rbind_Inr_iff simp del: timeline_events.simps)
  have "\<forall>e \<in> set ?es. payload_model (ev_payload e) = Some (ev_event_type e)"
    using fold_events_typed [OF reduce_fold(2) [OF red]] by blast
  from throttles_rounds [OF this m(1)] m(2) show ?thesis by (simp add: timeline_start_def)
qed

text \<open>The last stage, over any execution that completes both runs.\<close>

lemma resume_demo_Inr:
  assumes "reachable digest \<sigma>" and "(sys_step digest)\<^sup>*\<^sup>* \<sigma> \<tau>"
    and "view (sys_db \<sigma>) paid_id = Some (created_run paid_id t1 tool1 paid_onboarding)"
    and "view (sys_db \<sigma>) trial_id = Some (created_run trial_id t2 tool2 trial_activation)"
    and "dr_final x = sys_db \<tau>" and "dr_ledger x = sys_ledger \<tau>"
    and "both_completed repr paid_id trial_id (sys_db \<tau>) = Inr True"
    and "canonical paid_id = Some paid_id" and "canonical trial_id = Some trial_id"
    and "charge_key = st_operation_key (hd (wr_steps (created_run paid_id t1 tool1 paid_onboarding)))"
  shows "resume_demo repr canonical paid_id trial_id charge_key x = Inr () \<longleftrightarrow>
    dr_all_completed x = Inr () \<and> dr_resumed x = Some 0 \<and>
    2 \<le> length (step_attempts ''charge'' (run_events (sys_db \<tau>) paid_id)) \<and>
    2 \<le> length (step_attempts ''provision-trial'' (run_events (sys_db \<tau>) trial_id)) \<and>
    (\<exists>e. filter throttled_event (run_events (sys_db \<tau>) trial_id) = [e] \<and> 1900 \<le> event_wait e)"
proof -
  note ok = sys_okD(1) [OF reachable_ok [OF steps_reachable [OF assms(2,1)]]]
  from assms(7) obtain a b where ab: "view (sys_db \<tau>) paid_id = Some a" "wr_status a = COMPLETED"
    "view (sys_db \<tau>) trial_id = Some b" "wr_status b = COMPLETED" unfolding both_completed_Inr by blast
  obtain readings y where final: "read_demo repr canonical paid_id trial_id (sys_db \<tau>) (sys_ledger \<tau>) = Inr readings"
      "workflow_timeline repr trial_id (sys_db \<tau>) = Inr y"
    and checks: "demo_invariants charge_key readings =
      Inr [(''charge retried after ambiguous commit'',
             2 \<le> length (step_attempts ''charge'' (run_events (sys_db \<tau>) paid_id))),
           (''stable charge key reused'', True),
           (''charge fenced across recovery'',
             2 \<le> length (step_attempts ''charge'' (run_events (sys_db \<tau>) paid_id))),
           (''trial retried'', 2 \<le> length (step_attempts ''provision-trial'' (run_events (sys_db \<tau>) trial_id))),
           (''one targeted 429'', length (filter throttle_retry (tl_entries y)) = 1),
           (''Retry-After honored'', 1900 \<le> sum_list (map waited (filter throttle_retry (tl_entries y)))),
           (''demo-run ledger exact'', True),
           (''history reconstructs projections'', True)]"
    using demo_readings_exact [OF assms(1-4) ab assms(8-10), of repr] by blast
  note waits = timeline_throttles [OF ok ab(3) final(2)]
  have "length (filter throttle_retry (tl_entries y)) = 1 \<and>
      1900 \<le> sum_list (map waited (filter throttle_retry (tl_entries y))) \<longleftrightarrow>
      (\<exists>e. filter throttled_event (run_events (sys_db \<tau>) trial_id) = [e] \<and> 1900 \<le> event_wait e)"
  proof -
    have "length (filter throttle_retry (tl_entries y)) =
        length (filter throttled_event (run_events (sys_db \<tau>) trial_id))"
      using arg_cong [OF waits, of length] by simp
    then show ?thesis unfolding waits by (auto simp: length_Suc_conv)
  qed
  moreover obtain ts where "print_timelines repr paid_id trial_id (sys_db \<tau>) = Inr ts"
    using print_timelines_ok [OF ok ab(1,3)] by metis
  ultimately show ?thesis
    using final checks
    by (auto simp: resume_demo_def rbind_Inr_iff waited_for_Inr expect_exit_Inr assms(5,6) demo_verdict_def Let_def)
qed

text \<open>C10: when the demo passes. Take any execution in which the two runs are submitted and at the
  end completed, whatever crashes, lost answers, takeovers and other runs there were. Then
  \<open>main\<close> raises nothing and prints PASS exactly if nothing was unfinished before, its services
  came up, its waits and exit codes were as expected and the staged schedule really
  happened: a retry of the trial was persisted, charge and trial provisioning were repeated,
  and the trial was throttled once, with a wait of at least 1.9 seconds. The idempotency key, the fencing, the ledger and the
  projections can never be the reason for a failure.\<close>

theorem demo_passes_iff:
  assumes "reachable digest \<sigma>" and "(sys_step digest)\<^sup>*\<^sup>* \<sigma> \<rho>" and "(sys_step digest)\<^sup>*\<^sup>* \<sigma> \<kappa>" and "(sys_step digest)\<^sup>*\<^sup>* \<sigma> \<tau>"
    and "dr_paid_response x = Created (RunBody (created_run paid_id t1 tool1 paid_onboarding))"
    and "dr_trial_response x = Created (RunBody (created_run trial_id t2 tool2 trial_activation))"
    and "view (sys_db \<sigma>) paid_id = Some (created_run paid_id t1 tool1 paid_onboarding)"
    and "view (sys_db \<sigma>) trial_id = Some (created_run trial_id t2 tool2 trial_activation)"
    and "dr_retried x = sys_db \<rho>" and "dr_killed x = sys_db \<kappa>" and "dr_final x = sys_db \<tau>" and "dr_ledger x = sys_ledger \<tau>"
    and "both_completed repr paid_id trial_id (sys_db \<tau>) = Inr True"
    and "canonical paid_id = Some paid_id" and "canonical trial_id = Some trial_id"
  shows "demo_main repr canonical x = Inr () \<longleftrightarrow>
    unfinished_runs (dr_before x) = Inr [] \<and> dr_tool_up x = Inr () \<and> dr_api_up x = Inr () \<and>
    dr_charge_committed x = Inr () \<and> dr_retry_seen x = Inr () \<and> dr_worker_2 x = Some 0 \<and>
    dr_worker_1 x = Some (- 9) \<and> dr_all_completed x = Inr () \<and> dr_resumed x = Some 0 \<and>
    retry_persisted (run_events (sys_db \<rho>) trial_id) \<and>
    2 \<le> length (step_attempts ''charge'' (run_events (sys_db \<tau>) paid_id)) \<and>
    2 \<le> length (step_attempts ''provision-trial'' (run_events (sys_db \<tau>) trial_id)) \<and>
    (\<exists>e. filter throttled_event (run_events (sys_db \<tau>) trial_id) = [e] \<and> 1900 \<le> event_wait e)"
proof -
  let ?paid = "created_run paid_id t1 tool1 paid_onboarding"
  define charge_key where "charge_key = st_operation_key (hd (wr_steps ?paid))"
  note ok = sys_okD(1) [OF reachable_ok [OF steps_reachable [OF _ assms(1)]]]
  obtain r where r: "view (sys_db \<rho>) trial_id = Some r" using run_follows [OF assms(2,1,8)] by metis
  obtain p where p: "view (sys_db \<kappa>) paid_id = Some p" "extends ?paid p" using run_follows [OF assms(3,1,7)] by metis
  obtain q where q: "view (sys_db \<kappa>) trial_id = Some q" using run_follows [OF assms(3,1,8)] by metis
  have "map st_id (wr_steps p) \<noteq> []"
    unfolding extends_columns(1) [OF p(2)] created_columns by (simp add: paid_onboarding_def)
  then have crash: "crash_demo repr canonical paid_id trial_id x = Inr () \<longleftrightarrow>
      dr_retry_seen x = Inr () \<and> dr_worker_2 x = Some 0 \<and> dr_worker_1 x = Some (- 9) \<and>
      retry_persisted (run_events (sys_db \<rho>) trial_id)"
    using crash_demo_Inr [of x trial_id r paid_id p q canonical repr] ok [OF assms(2)] ok [OF assms(3)] r p(1) q
      assms(9,10,14,15) by simp
  note resume = resume_demo_Inr [OF assms(1,4,7,8,11-15) charge_key_def]
  show ?thesis
    using crash resume
    by (auto simp: demo_main_def rbind_Inr_iff refuse_unfinished_Inr waited_for_Inr
        start_demo_Inr [OF assms(5,6) charge_key_def])
qed

section \<open>The drained worker\<close>

text \<open>The steps of a submission that have no dependencies are the only ones a first claim returns.\<close>

lemma first_claim:
  assumes ok: "db_ok d" and v: "view d r = Some (created_run r created_at tool wd)"
    and others: "\<And>q. q \<noteq> r \<Longrightarrow> run_status d q \<noteq> Some RUNNING"
    and sel: "select_runnable d now True = Some row"
  shows "sr_run_id row = r" and "get_step_row d r (sr_id row) = Inr row" and "sr_attempts row = 0"
    and "\<exists>s \<in> set (wr_steps (created_run r created_at tool wd)). st_id s = sr_id row \<and> st_depends_on s = []"
proof -
  note row = selected_row [OF ok sel]
  show r: "sr_run_id row = r" using row(4) others by (auto simp: run_is_running_status)
  show get: "get_step_row d r (sr_id row) = Inr row" using row(1) r by simp
  let ?s = "step_from_row row (dependencies d r)" and ?ss = "wr_steps (created_run r created_at tool wd)"
  have s: "?s \<in> set ?ss" by (rule step_in_view [OF v get])
  then show "sr_attempts row = 0" by (auto simp: new_step_def dest: arg_cong [of _ _ st_attempts])
  have "completed_ids ?ss = []" by (auto simp: completed_ids_def filter_empty_conv new_step_def)
  moreover have "eligible d now True row" "row \<in> set (db_steps d)" using select_runnable_Some [OF sel] by blast+
  ultimately have "st_depends_on ?s = []" using eligible_iff [OF ok v _ r, of now] by simp
  with s show "\<exists>s \<in> set ?ss. st_id s = sr_id row \<and> st_depends_on s = []"
    by (intro bexI [of _ ?s]) simp_all
qed

lemma created_pending:
  assumes "view d r = Some (created_run r created_at tool wd)" and "s \<in> set (db_steps d)" and "sr_run_id s = r"
  shows "sr_status s = STEP_PENDING" and "sr_attempts s = 0"
proof -
  have "step_from_row s (dependencies d r) \<in> set (map (\<lambda>s. step_from_row s (dependencies d r)) (run_step_rows d r))"
    using assms(2,3) by (auto simp: set_run_step_rows)
  then have "step_from_row s (dependencies d r) \<in> set (wr_steps (created_run r created_at tool wd))"
    unfolding wr_steps_view [OF assms(1)] .
  then show "sr_status s = STEP_PENDING" and "sr_attempts s = 0"
    by (auto simp: new_step_def dest: arg_cong [of _ _ st_status] arg_cong [of _ _ st_attempts])
qed

lemma created_open_steps:
  assumes v: "view d r = Some (created_run r created_at tool wd)"
    and others: "\<And>q. q \<noteq> r \<Longrightarrow> run_status d q \<noteq> Some RUNNING"
  shows "open_steps d = length (wd_steps wd)"
proof -
  have "sr_status s \<noteq> STEP_COMPLETED \<and> run_is_running d (sr_run_id s) \<longleftrightarrow> sr_run_id s = r" if "s \<in> set (db_steps d)" for s
    using created_pending(1) [OF v that] others view_run_status [OF v] by (auto simp: run_is_running_status)
  then have "filter (\<lambda>s. sr_status s \<noteq> STEP_COMPLETED \<and> run_is_running d (sr_run_id s)) (db_steps d) =
      filter (\<lambda>s. sr_run_id s = r) (db_steps d)" by (intro filter_cong) auto
  then have "open_steps d = length (run_step_rows d r)" by (simp add: open_steps_def run_step_rows_def)
  also have "\<dots> = length (map st_id (wr_steps (created_run r created_at tool wd)))"
    unfolding wr_steps_view [OF v] by simp
  also have "\<dots> = length (wd_steps wd)" unfolding created_columns by simp
  finally show ?thesis .
qed

text \<open>Rows that a write on another step of the run leaves alone.\<close>

lemma other_steps_pending:
  assumes v: "view d r = Some (created_run r created_at tool wd)" and v1: "view d1 r = Some run1"
    and rows: "db_steps d1 = update_where (\<lambda>s. sr_run_id s = r \<and> sr_id s = i) f (db_steps d)"
    and f: "\<And>s. sr_id (f s) = sr_id s" and s: "s \<in> set (wr_steps run1)" "st_id s \<noteq> i"
  shows "st_status s = STEP_PENDING" and "st_attempts s = 0"
proof -
  from s(1) obtain x where x: "s = step_from_row x (dependencies d1 r)" "x \<in> set (db_steps d1)" "sr_run_id x = r"
    unfolding wr_steps_view [OF v1] by (auto simp: set_run_step_rows)
  have "sr_id x \<noteq> i" using s(2) by (simp add: x(1))
  with x(2) rows f have "x \<in> set (db_steps d)" by (auto simp: set_update_where)
  from created_pending [OF v this x(3)] show "st_status s = STEP_PENDING" and "st_attempts s = 0"
    by (simp_all add: x(1))
qed

text \<open>A worker whose loop is entered in one healthy round and is told to stop before the next check
  completes the root of the graph, whatever rounds would follow.\<close>

lemma drained_tick:
  assumes ok: "db_ok d" and v: "view d r = Some (created_run r created_at tool paid_onboarding)"
    and others: "\<And>q. q \<noteq> r \<Longrightarrow> run_status d q \<noteq> Some RUNNING"
    and quiet: "quiet d T" and tick: "healthy_tick cfg T (t, gateway)" and crash: "es_crash_at cfg = None"
    and begun: "po_signals begun = []" "po_tick begun = (t, gateway)" and stopped: "po_signals stopped \<noteq> []"
  obtains d1 run1 s1 ss where "poll_forever cfg worker (begun # stopped # later) False d = Some (ExitCode 0, d1)"
    and "db_ok d1" and "quiet d1 (rc_release t)" and "open_steps d1 = 2" and "view d1 r = Some run1"
    and "wr_status run1 = RUNNING" and "wr_steps run1 = s1 # ss" and "st_id s1 = ''charge''"
    and "st_status s1 = STEP_COMPLETED" and "st_attempts s1 = 1"
    and "\<forall>s \<in> set ss. st_status s = STEP_PENDING \<and> st_attempts s = 0"
proof -
  obtain s d1 row res where once: "run_once cfg worker t gateway d = (Finished (Inr (did_step s)), d1)"
    and d1: "db_ok d1" "quiet d1 (rc_release t)" "Suc (open_steps d1) = open_steps d" "only_completes d d1"
      "log_grows d d1" and sel: "select_runnable d (rc_claim t) True = Some row"
    and rows: "db_steps d1 = update_where (\<lambda>s. sr_run_id s = sr_run_id row \<and> sr_id s = sr_id row) (finished_row t row res) (db_steps d)"
    and status: "\<And>r. run_status d1 r = (if r = sr_run_id row \<and> remaining_steps d1 r = 0 then Some COMPLETED else run_status d r)"
    using run_once_healthy [OF ok quiet tick crash v created_run_simps(2), of worker thesis] by blast
  note claim = first_claim [OF ok v others sel]
  have charge: "sr_id row = ''charge''"
    using claim(4) by (auto simp: paid_onboarding_def materialize_def new_step_def)
  obtain run1 where v1: "view d1 r = Some run1" and ext: "extends (created_run r created_at tool paid_onboarding) run1"
    by (rule view_extends [OF ok d1(1,5) v])
  have ids: "map st_id (wr_steps run1) = [''charge'', ''provision'', ''notify'']"
    unfolding extends_columns(1) [OF ext] created_columns by (simp add: paid_onboarding_def)
  then obtain s1 ss where steps: "wr_steps run1 = s1 # ss" "st_id s1 = ''charge''"
    "\<forall>x \<in> set ss. st_id x \<noteq> ''charge''" by (auto simp: map_eq_Cons_conv)
  have "get_step_row d1 r (sr_id row) = Inr (finished_row t row res row)"
    using get_step_row_update [OF claim(2), of "finished_row t row res"] rows claim(1)
    by (simp add: get_step_row_def update_step_def)
  from step_in_view [OF v1 this] steps charge
  have s1: "s1 = step_from_row (finished_row t row res row) (dependencies d1 r)"
    by (metis finished_row_simps(2) set_ConsD step_from_row_simps(1))
  have "''provision'' \<in> set (map st_id (wr_steps (created_run r created_at tool paid_onboarding)))"
    unfolding created_columns by (simp add: paid_onboarding_def)
  then obtain x where x: "x \<in> set (db_steps d)" "sr_run_id x = r" "sr_id x = ''provision''"
    unfolding wr_steps_view [OF v] by (auto simp: set_run_step_rows)
  then have "x \<in> set (db_steps d1)" using charge by (auto simp: rows set_update_where)
  then have "remaining_steps d1 r \<noteq> 0"
    using x created_pending(1) [OF v x(1,2)] by (auto simp: remaining_steps_def filter_empty_conv)
  then have running: "wr_status run1 = RUNNING"
    using status [of r] view_run_status [OF v] view_run_status [OF v1] by simp
  have "open_steps d1 = 2" using d1(3) created_open_steps [OF v others] by (simp add: paid_onboarding_def)
  moreover have "poll_forever cfg worker (begun # stopped # later) False d = Some (ExitCode 0, d1)"
    using begun stopped by (simp add: once)
  moreover have "\<forall>s \<in> set ss. st_status s = STEP_PENDING \<and> st_attempts s = 0"
    using other_steps_pending [OF v v1, of "''charge''" "finished_row t row res"] rows claim(1) charge steps(1,3) by simp
  ultimately show thesis
    using that [OF _ d1(1,2) _ v1 running steps(1,2)] claim(3) by (simp add: s1)
qed

text \<open>When the stages of the drain pass.\<close>

lemma check_drained_Inr: "check_drained repr r d = Inr () \<longleftrightarrow>
    (\<exists>run s ss. view d r = Some run \<and> wr_status run = RUNNING \<and> wr_steps run = s # ss \<and> st_status s = STEP_COMPLETED)"
proof (cases "view d r")
  case None
  then show ?thesis by (simp add: check_drained_def read_run_def api_get_def respond_def get_of_view)
next
  case (Some run)
  then show ?thesis by (cases "wr_steps run") (simp_all add: check_drained_def read_run_view first_step_def)
qed

lemma stop_drain_Inr:
  assumes "db_ok (snd (gr_drained x))"
  shows "stop_drain repr r x = Inr () \<longleftrightarrow> gr_charge_committed x = Inr () \<and> gr_polled x = None \<and>
    fst (gr_drained x) = Some 0 \<and> check_drained repr r (snd (gr_drained x)) = Inr ()"
proof -
  have "\<exists>y. workflow_timeline repr r (snd (gr_drained x)) = Inr y" if "check_drained repr r (snd (gr_drained x)) = Inr ()"
    using that read_api(2) [OF assms] unfolding check_drained_Inr by blast
  then show ?thesis by (auto simp: stop_drain_def rbind_Inr_iff waited_for_Inr expect_exit_Inr)
qed

lemma submit_drain_Inr:
  assumes "gr_response x = Created (RunBody (created_run r now tool wd))"
  shows "submit_drain x = Inr r' \<longleftrightarrow> gr_tool_up x = Inr () \<and> gr_api_up x = Inr () \<and> r' = r"
  by (auto simp: submit_drain_def rbind_Inr_iff waited_for_Inr submitted_body_def assms)

text \<open>When the graceful drain passes: take any execution from the reading of the baseline in
  which the run is submitted and at the end completed and no other run has an effect in the
  ledger, whatever else happens. Then \<open>main\<close> raises nothing exactly if nothing was
  unfinished, the waits and exit codes are as expected, the drained worker left the run
  open with its charge completed, and the charge was attempted once. The ledger delta and
  the projection can never be the reason for a failure.\<close>

theorem drain_main_iff:
  assumes "reachable digest \<sigma>" and "r \<notin> run_ids (sys_db \<sigma>)" and "(sys_step digest)\<^sup>*\<^sup>* \<sigma> \<upsilon>"
    and "view (sys_db \<upsilon>) r = Some (created_run r now tool paid_onboarding)"
    and "(sys_step digest)\<^sup>*\<^sup>* \<upsilon> \<kappa>" and "(sys_step digest)\<^sup>*\<^sup>* \<upsilon> \<tau>"
    and "view (sys_db \<tau>) r = Some run" and "wr_status run = COMPLETED"
    and "other_effects r (sys_ledger \<tau>) = other_effects r (sys_ledger \<sigma>)"
    and "gr_response x = Created (RunBody (created_run r now tool paid_onboarding))"
    and "gr_baseline x = sys_ledger \<sigma>" and "snd (gr_drained x) = sys_db \<kappa>"
    and "snd (gr_resumed x) = sys_db \<tau>" and "gr_ledger x = sys_ledger \<tau>"
  shows "drain_main repr x = Inr () \<longleftrightarrow> unfinished_runs (gr_before x) = Inr [] \<and> gr_tool_up x = Inr () \<and>
    gr_api_up x = Inr () \<and> gr_charge_committed x = Inr () \<and> gr_polled x = None \<and> fst (gr_drained x) = Some 0 \<and>
    (\<exists>p s ss. view (sys_db \<kappa>) r = Some p \<and> wr_status p = RUNNING \<and> wr_steps p = s # ss \<and> st_status s = STEP_COMPLETED) \<and>
    fst (gr_resumed x) = Some 0 \<and> length (step_attempts ''charge'' (run_events (sys_db \<tau>) r)) = 1"
proof -
  have "db_ok (sys_db \<kappa>)"
    using sys_okD(1) [OF reachable_ok] steps_reachable [OF assms(5) steps_reachable [OF assms(3,1)]] by blast
  then have stop: "stop_drain repr r x = Inr () \<longleftrightarrow> gr_charge_committed x = Inr () \<and> gr_polled x = None \<and>
      fst (gr_drained x) = Some 0 \<and> check_drained repr r (sys_db \<kappa>) = Inr ()"
    using stop_drain_Inr [of x repr r] assms(12) by simp
  have "drain_verdict repr r (summary None (gr_baseline x)) (snd (gr_resumed x)) (gr_ledger x) = Inr () \<longleftrightarrow>
      length (step_attempts ''charge'' (run_events (sys_db \<tau>) r)) = 1"
    using drain_verdict_exact [OF assms(1-4,6-9)] by (simp add: assms(11,13,14))
  with stop show ?thesis
    unfolding drain_main_def resume_drain_def
    by (auto simp: rbind_Inr_iff refuse_unfinished_Inr submit_drain_Inr [OF assms(10)] expect_exit_Inr check_drained_Inr)
qed

text \<open>C12: the graceful drain does what the script wants. Take a sound database in which the run
  has just been submitted, every other run has ended and no deadline is ahead, a tool that
  answers and rounds of the workers in which no lease expires within an attempt. A worker
  that receives a signal during its first request (that is before the second check of its
  flag, whatever it could do in the rounds after it) completes the charge, exits with 0 and
  leaves every other step pending and unattempted. A second worker, started for the run,
  then completes it within three rounds before its deadline and exits with 0, and the charge
  has been attempted once. If these are the workers that \<open>main\<close> observes, it passes exactly
  if nothing was unfinished before, its waits succeed and the ledger, which is not the
  engine's, has grown by one effect of each kind.\<close>

theorem drain_passes:
  assumes "db_ok d" and "view d r = Some (created_run r created_at tool paid_onboarding)"
    and "\<And>q. q \<noteq> r \<Longrightarrow> run_status d q \<noteq> Some RUNNING" and "quiet d T"
    and "healthy_ticks cfg T (map po_tick (begun # resumed))" and "es_crash_at cfg = None"
    and "po_signals begun = []" and "po_signals stopped \<noteq> []"
    and "list_all (admitted (Some until)) resumed" and "length resumed = 3"
  shows "\<exists>d1 d2 run1 s1 ss. poll_forever cfg worker (begun # stopped # later) False d = Some (ExitCode 0, d1) \<and>
    view d1 r = Some run1 \<and> wr_status run1 = RUNNING \<and> wr_steps run1 = s1 # ss \<and>
    st_id s1 = ''charge'' \<and> st_status s1 = STEP_COMPLETED \<and> st_attempts s1 = 1 \<and>
    (\<forall>s \<in> set ss. st_status s = STEP_PENDING \<and> st_attempts s = 0) \<and>
    poll_until_terminal cfg worker' r until (resumed @ later') False d1 = Some (ExitCode 0, d2) \<and>
    length (step_attempts ''charge'' (run_events d2 r)) = 1 \<and>
    (\<forall>x. gr_response x = Created (RunBody (created_run r created_at tool paid_onboarding)) \<longrightarrow>
       gr_polled x = None \<longrightarrow> gr_drained x = (Some (return_code (ExitCode 0)), d1) \<longrightarrow>
       gr_resumed x = (Some (return_code (ExitCode 0)), d2) \<longrightarrow>
       (drain_main repr x = Inr () \<longleftrightarrow> unfinished_runs (gr_before x) = Inr [] \<and> gr_tool_up x = Inr () \<and>
          gr_api_up x = Inr () \<and> gr_charge_committed x = Inr () \<and>
          ledger_delta (summary None (gr_ledger x)) (summary None (gr_baseline x)) = (1, 1, 1)))"
proof -
  obtain t gateway where first: "po_tick begun = (t, gateway)" by fastforce
  with assms(5) have tick: "healthy_tick cfg T (t, gateway)" by simp
  obtain d1 run1 s1 ss where d1: "poll_forever cfg worker (begun # stopped # later) False d = Some (ExitCode 0, d1)"
      "db_ok d1" "quiet d1 (rc_release t)" "open_steps d1 = 2"
    and run1: "view d1 r = Some run1" "wr_status run1 = RUNNING" "wr_steps run1 = s1 # ss"
    and s1: "st_id s1 = ''charge''" "st_status s1 = STEP_COMPLETED" "st_attempts s1 = 1"
    and ss: "\<forall>s \<in> set ss. st_status s = STEP_PENDING \<and> st_attempts s = 0"
    by (rule drained_tick [OF assms(1-4) tick assms(6,7) first assms(8)])
  have "get_workflow_run r d1 = Inr run1" using run1(1) by (simp add: get_of_view)
  from healthy_ticks_complete [OF d1(2,3) _ assms(6) this, of "map po_tick resumed" worker'] assms(5,10) run1(2) d1(4) first
  obtain d2 run2 where d2: "run_until_terminal cfg worker' r (map po_tick resumed) d1 = (ExitCode 0, d2)"
    "db_ok d2" "log_grows d1 d2" by auto
  note polled = poll_until_admitted [OF d2(1) assms(9), of later']
  obtain run where v: "view d2 r = Some run" and ext: "extends run1 run"
    by (rule view_extends [OF d1(2) d2(2,3) run1(1)])
  have "s1 \<in> set (wr_steps run)" using ext s1(2) run1(3) by (auto simp: extends_def)
  from read_attempts(1) [OF d2(2) v this refl] s1
  have once: "length (step_attempts ''charge'' (run_events d2 r)) = 1" by simp
  have drained: "check_drained repr r d1 = Inr ()" using run1 s1(2) by (simp add: check_drained_Inr)
  obtain y where "workflow_timeline repr r d2 = Inr y" using read_api(2) [OF d2(2) v] by blast
  then have verdict: "drain_verdict repr r baseline d2 l = Inr () \<longleftrightarrow> ledger_delta (summary None l) baseline = (1, 1, 1)"
    for baseline l
    using once by (simp add: drain_verdict_def read_api(1,3) [OF d2(2) v] storage_value_def)
  have "drain_main repr x = Inr () \<longleftrightarrow> unfinished_runs (gr_before x) = Inr [] \<and> gr_tool_up x = Inr () \<and>
      gr_api_up x = Inr () \<and> gr_charge_committed x = Inr () \<and>
      ledger_delta (summary None (gr_ledger x)) (summary None (gr_baseline x)) = (1, 1, 1)"
    if x: "gr_response x = Created (RunBody (created_run r created_at tool paid_onboarding))"
      "gr_polled x = None" "gr_drained x = (Some (return_code (ExitCode 0)), d1)"
      "gr_resumed x = (Some (return_code (ExitCode 0)), d2)" for x
    using stop_drain_Inr [of x repr r] d1(2) x(2-4) drained verdict
    by (auto simp: drain_main_def resume_drain_def rbind_Inr_iff refuse_unfinished_Inr submit_drain_Inr [OF x(1)]
        expect_exit_Inr)
  with d1(1) polled run1 s1 ss once show ?thesis by blast
qed

end
