(* ===== verification/Services.thy ===== *)
theory Services
  imports Api Tool_Service
begin

text \<open>
  The two services as processes: \<open>create_app\<close> of \<open>crashsafe/api.py\<close>, and \<open>run\<close> of \<open>crashsafe/api.py\<close> and of
  \<open>crashsafe/mock_tool.py\<close>, from the environment to the address they listen on and the
  database they serve. The server itself is the framework's.
\<close>

record api_process =
  ap_database :: path
  ap_tool_key :: string
  ap_host :: string
  ap_port :: int

definition api_run :: "environment \<Rightarrow> config_error + api_process" where
  "api_run env =
     rbind (int_env env ''CRASHSAFE_API_PORT'' (show_int 8000)) (\<lambda>port.
     rbind (from_env env) (\<lambda>s.
       Inr \<lparr>ap_database = se_engine_db s, ap_tool_key = se_tool_key s, ap_host = ''127.0.0.1'', ap_port = port\<rparr>))"

record tool_process =
  tp_app :: tool_app
  tp_state :: tool_state
  tp_host :: string
  tp_port :: int

definition tool_run :: "environment \<Rightarrow> ledger \<Rightarrow> tool_config_error + tool_process" where
  "tool_run env l =
     rbind (tool_settings (int_env env ''CRASHSAFE_TOOL_PORT'' (show_int 8001))) (\<lambda>port.
     rbind (create_app env l) (\<lambda>(app, t).
       Inr \<lparr>tp_app = app, tp_state = t, tp_host = ''127.0.0.1'', tp_port = port\<rparr>))"

text \<open>By default the workers look for the tool where it listens; a tool on another port takes
  them along unless their URL is set on its own.\<close>

lemma tool_where_expected:
  assumes "from_env env = Inr s" and "tool_run env l = Inr p" and "env ''CRASHSAFE_TOOL_URL'' = None"
  shows "se_tool_base_url s = ''http://'' @ tp_host p @ '':'' @ show_int (tp_port p)"
proof -
  from assms(2) obtain port where port: "int_env env ''CRASHSAFE_TOOL_PORT'' (show_int 8001) = Inr port"
    "tp_port p = port" "tp_host p = ''127.0.0.1''"
    by (auto simp: tool_run_def tool_settings_def rbind_Inr_iff split: sum.splits)
  from assms(1) port(1) have "se_tool_base_url s = getenv env ''CRASHSAFE_TOOL_URL'' (''http://127.0.0.1:'' @ show_int port)"
    by (auto simp: from_env_def rbind_Inr_iff Let_def)
  with port(2,3) assms(3) show ?thesis by (simp add: getenv_def)
qed

end
