(* ===== verification/Script_Processes.thy ===== *)
theory Script_Processes
  imports Staging Worker_Process Services "HOL-Library.Sublist"
begin

text \<open>
  The processes of \<open>scripts/demo.py\<close> and \<open>scripts/graceful_drain.py\<close>: which ones \<open>main\<close> starts
  between its stages, with which arguments and environment, and the \<open>finally\<close> that kills
  what is still running. A script is a function of the children it has started; starting a
  process succeeds, and the stages in between are those of \<open>Staging\<close>.
\<close>

section \<open>Scripts\<close>

record child =
  ch_module :: string
  ch_args :: "string list"
  ch_environment :: environment

type_synonym 'a script = "child list \<Rightarrow> (script_error + 'a) \<times> child list"

definition sbind :: "'a script \<Rightarrow> ('a \<Rightarrow> 'b script) \<Rightarrow> 'b script" where
  "sbind m f = (\<lambda>cs. case m cs of (Inl e, cs) \<Rightarrow> (Inl e, cs) | (Inr x, cs) \<Rightarrow> f x cs)"

definition stage :: "script_error + 'a \<Rightarrow> 'a script" where
  "stage x = (\<lambda>cs. (x, cs))"

definition spawn_child :: "string \<Rightarrow> string list \<Rightarrow> environment \<Rightarrow> unit script" where
  "spawn_child program args env =
     (\<lambda>cs. (Inr (), cs @ [\<lparr>ch_module = program, ch_args = args, ch_environment = env\<rparr>]))"

text \<open>The \<open>finally\<close>: the children are known by their position; those that run are killed.\<close>

definition kill_children :: "(nat \<Rightarrow> int option) \<Rightarrow> child list \<Rightarrow> signal list" where
  "kill_children poll cs = map Kill (filter (\<lambda>h. poll h = None) [0..<length cs])"

definition start_services :: "environment \<Rightarrow> unit script" where
  "start_services env =
     sbind (spawn_child ''crashsafe.mock_tool'' [] env) (\<lambda>_. spawn_child ''crashsafe.api'' [] env)"

definition demo_script :: "(json \<Rightarrow> string) \<Rightarrow> (string \<Rightarrow> string option) \<Rightarrow> environment \<Rightarrow> demo_run \<Rightarrow> unit script" where
  "demo_script repr canonical env x =
     sbind (stage (refuse_unfinished (dr_before x))) (\<lambda>_.
     sbind (start_services env) (\<lambda>_.
     sbind (stage (start_demo x)) (\<lambda>(paid_id, trial_id, charge_key).
     sbind (spawn_child ''crashsafe.worker'' [''--until-terminal'', paid_id] (worker_environment ''worker-1'' True env)) (\<lambda>_.
     sbind (stage (waited_for (dr_charge_committed x))) (\<lambda>_.
     sbind (spawn_child ''crashsafe.worker'' [''--once''] (worker_environment ''worker-2'' False env)) (\<lambda>_.
     sbind (stage (crash_demo repr canonical paid_id trial_id x)) (\<lambda>_.
     sbind (spawn_child ''crashsafe.worker'' [] (worker_environment ''worker-resumed'' False env)) (\<lambda>_.
       stage (resume_demo repr canonical paid_id trial_id charge_key x)))))))))"

definition drain_script :: "(json \<Rightarrow> string) \<Rightarrow> environment \<Rightarrow> drain_run \<Rightarrow> unit script" where
  "drain_script repr env x =
     sbind (stage (refuse_unfinished (gr_before x))) (\<lambda>_.
     sbind (start_services env) (\<lambda>_.
     sbind (stage (submit_drain x)) (\<lambda>r.
     sbind (spawn_child ''crashsafe.worker'' [] (worker_environment ''worker-draining'' True env)) (\<lambda>_.
     sbind (stage (stop_drain repr r x)) (\<lambda>_.
     sbind (spawn_child ''crashsafe.worker'' [''--until-terminal'', r] (worker_environment ''worker-resumed'' False env)) (\<lambda>_.
       stage (resume_drain repr r x)))))))"

text \<open>\<open>main\<close>: what it raises, the children it started, and the signals of its \<open>finally\<close>.\<close>

definition run_script :: "unit script \<Rightarrow> (nat \<Rightarrow> int option) \<Rightarrow> (script_error + unit) \<times> child list \<times> signal list" where
  "run_script m poll = (case m [] of (res, cs) \<Rightarrow> (res, cs, kill_children poll cs))"

section \<open>Results\<close>

text \<open>The children do not matter to the result of the stages, and stay once they are started.\<close>

lemma sbind_stage: "sbind (stage x) f cs = (case x of Inl e \<Rightarrow> (Inl e, cs) | Inr y \<Rightarrow> f y cs)"
  by (simp add: sbind_def stage_def split: sum.split)

lemma sbind_spawn: "sbind (spawn_child program args env) f cs =
    f () (cs @ [\<lparr>ch_module = program, ch_args = args, ch_environment = env\<rparr>])"
  by (simp add: sbind_def spawn_child_def)

lemma sbind_services: "sbind (start_services env) f cs =
    f () (cs @ [\<lparr>ch_module = ''crashsafe.mock_tool'', ch_args = [], ch_environment = env\<rparr>,
      \<lparr>ch_module = ''crashsafe.api'', ch_args = [], ch_environment = env\<rparr>])"
  by (simp add: start_services_def sbind_def spawn_child_def)

lemma stage_result: "stage x cs = (x, cs)"
  by (simp add: stage_def)

lemmas script_simps = sbind_stage sbind_spawn sbind_services stage_result

lemma demo_script_result: "fst (demo_script repr canonical env x cs) = demo_main repr canonical x"
  by (simp add: demo_script_def demo_main_def script_simps rbind_def split: sum.split prod.split)

lemma drain_script_result: "fst (drain_script repr env x cs) = drain_main repr x"
  by (simp add: drain_script_def drain_main_def script_simps rbind_def split: sum.split)

text \<open>The children of the demo, in their order; a failed stage leaves the first of them.\<close>

definition demo_children :: "environment \<Rightarrow> string \<Rightarrow> child list" where
  "demo_children env paid_id =
     [\<lparr>ch_module = ''crashsafe.mock_tool'', ch_args = [], ch_environment = env\<rparr>,
      \<lparr>ch_module = ''crashsafe.api'', ch_args = [], ch_environment = env\<rparr>,
      \<lparr>ch_module = ''crashsafe.worker'', ch_args = [''--until-terminal'', paid_id],
        ch_environment = worker_environment ''worker-1'' True env\<rparr>,
      \<lparr>ch_module = ''crashsafe.worker'', ch_args = [''--once''],
        ch_environment = worker_environment ''worker-2'' False env\<rparr>,
      \<lparr>ch_module = ''crashsafe.worker'', ch_args = [],
        ch_environment = worker_environment ''worker-resumed'' False env\<rparr>]"

lemma demo_script_children:
  "\<exists>paid_id. prefix (snd (demo_script repr canonical env x [])) (demo_children env paid_id)"
  by (auto simp: demo_script_def demo_children_def script_simps split: sum.split prod.split)

lemma demo_script_passed:
  assumes "fst (demo_script repr canonical env x []) = Inr ()"
  shows "\<exists>paid_id. snd (demo_script repr canonical env x []) = demo_children env paid_id"
  using assms by (auto simp: demo_script_def demo_children_def script_simps split: sum.splits prod.splits)

text \<open>The children of the drain; it passes only after all four have been started.\<close>

definition drain_children :: "environment \<Rightarrow> string \<Rightarrow> child list" where
  "drain_children env r =
     [\<lparr>ch_module = ''crashsafe.mock_tool'', ch_args = [], ch_environment = env\<rparr>,
      \<lparr>ch_module = ''crashsafe.api'', ch_args = [], ch_environment = env\<rparr>,
      \<lparr>ch_module = ''crashsafe.worker'', ch_args = [], ch_environment = worker_environment ''worker-draining'' True env\<rparr>,
      \<lparr>ch_module = ''crashsafe.worker'', ch_args = [''--until-terminal'', r],
        ch_environment = worker_environment ''worker-resumed'' False env\<rparr>]"

lemma drain_script_children:
  "\<exists>r. prefix (snd (drain_script repr env x [])) (drain_children env r) \<and>
    (fst (drain_script repr env x []) = Inr () \<longrightarrow> snd (drain_script repr env x []) = drain_children env r)"
  by (auto simp: drain_script_def drain_children_def script_simps split: sum.split)

section \<open>Isolation\<close>

text \<open>The variables that a worker's environment adds are no settings.\<close>

lemma lookup_other:
  assumes "k \<noteq> key"
  shows "getenv (E(key \<mapsto> text)) k d = getenv E k d" and "nonempty_env (E(key \<mapsto> text)) k = nonempty_env E k"
    and "int_env (E(key \<mapsto> text)) k d' = int_env E k d'" and "float_env (E(key \<mapsto> text)) k d = float_env E k d"
  using assms by (simp_all add: getenv_def nonempty_env_def int_env_def float_env_def)

lemma ledger_path_other:
  "''CRASHSAFE_LEDGER_DB'' \<noteq> key \<Longrightarrow> ''CRASHSAFE_TOOL_DB'' \<noteq> key \<Longrightarrow> ledger_path (E(key \<mapsto> text)) = ledger_path E"
  by (simp add: ledger_path_def lookup_other split: option.split)

lemma from_env_other:
  assumes "key = ''CRASHSAFE_WORKER_ID'' \<or> key = ''CRASHSAFE_DELAY_AFTER_TOOL_COMMIT''"
  shows "from_env (E(key \<mapsto> text)) = from_env E"
  using assms
  by (elim disjE) (simp_all add: from_env_def ledger_path_other lookup_other)

lemma from_worker_environment: "from_env (worker_environment name delays E) = from_env E"
  by (simp add: worker_environment_def from_env_other)

lemma worker_environment_lookup:
  "worker_environment name delays E ''CRASHSAFE_WORKER_ID'' = Some name"
  "worker_environment name delays E ''CRASHSAFE_DELAY_AFTER_TOOL_COMMIT'' =
    (if delays then Some ''charge'' else E ''CRASHSAFE_DELAY_AFTER_TOOL_COMMIT'')"
  "worker_environment name delays E ''CRASHSAFE_CRASH_AT'' = E ''CRASHSAFE_CRASH_AT''"
  by (simp_all add: worker_environment_def)

lemma prefix_set: "prefix xs ys \<Longrightarrow> x \<in> set xs \<Longrightarrow> x \<in> set ys"
  by (auto simp: prefix_def)

lemma prefix_distinct: "prefix xs ys \<Longrightarrow> distinct (map f (filter P ys)) \<Longrightarrow> distinct (map f (filter P xs))"
  by (auto simp: prefix_def)

text \<open>What the services and the workers of the demo read from its environment.\<close>

lemma demo_services:
  assumes "0 \<le> tool_port" and "tool_port < 65536" and "0 \<le> api_port" and "api_port < 65536"
    and "E = demo_environment state signal api_port tool_port env"
  shows "api_run E = Inr \<lparr>ap_database = Child (Resolve (PathText state)) ''engine.db'', ap_tool_key = ''mock-tool'',
      ap_host = ''127.0.0.1'', ap_port = api_port\<rparr>"
    and "tool_run E l = Inr \<lparr>tp_app = \<lparr>ta_flaky_rate = Finite 0, ta_retry_after = Finite (to_double 2),
        ta_forced_operation = Some PROVISION\<rparr>,
      tp_state = \<lparr>ts_ledger = l, ts_forced_failures = 0, ts_operation_pending = True\<rparr>,
      tp_host = ''127.0.0.1'', tp_port = tool_port\<rparr>"
proof -
  note iso = demo_isolated [OF assms(1,2,5), of l]
  have "E ''CRASHSAFE_API_PORT'' = Some (show_int api_port)" by (simp add: assms(5) demo_environment_def)
  then have "int_env E ''CRASHSAFE_API_PORT'' (show_int 8000) = Inr api_port"
    by (simp add: int_env_def getenv_def port_text [OF assms(3,4)])
  with iso show "api_run E = Inr \<lparr>ap_database = Child (Resolve (PathText state)) ''engine.db'', ap_tool_key = ''mock-tool'',
      ap_host = ''127.0.0.1'', ap_port = api_port\<rparr>"
    by (simp add: api_run_def demo_settings_def)
  have "int_env E ''CRASHSAFE_TOOL_PORT'' (show_int 8001) = Inr tool_port"
    using demo_lookups(2) [OF assms(5)] by (simp add: int_env_def getenv_def port_text [OF assms(1,2)])
  with iso show "tool_run E l = Inr \<lparr>tp_app = \<lparr>ta_flaky_rate = Finite 0, ta_retry_after = Finite (to_double 2),
        ta_forced_operation = Some PROVISION\<rparr>,
      tp_state = \<lparr>ts_ledger = l, ts_forced_failures = 0, ts_operation_pending = True\<rparr>,
      tp_host = ''127.0.0.1'', tp_port = tool_port\<rparr>"
    by (simp add: tool_run_def tool_settings_def)
qed

text \<open>C40: the processes of the demo. Whatever the shell exports and wherever \<open>main\<close> stops, every
  process it has started reads the demo's own settings and crashes nowhere by itself; the API
  and the tool listen where the script and the workers look for them, and the tool throttles the
  first provisioning and nothing at random; no two workers have the same
  name, and only worker 1 delays. All five have been started when it passes. In the end it
  kills the processes that still run, and no others.\<close>

theorem demo_processes:
  assumes "0 \<le> tool_port" and "tool_port < 65536" and "0 \<le> api_port" and "api_port < 65536"
    and "E = demo_environment state signal api_port tool_port env"
    and "run_script (demo_script repr canonical E x) poll = (res, cs, sent)"
  shows "res = demo_main repr canonical x \<and>
    (\<forall>c \<in> set cs. from_env (ch_environment c) = Inr (demo_settings state tool_port) \<and>
       ch_environment c ''CRASHSAFE_CRASH_AT'' = None \<and>
       (ch_environment c ''CRASHSAFE_DELAY_AFTER_TOOL_COMMIT'' = None \<or>
        ch_environment c ''CRASHSAFE_WORKER_ID'' = Some ''worker-1'') \<and>
       (ch_module c = ''crashsafe.api'' \<longrightarrow> api_run (ch_environment c) =
          Inr \<lparr>ap_database = se_engine_db (demo_settings state tool_port), ap_tool_key = ''mock-tool'',
            ap_host = ''127.0.0.1'', ap_port = api_port\<rparr>) \<and>
       (ch_module c = ''crashsafe.mock_tool'' \<longrightarrow> tool_run (ch_environment c) l =
          Inr \<lparr>tp_app = \<lparr>ta_flaky_rate = Finite 0, ta_retry_after = Finite (to_double 2),
              ta_forced_operation = Some PROVISION\<rparr>,
            tp_state = \<lparr>ts_ledger = l, ts_forced_failures = 0, ts_operation_pending = True\<rparr>,
            tp_host = ''127.0.0.1'', tp_port = tool_port\<rparr>)) \<and>
    distinct (map (\<lambda>c. ch_environment c ''CRASHSAFE_WORKER_ID'') (filter (\<lambda>c. ch_module c = ''crashsafe.worker'') cs)) \<and>
    (res = Inr () \<longrightarrow> length cs = 5) \<and>
    set sent = Kill ` {h. h < length cs \<and> poll h = None}"
proof -
  note services = demo_services [OF assms(1-5)] and E = demo_lookups [OF assms(5)]
  have settings: "from_env E = Inr (demo_settings state tool_port)" using demo_isolated [OF assms(1,2,5)] by blast
  have run: "demo_script repr canonical E x [] = (res, cs)" "sent = kill_children poll cs"
    using assms(6) by (auto simp: run_script_def split: prod.splits)
  obtain paid_id where pre: "prefix cs (demo_children E paid_id)"
    using demo_script_children [of repr canonical E x] run(1) by auto
  have res: "res = demo_main repr canonical x" using demo_script_result [of repr canonical E x "[]"] run(1) by simp
  moreover have "from_env (ch_environment c) = Inr (demo_settings state tool_port) \<and>
      ch_environment c ''CRASHSAFE_CRASH_AT'' = None \<and>
      (ch_environment c ''CRASHSAFE_DELAY_AFTER_TOOL_COMMIT'' = None \<or>
       ch_environment c ''CRASHSAFE_WORKER_ID'' = Some ''worker-1'') \<and>
      (ch_module c \<in> {''crashsafe.api'', ''crashsafe.mock_tool''} \<longrightarrow> ch_environment c = E)" if "c \<in> set cs" for c
    using prefix_set [OF pre that] settings E
    by (auto simp: demo_children_def from_worker_environment worker_environment_lookup)
  moreover have "distinct (map (\<lambda>c. ch_environment c ''CRASHSAFE_WORKER_ID'') (filter (\<lambda>c. ch_module c = ''crashsafe.worker'') cs))"
    by (rule prefix_distinct [OF pre]) (simp add: demo_children_def worker_environment_lookup)
  moreover have "length cs = 5" if "res = Inr ()"
    using demo_script_passed [of repr canonical E x] run(1) that by (auto simp: demo_children_def)
  moreover have "set sent = Kill ` {h. h < length cs \<and> poll h = None}" by (auto simp: run(2) kill_children_def)
  moreover have "se_engine_db (demo_settings state tool_port) = Child (Resolve (PathText state)) ''engine.db''"
    by (simp add: demo_settings_def)
  ultimately show ?thesis using services by (intro conjI ballI impI) auto
qed

end
