(* ===== verification/Scenarios.thy ===== *)
theory Scenarios
  imports Recovery
begin

text \<open>
  Concrete scenarios: a small workflow is submitted, claimed, retried, completed and failed.
  The properties of the other theories are applied to them, with every hypothesis
  discharged by evaluating the definitions.
\<close>

section \<open>A run and its operations\<close>

definition sample_workflow :: workflow_definition where
  "sample_workflow = \<lparr>wd_name = ''onboard'', wd_steps =
     [ChargeStep ''pay'' [] \<lparr>ch_customer_id = ''c1'', ch_amount_cents = 500\<rparr>,
      NotifyStep ''mail'' [''pay''] \<lparr>no_customer_id = ''c1'', no_email = ''a@b'', no_message = ''hi''\<rparr>]\<rparr>"

definition sample_result :: json where
  "sample_result = JObj [(''reference_id'', JStr ''charge_1'')]"

text \<open>Two attempts of the first step by two workers, the second of which completes it.\<close>

definition sample_ops :: "storage_op list" where
  "sample_ops =
     [Create ''a1'' 100 sample_workflow None ''mock'',
      Claim ''w1'' 50 200, Attempt 201 202 ''a1'' ''pay'' (Some ''w1'') (Some 1),
      Claim ''w2'' 50 300, Attempt 301 302 ''a1'' ''pay'' (Some ''w2'') (Some 2),
      Retry 303 304 ''a1'' ''pay'' ''throttled'' 320 (Some ''w2'') (Some 2) True,
      Release 305 ''a1'' ''w2'' 2, Claim ''w2'' 50 330,
      Attempt 331 332 ''a1'' ''pay'' (Some ''w2'') (Some 3),
      Complete 333 334 ''a1'' ''pay'' sample_result (Some ''w2'') (Some 3)]"

definition sample_db :: db where
  "sample_db = fold perform sample_ops empty_db"

lemma sample_accepted: "accepted sample_workflow"
  by code_simp

lemma sample_protocol: "protocol sample_ops empty_db"
  by code_simp

lemma sample_db_ok: "db_ok sample_db"
  unfolding sample_db_def by (rule protocol_ok [OF db_ok_empty sample_protocol])

definition sample_log :: "workflow_run_event list" where
  "sample_log = run_events sample_db ''a1''"

definition sample_run :: workflow_run where
  "sample_run = (case reduce_workflow_run_history sample_log of
     Inr run \<Rightarrow> run | Inl _ \<Rightarrow> created_run ''a1'' 100 ''mock'' sample_workflow)"

lemma sample_reduces: "reduce_workflow_run_history sample_log = Inr sample_run"
  by code_simp

text \<open>The same run after the second step failed for good.\<close>

definition failed_ops :: "storage_op list" where
  "failed_ops = sample_ops @
     [Attempt 341 342 ''a1'' ''mail'' (Some ''w2'') (Some 3),
      Fail 343 344 ''a1'' ''mail'' ''HTTP 400'' (Some ''w2'') (Some 3)]"

definition failed_log :: "workflow_run_event list" where
  "failed_log = run_events (fold perform failed_ops empty_db) ''a1''"

definition failed_run :: workflow_run where
  "failed_run = (case reduce_workflow_run_history failed_log of
     Inr run \<Rightarrow> run | Inl _ \<Rightarrow> created_run ''a1'' 100 ''mock'' sample_workflow)"

lemma failed_reduces: "reduce_workflow_run_history failed_log = Inr failed_run"
  by code_simp

lemma failed_log_extends: "failed_log = sample_log @ drop (length sample_log) failed_log"
  by code_simp

section \<open>Witnesses: timestamps and history\<close>

definition noon :: datetime where
  "noon = \<lparr>dt_year = 2024, dt_month = 2, dt_day = 29, dt_hour = 12, dt_minute = 0, dt_second = 0,
     dt_microsecond = 0\<rparr>"

theorem to_db_order_preserving_witness:
  "to_db noon < to_db (noon\<lparr>dt_microsecond := 250\<rparr>) \<longleftrightarrow> instant noon < instant (noon\<lparr>dt_microsecond := 250\<rparr>)"
  by (rule to_db_order_preserving) (simp_all add: valid_datetime_def leap_def noon_def)

theorem reduce_wf_witness: "wf_run sample_run"
  by (rule reduce_wf [OF sample_reduces])

theorem reduced_history_is_final_witness: "extends sample_run failed_run"
  using reduced_history_is_final [OF sample_reduces, of "drop (length sample_log) failed_log" failed_run]
    failed_reduces failed_log_extends by simp

theorem attempts_count_attempt_events_witness:
  "st_attempts (hd (wr_steps sample_run)) =
     int (length (filter (attempt_of (st_id (hd (wr_steps sample_run)))) sample_log))"
proof -
  have "wr_steps sample_run \<noteq> []" using reduced_run_wf [OF sample_reduces] by (simp add: wf_run_def)
  then show ?thesis by (intro attempts_count_attempt_events [OF sample_reduces] hd_in_set)
qed

lemma sample_third_attempt: "sample_log ! 4 \<in> set sample_log \<and> ev_payload (sample_log ! 4) =
    StepAttemptStartedPayload CHARGE (sd_request (hd (materialize ''a1'' ''mock'' sample_workflow)))
      ''a1:pay'' (Some ''w2'') (Some 3)"
  by code_simp

theorem attempts_carry_stable_key_witness:
  "\<exists>s \<in> set (wr_steps sample_run). ''a1:pay'' = wr_run_id sample_run @ '':'' @ st_id s"
  using attempts_carry_stable_key [OF sample_reduces conjunct1 [OF sample_third_attempt]
      conjunct2 [OF sample_third_attempt]] by blast

section \<open>Witnesses: storage\<close>

theorem projection_always_matches_witness: "projection_matches_history ''a1'' sample_db = Inr True"
  by (rule projection_always_matches [OF sample_protocol sample_db_def]) code_simp

definition second_claim :: claimed_step where
  "second_claim = (case fst (claim_runnable_step ''w3'' 50 400 sample_db) of
     Inr (Some c) \<Rightarrow> c
   | _ \<Rightarrow> \<lparr>cl_step = hd (wr_steps sample_run), cl_lease = \<lparr>le_run_id = [], le_owner_id = [],
       le_fence_token = 0, le_expires_at = 0, le_updated_at = 0\<rparr>\<rparr>)"

lemma second_claim_returned:
  "claim_runnable_step ''w3'' 50 400 sample_db =
    (Inr (Some second_claim), snd (claim_runnable_step ''w3'' 50 400 sample_db))"
  by code_simp

theorem claim_follows_history_witness:
  "\<exists>run. reduce_workflow_run_history (run_events sample_db (le_run_id (cl_lease second_claim))) = Inr run \<and>
    wr_status run = RUNNING \<and> cl_step second_claim \<in> set (wr_steps run) \<and>
    le_fence_token (cl_lease second_claim) = next_fence sample_db (wr_run_id run)"
  using claim_follows_history [OF sample_db_ok second_claim_returned] by force

lemma sample_run_running: "''a1'' \<in> run_ids sample_db \<and> wr_status sample_run = RUNNING"
  by code_simp

theorem running_run_is_resumable_witness:
  "\<exists>T. \<forall>now \<ge> T. \<forall>owner ttl. \<exists>c d'. claim_runnable_step owner ttl now sample_db = (Inr (Some c), d')"
  using running_run_is_resumable [OF sample_db_ok sample_reduces [unfolded sample_log_def]]
    sample_run_running by blast

theorem create_makes_pending_run_witness:
  "\<exists>d'. create_workflow_run ''b2'' 500 sample_workflow None ''mock'' sample_db =
      (Inr (created_run ''b2'' 500 ''mock'' sample_workflow), d') \<and>
    get_workflow_run ''a1'' d' = get_workflow_run ''a1'' sample_db"
proof -
  have "''b2'' \<notin> run_ids sample_db" and "uuid_ok ''b2''" by code_simp+
  with create_makes_pending_run [OF sample_db_ok this sample_accepted refl, of 500 None "''mock''"]
  show ?thesis by (auto simp: selected_tool_def)
qed

text \<open>All step rows of the run are lost; the rebuild brings them back.\<close>

theorem rebuild_repairs_witness:
  "\<exists>d'. rebuild_projection ''a1'' (sample_db\<lparr>db_steps := []\<rparr>) = (Inr sample_run, d') \<and>
    projection_matches_history ''a1'' d' = Inr True"
proof -
  have "get_workflow_run ''a1'' sample_db = Inr sample_run" by code_simp
  moreover have "delete_projection ''a1'' (sample_db\<lparr>db_steps := []\<rparr>) = delete_projection ''a1'' sample_db"
    by code_simp
  ultimately show ?thesis using rebuild_repairs [OF sample_db_ok] by blast
qed

lemma third_worker_fence: "le_run_id (cl_lease second_claim) = ''a1'' \<and> 3 < le_fence_token (cl_lease second_claim) \<and>
    get_step_row (snd (claim_runnable_step ''w3'' 50 400 sample_db)) ''a1'' ''mail'' =
      Inr (last (db_steps sample_db))"
  by code_simp

theorem takeover_rejects_stale_token_witness:
  "complete_step 401 401 ''a1'' ''mail'' sample_result (Some ''w2'') (Some 3)
      (snd (claim_runnable_step ''w3'' 50 400 sample_db)) =
    (Inl (LeaseLostError ''w2'' ''a1''), snd (claim_runnable_step ''w3'' 50 400 sample_db))"
  using takeover_rejects_stale_token [OF sample_db_ok second_claim_returned, of "''a1''" 3 "[]"
      "snd (claim_runnable_step ''w3'' 50 400 sample_db)" "''mail''"] third_worker_fence by simp

section \<open>Witnesses: the tool\<close>

definition sample_digest :: "json \<Rightarrow> string" where
  "sample_digest j = (case j of JObj ((k, JInt n) # _) \<Rightarrow> replicate (nat n mod 16) CHR ''f'' | _ \<Rightarrow> ''0'')"

definition sample_calls :: "tool_call list" where
  "sample_calls =
     [\<lparr>tc_uuid = ''u1'', tc_now = 1, tc_operation = CHARGE, tc_key = ''a1:pay'', tc_request = JObj [(''a'', JInt 5)]\<rparr>,
      \<lparr>tc_uuid = ''u2'', tc_now = 2, tc_operation = CHARGE, tc_key = ''a1:pay'', tc_request = JObj [(''a'', JInt 5)]\<rparr>,
      \<lparr>tc_uuid = ''u3'', tc_now = 3, tc_operation = CHARGE, tc_key = ''a1:pay'', tc_request = JObj [(''a'', JInt 6)]\<rparr>]"

definition sample_ledger :: ledger where
  "sample_ledger = snd (run_calls (tool_call sample_digest) sample_calls empty_ledger)"

lemma sample_second_answer: "fst (run_calls (tool_call sample_digest) sample_calls empty_ledger) ! 1 =
    Inr (\<lparr>tr_operation = CHARGE, tr_reference_id = ''charge_u1'', tr_deduplicated = True\<rparr>, False)"
  by code_simp

theorem one_effect_per_key_witness:
  "\<exists>e. filter (\<lambda>e. se_operation_key e = ''a1:pay'') (lg_effects sample_ledger) = [e] \<and> se_id e = ''charge_u1''"
proof -
  have "1 < length sample_calls" and "tc_key (sample_calls ! 1) = ''a1:pay''"
    by (simp_all add: sample_calls_def)
  with one_effect_per_key [OF _ sample_second_answer sample_ledger_def] show ?thesis by simp
qed

end
