(* ===== verification/Lifecycle.thy ===== *)
theory Lifecycle
  imports Attempts
begin

text \<open>
  The abstract machine behind a run: a step idles, is attempted, and ends done or broken; an
  attempt begins only when the steps it depends on are done; the run completes when all
  steps are done and fails with a broken one. The system of workers, tool, messages and
  crashes refines it: whatever happens in it is, seen through the rows of a run, a sequence
  of transitions of the machine.
\<close>

section \<open>The abstract machine\<close>

datatype phase = Waiting int | Attempting int | Done "json option" | Broken

type_synonym abstract_step = "string \<times> string list \<times> phase"
type_synonym abstract_run = "workflow_run_status \<times> abstract_step list"

definition done_ids :: "abstract_step list \<Rightarrow> string set" where
  "done_ids xs = {i. \<exists>deps out. (i, deps, Done out) \<in> set xs}"

inductive lifecycle :: "abstract_run \<Rightarrow> abstract_run \<Rightarrow> bool" where
  attempt: "p = Waiting n \<or> p = Attempting n \<Longrightarrow> set deps \<subseteq> done_ids (xs @ (i, deps, p) # ys) \<Longrightarrow>
    lifecycle (RUNNING, xs @ (i, deps, p) # ys) (RUNNING, xs @ (i, deps, Attempting (n + 1)) # ys)"
| postpone: "lifecycle (RUNNING, xs @ (i, deps, Attempting n) # ys) (RUNNING, xs @ (i, deps, Waiting n) # ys)"
| finish: "lifecycle (RUNNING, xs @ (i, deps, Attempting n) # ys) (RUNNING, xs @ (i, deps, Done (Some out)) # ys)"
| break_step: "lifecycle (RUNNING, xs @ (i, deps, Attempting n) # ys) (RUNNING, xs @ (i, deps, Broken) # ys)"
| complete_run: "\<forall>x \<in> set xs. \<exists>out. snd (snd x) = Done out \<Longrightarrow> lifecycle (RUNNING, xs) (COMPLETED, xs)"
| fail_run: "\<exists>x \<in> set xs. snd (snd x) = Broken \<Longrightarrow> lifecycle (RUNNING, xs) (FAILED, xs)"

definition unstarted :: "abstract_run \<Rightarrow> bool" where
  "unstarted a \<longleftrightarrow> fst a = RUNNING \<and> snd a \<noteq> [] \<and> (\<forall>x \<in> set (snd a). snd (snd x) = Waiting 0)"

text \<open>A run that does not exist yet may appear with all its steps idle.\<close>

inductive run_machine :: "abstract_run option \<Rightarrow> abstract_run option \<Rightarrow> bool" where
  submit: "unstarted a \<Longrightarrow> run_machine None (Some a)"
| advance: "lifecycle a b \<Longrightarrow> run_machine (Some a) (Some b)"

inductive_cases lifecycleE: "lifecycle (st, xs) b"
inductive_simps run_machine_None: "run_machine None b"
inductive_simps run_machine_Some: "run_machine (Some a) b"

text \<open>What the machine promises: a finished run is at rest, a step that is done stays so with
  its output, and a step never loses an attempt.\<close>

lemma lifecycle_promises:
  assumes "lifecycle a b"
  shows "fst a = RUNNING" and "map fst (snd b) = map fst (snd a)"
    and "(i, deps, Done out) \<in> set (snd a) \<Longrightarrow> (i, deps, Done out) \<in> set (snd b)"
  using assms by (cases a; auto elim!: lifecycleE)+

lemma machine_promises:
  assumes "run_machine\<^sup>*\<^sup>* x y" and "x = Some a"
  shows "\<exists>b. y = Some b \<and> (fst a \<noteq> RUNNING \<longrightarrow> b = a) \<and> map fst (snd b) = map fst (snd a) \<and>
    (\<forall>i deps out. (i, deps, Done out) \<in> set (snd a) \<longrightarrow> (i, deps, Done out) \<in> set (snd b))"
  using assms
proof (induction rule: rtranclp_induct)
  case (step y z)
  then obtain b where b: "y = Some b" "fst a \<noteq> RUNNING \<longrightarrow> b = a" "map fst (snd b) = map fst (snd a)"
    "\<forall>i deps out. (i, deps, Done out) \<in> set (snd a) \<longrightarrow> (i, deps, Done out) \<in> set (snd b)" by auto
  from step.hyps(2) obtain c where c: "z = Some c" "lifecycle b c" unfolding b(1) run_machine_Some by auto
  note lifecycle_promises [OF c(2)]
  with b c(1) show ?case by auto
qed simp

section \<open>The abstraction\<close>

definition phase_of :: "step_record \<Rightarrow> phase" where
  "phase_of s = (case st_status s of
     STEP_PENDING \<Rightarrow> Waiting (st_attempts s)
   | STEP_RETRY_WAIT \<Rightarrow> Waiting (st_attempts s)
   | STEP_INTENT_RECORDED \<Rightarrow> Attempting (st_attempts s)
   | STEP_COMPLETED \<Rightarrow> Done (st_output s)
   | STEP_FAILED \<Rightarrow> Broken)"

definition abstract_step :: "step_record \<Rightarrow> abstract_step" where
  "abstract_step s = (st_id s, st_depends_on s, phase_of s)"

definition abstract_run :: "workflow_run \<Rightarrow> abstract_run" where
  "abstract_run run = (wr_status run, map abstract_step (wr_steps run))"

definition abstract_view :: "string \<Rightarrow> db \<Rightarrow> abstract_run option" where
  "abstract_view r d = map_option abstract_run (view d r)"

section \<open>One event\<close>

lemma phase_Done: "phase_of s = Done out \<longleftrightarrow> st_status s = STEP_COMPLETED \<and> st_output s = out"
  by (auto simp: phase_of_def split: step_status.splits)

lemma phase_Broken: "phase_of s = Broken \<longleftrightarrow> st_status s = STEP_FAILED"
  by (auto simp: phase_of_def split: step_status.splits)

lemma done_completed: "done_ids (map abstract_step ss) = set (completed_ids ss)"
proof (intro set_eqI iffI)
  fix i assume "i \<in> done_ids (map abstract_step ss)"
  then show "i \<in> set (completed_ids ss)"
    by (auto simp: in_completed_ids done_ids_def abstract_step_def phase_Done eq_commute [of "Done _"])
next
  fix i assume "i \<in> set (completed_ids ss)"
  then obtain s where s: "s \<in> set ss" "st_id s = i" "phase_of s = Done (st_output s)"
    by (auto simp: in_completed_ids phase_Done)
  then have "abstract_step s = (i, st_depends_on s, Done (st_output s))" by (simp add: abstract_step_def)
  with s(1) show "i \<in> done_ids (map abstract_step ss)" unfolding done_ids_def by force
qed

lemma update_where_split:
  assumes "distinct (map k ss)" and "s \<in> set ss"
  obtains xs ys where "ss = xs @ s # ys" "update_where (\<lambda>x. k x = k s) (\<lambda>_. s') ss = xs @ s' # ys"
proof -
  from split_list [OF assms(2)] obtain xs ys where ss: "ss = xs @ s # ys" by blast
  have "map (\<lambda>x. if k x = k s then s' else x) zs = zs" if "k s \<notin> k ` set zs" for zs
    using that by (intro map_idI) (metis image_eqI)
  with assms(1) have "update_where (\<lambda>x. k x = k s) (\<lambda>_. s') ss = xs @ s' # ys"
    by (simp add: ss update_where_def)
  with ss that show thesis by blast
qed

lemma step_lifecycle:
  assumes wf: "wf_run run" and running: "wr_status run = RUNNING" and s: "s \<in> set (wr_steps run)"
    and a: "apply_step_event run s e n p = Inr s'"
    and run': "run' = run\<lparr>wr_steps := update_where (\<lambda>x. st_id x = st_id s) (\<lambda>_. s') (wr_steps run)\<rparr>"
  shows "lifecycle (abstract_run run) (abstract_run run')"
proof -
  have "distinct (map st_id (wr_steps run))" using wf by (simp add: wf_run_def step_ids_def)
  from update_where_split [OF this s, of s'] obtain xs ys where
    ss: "wr_steps run = xs @ s # ys"
      "update_where (\<lambda>x. st_id x = st_id s) (\<lambda>_. s') (wr_steps run) = xs @ s' # ys" .
  have same: "st_id s' = st_id s" "st_depends_on s' = st_depends_on s"
    using immutable_eqD [OF apply_step_event_facts(1) [OF a]] by auto
  have before: "abstract_run run = (RUNNING, map abstract_step xs @ (st_id s, st_depends_on s, phase_of s) # map abstract_step ys)"
    using running by (simp add: abstract_run_def ss(1) abstract_step_def)
  have after: "abstract_run run' = (RUNNING, map abstract_step xs @ (st_id s, st_depends_on s, phase_of s') # map abstract_step ys)"
    using running by (simp add: abstract_run_def run' ss(2) abstract_step_def same)
  from a show ?thesis
  proof (cases rule: apply_step_event_cases)
    case start
    have "phase_of s = Waiting (st_attempts s) \<or> phase_of s = Attempting (st_attempts s)"
      using start(2) by (cases "st_status s") (simp_all add: runnable_status_iff phase_of_def)
    moreover have "phase_of s' = Attempting (st_attempts s + 1)"
      using start(1,3) by (simp add: phase_of_def start_attempt_def)
    moreover have "set (st_depends_on s) \<subseteq>
        done_ids (map abstract_step xs @ (st_id s, st_depends_on s, phase_of s) # map abstract_step ys)"
      using start(4) done_completed [of "wr_steps run"] by (simp add: ss(1) abstract_step_def)
    ultimately show ?thesis unfolding before after by (metis lifecycle.attempt)
  next
    case (retry er nx)
    then show ?thesis unfolding before after
      using lifecycle.postpone by (simp add: phase_of_def schedule_step_retry_def)
  next
    case (completed out)
    then show ?thesis unfolding before after
      using lifecycle.finish by (simp add: phase_of_def finish_step_def)
  next
    case (failed er)
    then show ?thesis unfolding before after
      using lifecycle.break_step by (simp add: phase_of_def mark_step_failed_def)
  qed
qed

lemma event_lifecycle:
  assumes a: "apply_payload run_id (Some run) e p = Inr run'" and wf: "wf_run run"
  shows "lifecycle (abstract_run run) (abstract_run run')"
  using a
proof (cases rule: apply_payload_cases)
  case (created name defs)
  then show ?thesis by (simp add: apply_created_def)
next
  case (completed r)
  then show ?thesis
    by (auto simp: apply_run_completed_def abstract_run_def list_ex_iff abstract_step_def phase_Done
        intro!: lifecycle.complete_run split: if_splits)
next
  case (failed r i er)
  then obtain s where s: "s \<in> set (wr_steps run)" "st_status s = STEP_FAILED"
    and run': "run' = run\<lparr>wr_status := FAILED, wr_updated_at := ev_occurred_at e\<rparr>"
    by (auto simp: apply_run_failed_def find_step_def find_step_with_index_def rbind_Inr_iff
        dest: find_index_Some split: if_splits option.splits)
  then have "\<exists>x \<in> set (map abstract_step (wr_steps run)). snd (snd x) = Broken"
    by (auto simp: abstract_step_def phase_Broken)
  with failed(2,3) show ?thesis by (simp add: run' abstract_run_def lifecycle.fail_run)
next
  case (step r)
  have "distinct (step_ids run)" using wf by (simp add: wf_run_def)
  with step obtain i n s s' where "s \<in> set (wr_steps run)" "st_id s = i" "apply_step_event run s e n p = Inr s'"
    "run' = run\<lparr>wr_steps := update_where (\<lambda>x. st_id x = i) (\<lambda>_. s') (wr_steps run)\<rparr>"
    by (auto elim: apply_step_payload_elim)
  with step_lifecycle [OF wf] step(1,2) show ?thesis by auto
qed

lemma events_lifecycle:
  assumes "fold_events run_id (Some run) n es = Inr (Some run')" and "wf_run run"
  shows "run_machine\<^sup>*\<^sup>* (Some (abstract_run run)) (Some (abstract_run run'))"
  using assms
proof (induction es arbitrary: run n)
  case Nil
  then show ?case by simp
next
  case (Cons e es)
  then obtain q where q: "apply_event run_id (Some run) n e = Inr q"
    and f: "fold_events run_id (Some q) (n + 1) es = Inr (Some run')"
    by (auto simp: rbind_Inr_iff)
  note p = apply_event_payload(4) [OF q]
  have "wf_run q" using wf_apply_payload [OF p] Cons.prems(2) by simp
  from Cons.IH [OF f this] run_machine.advance [OF event_lifecycle [OF p Cons.prems(2)]]
  show ?case by (rule converse_rtranclp_into_rtranclp [rotated])
qed

lemma history_lifecycle:
  assumes "reduce_workflow_run_history es = Inr run"
  shows "run_machine\<^sup>*\<^sup>* None (Some (abstract_run run))"
proof -
  from reduce_fold [OF assms] obtain e es' r where es: "es = e # es'"
    and a: "apply_event (ev_run_id e) None 1 e = Inr r"
    and f: "fold_events (ev_run_id e) (Some r) 2 es' = Inr (Some run)"
    by (cases es) (auto simp: rbind_Inr_iff)
  note hd = apply_event_payload [OF a]
  have wf: "wf_run r" using wf_apply_payload [OF hd(4)] by simp
  from hd(4) obtain name defs where r: "r = new_run (ev_run_id e) (ev_occurred_at e) name defs"
    by (cases rule: apply_payload_cases) (auto simp: apply_created_def rbind_Inr_iff split: if_splits)
  have "wr_steps r \<noteq> []" using wf by (simp add: wf_run_def)
  then have "unstarted (abstract_run r)"
    by (auto simp: unstarted_def abstract_run_def r new_run_def abstract_step_def phase_of_def new_step_def)
  then have "run_machine None (Some (abstract_run r))" by (rule run_machine.submit)
  with events_lifecycle [OF f wf] show ?thesis by (rule converse_rtranclp_into_rtranclp [rotated])
qed

section \<open>The system refines the machine\<close>

text \<open>What is appended to the log of a sound database moves the run by transitions only.\<close>

lemma grown_log_simulates:
  assumes ok: "db_ok d" and ok': "db_ok d'" and log: "log_grows d d'"
  shows "run_machine\<^sup>*\<^sup>* (abstract_view r d) (abstract_view r d')"
proof -
  from log obtain fs where fs: "run_events d' r = run_events d r @ fs"
    by (auto simp: log_grows_def run_events_def)
  show ?thesis
  proof (cases "view d r")
    case (Some run)
    have red: "reduce_workflow_run_history (run_events d r) = Inr run" using db_ok_view(1) [OF ok Some] .
    then have ne: "run_events d r \<noteq> []" using reduce_fold(1) by blast
    have "r \<in> run_ids d'"
      using ne fs db_okD(4) [OF ok'] by (cases "run_events d' r") (auto simp: run_events_def filter_eq_Cons_iff)
    then have "consistent d' r" by (rule db_okD(1) [OF ok'])
    then obtain run' where v': "view d' r = Some run'"
      and red': "reduce_workflow_run_history (run_events d r @ fs) = Inr run'" by (auto simp: consistent_def fs)
    from reduce_split [OF red' ne] obtain q where
      q: "fold_events (ev_run_id (hd (run_events d r))) None 1 (run_events d r) = Inr (Some q)" "wf_run q"
        "fold_events (ev_run_id (hd (run_events d r))) (Some q) (1 + int (length (run_events d r))) fs = Inr (Some run')"
      by blast
    have "q = run" using q(1) reduce_fold(2) [OF red] by simp
    with events_lifecycle [OF q(3,2)] show ?thesis by (simp add: abstract_view_def Some v')
  next
    case None
    show ?thesis
    proof (cases "view d' r")
      case (Some run')
      from history_lifecycle [OF db_ok_view(1) [OF ok' Some]] show ?thesis
        by (simp add: abstract_view_def None Some)
    qed (simp add: abstract_view_def None)
  qed
qed

interpretation system_refinement:
  simulation "sys_step digest" "\<lambda>\<sigma>. abstract_view r (sys_db \<sigma>)" run_machine "reachable digest" for digest r
proof unfold_locales
  fix \<sigma> \<tau> assume "reachable digest \<sigma>" and "sys_step digest \<sigma> \<tau>"
  then show "reachable digest \<tau>" by (rule reachable_step)
next
  fix \<sigma> \<tau> assume r: "reachable digest \<sigma>" and st: "sys_step digest \<sigma> \<tau>"
  note ok = sys_okD(1) [OF reachable_ok [OF r]] sys_okD(1) [OF reachable_ok [OF reachable_step [OF r st]]]
  show "run_machine\<^sup>*\<^sup>* (abstract_view r (sys_db \<sigma>)) (abstract_view r (sys_db \<tau>))"
    by (rule grown_log_simulates [OF ok sys_step_log [OF st]])
qed

text \<open>C32: the system refines the abstract machine. Seen through the rows of any run \<open>r\<close>, every
  execution of the system (submissions, claims, attempts, answers, commits, releases,
  renewals and crashes of any number of workers, in any order and at any clock readings) is
  a sequence of transitions of the machine: the run appears with all steps idle, a step is
  attempted only when its dependencies are done and each attempt counts one up, only an
  attempted step is postponed, done or broken, nothing leaves done, broken or a finished
  run, and the run finishes by its steps. That the storage itself does not check that a run
  is running, when a step of it is moved, is made up for by the leases.\<close>

theorem system_refines_lifecycle:
  assumes "reachable digest \<sigma>" and "(sys_step digest)\<^sup>*\<^sup>* \<sigma> \<tau>"
  shows "run_machine\<^sup>*\<^sup>* (abstract_view r (sys_db \<sigma>)) (abstract_view r (sys_db \<tau>))"
  using system_refinement.runs_refine [OF assms(2,1), of r] by simp

text \<open>C21: finished work is final. From any reachable state on, whatever the workers, the tool and
  the network do and wherever a worker crashes, a completed step keeps its output, a run
  keeps its steps, and a run that has completed or failed stays exactly as it is in every
  step. Nothing is assumed about which transitions are tried: a worker whose run has
  finished meanwhile may still try to record, postpone, fail or complete a step of it.\<close>

theorem finished_work_is_final:
  assumes "reachable digest \<sigma>" and "(sys_step digest)\<^sup>*\<^sup>* \<sigma> \<tau>" and "view (sys_db \<sigma>) r = Some run"
  shows "\<exists>run'. view (sys_db \<tau>) r = Some run' \<and>
    map st_id (wr_steps run') = map st_id (wr_steps run) \<and>
    (wr_status run \<noteq> RUNNING \<longrightarrow> wr_status run' = wr_status run \<and>
       map abstract_step (wr_steps run') = map abstract_step (wr_steps run)) \<and>
    (\<forall>s \<in> set (wr_steps run). st_status s = STEP_COMPLETED \<longrightarrow>
       (\<exists>s' \<in> set (wr_steps run'). st_id s' = st_id s \<and> st_status s' = STEP_COMPLETED \<and> st_output s' = st_output s))"
proof -
  have "run_machine\<^sup>*\<^sup>* (abstract_view r (sys_db \<sigma>)) (abstract_view r (sys_db \<tau>))"
    using system_refinement.runs_refine [OF assms(2,1), of r] by simp
  moreover have "abstract_view r (sys_db \<sigma>) = Some (abstract_run run)" using assms(3) by (simp add: abstract_view_def)
  ultimately obtain b where "abstract_view r (sys_db \<tau>) = Some b"
    and b: "fst (abstract_run run) \<noteq> RUNNING \<longrightarrow> b = abstract_run run"
      "map fst (snd b) = map fst (snd (abstract_run run))"
      "\<And>i deps out. (i, deps, Done out) \<in> set (snd (abstract_run run)) \<Longrightarrow> (i, deps, Done out) \<in> set (snd b)"
    using machine_promises by blast
  then obtain run' where v: "view (sys_db \<tau>) r = Some run'" and "b = abstract_run run'"
    by (auto simp: abstract_view_def)
  with b have final: "wr_status run \<noteq> RUNNING \<longrightarrow> abstract_run run' = abstract_run run"
    and ids: "map fst (map abstract_step (wr_steps run')) = map fst (map abstract_step (wr_steps run))"
    and outputs: "\<And>i deps out. (i, deps, Done out) \<in> set (map abstract_step (wr_steps run)) \<Longrightarrow>
      (i, deps, Done out) \<in> set (map abstract_step (wr_steps run'))"
    by (simp_all add: abstract_run_def)
  have "\<exists>s' \<in> set (wr_steps run'). st_id s' = st_id s \<and> st_status s' = STEP_COMPLETED \<and> st_output s' = st_output s"
    if s: "s \<in> set (wr_steps run)" "st_status s = STEP_COMPLETED" for s
  proof -
    have "abstract_step s = (st_id s, st_depends_on s, Done (st_output s))"
      using s(2) by (simp add: abstract_step_def phase_of_def)
    with outputs [of "st_id s" "st_depends_on s" "st_output s"] s(1)
    have "(st_id s, st_depends_on s, Done (st_output s)) \<in> abstract_step ` set (wr_steps run')" by force
    then obtain s' where "s' \<in> set (wr_steps run')" "abstract_step s' = (st_id s, st_depends_on s, Done (st_output s))" by auto
    then show ?thesis by (intro bexI [of _ s']) (auto simp: abstract_step_def phase_Done)
  qed
  with v final ids show ?thesis by (simp add: abstract_run_def comp_def abstract_step_def)
qed

end
