(* ===== verification/Executions.thy ===== *)
theory Executions
  imports Guarantees Scenarios Progress Timeline Api Supervisor Lifecycle
begin

text \<open>
  Executions of the whole system, given as lists of actions and evaluated step by step, with
  the witnesses of the system's properties: a run that completes although its first worker
  crashed after the tool had committed, and two workers that both hold an answer for the
  same run.
\<close>

section \<open>Actions\<close>

datatype action =
    DoCreate string timestamp workflow_definition "string option" string
  | DoClaim nat engine_settings string timestamp
  | DoAttempt nat engine_settings timestamp timestamp
  | DoSend nat
  | DoFind request
  | DoApply request string timestamp
  | DoRespond nat gateway_outcome
  | DoCommit nat engine_settings commit_clock
  | DoRelease nat timestamp
  | DoHeartbeat timestamp workflow_run_lease int
  | DoCrash nat

fun act :: "(json \<Rightarrow> string) \<Rightarrow> action \<Rightarrow> sys \<Rightarrow> sys option" where
  "act digest (DoCreate r now wd tool_key default_tool) \<sigma> =
     (if r \<notin> run_ids (sys_db \<sigma>) \<and> uuid_ok r \<and> accepted wd
      then Some (\<sigma>\<lparr>sys_db := snd (create_workflow_run r now wd tool_key default_tool (sys_db \<sigma>))\<rparr>) else None)"
| "act digest (DoClaim p cfg worker now) \<sigma> =
     (if ready (sys_workers \<sigma> p) then Some (advance p (claim_phase cfg worker now (sys_db \<sigma>)) \<sigma>) else None)"
| "act digest (DoAttempt p cfg now checked) \<sigma> = (case sys_workers \<sigma> p of
     Claimed c \<Rightarrow> Some (advance p (attempt_phase cfg now checked c (sys_db \<sigma>)) \<sigma>) | _ \<Rightarrow> None)"
| "act digest (DoSend p) \<sigma> = (case sys_workers \<sigma> p of
     Requesting s l \<Rightarrow> Some (\<sigma>\<lparr>sys_requests := insert (tool_request s) (sys_requests \<sigma>)\<rparr>) | _ \<Rightarrow> None)"
| "act digest (DoFind (op, key, req)) \<sigma> =
     (if (op, key, req) \<in> sys_requests \<sigma>
      then (case find_result digest op key req (sys_ledger \<sigma>) of
          Inr (Some res) \<Rightarrow> Some (\<sigma>\<lparr>sys_replies := insert ((op, key, req), res) (sys_replies \<sigma>)\<rparr>)
        | _ \<Rightarrow> None)
      else None)"
| "act digest (DoApply (op, key, req) uuid now) \<sigma> =
     (if (op, key, req) \<in> sys_requests \<sigma>
      then (case apply_tool digest uuid now op key req (sys_ledger \<sigma>) of
          (Inr (res, created), l') \<Rightarrow>
            Some (\<sigma>\<lparr>sys_ledger := l', sys_replies := insert ((op, key, req), res) (sys_replies \<sigma>)\<rparr>)
        | _ \<Rightarrow> None)
      else None)"
| "act digest (DoRespond p g) \<sigma> = (case sys_workers \<sigma> p of
     Requesting s l \<Rightarrow>
       (if (case g of ToolAnswer res \<Rightarrow> (tool_request s, res) \<in> sys_replies \<sigma> | _ \<Rightarrow> True)
        then Some (advance p (Responded s l g, sys_db \<sigma>) \<sigma>) else None)
   | _ \<Rightarrow> None)"
| "act digest (DoCommit p cfg t) \<sigma> = (case sys_workers \<sigma> p of
     Responded s l g \<Rightarrow> Some (advance p (commit_phase cfg t s l g (sys_db \<sigma>)) \<sigma>) | _ \<Rightarrow> None)"
| "act digest (DoRelease p now) \<sigma> = (case sys_workers \<sigma> p of
     Releasing l res \<Rightarrow> Some (advance p (release_phase now l res (sys_db \<sigma>)) \<sigma>) | _ \<Rightarrow> None)"
| "act digest (DoHeartbeat now l ttl) \<sigma> = Some (\<sigma>\<lparr>sys_db := snd (heartbeat_round now l ttl (sys_db \<sigma>))\<rparr>)"
| "act digest (DoCrash p) \<sigma> = Some (advance p (Idle, sys_db \<sigma>) \<sigma>)"

fun acts :: "(json \<Rightarrow> string) \<Rightarrow> action list \<Rightarrow> sys \<Rightarrow> sys option" where
  "acts digest [] \<sigma> = Some \<sigma>"
| "acts digest (a # as) \<sigma> = (case act digest a \<sigma> of None \<Rightarrow> None | Some \<tau> \<Rightarrow> acts digest as \<tau>)"

lemma act_step: "act digest a \<sigma> = Some \<tau> \<Longrightarrow> sys_step digest \<sigma> \<tau>"
  by (induction digest a \<sigma> rule: act.induct)
    (auto intro!: sys_step.intros split: if_splits worker_phase.splits sum.splits option.splits prod.splits
       gateway_outcome.splits)

lemma acts_reachable: "reachable digest \<sigma> \<Longrightarrow> acts digest as \<sigma> = Some \<tau> \<Longrightarrow> reachable digest \<tau>"
  by (induction digest as \<sigma> rule: acts.induct)
    (auto split: option.splits dest: act_step intro: reachable_step)

lemma acts_steps: "acts digest as \<sigma> = Some \<tau> \<Longrightarrow> (sys_step digest)\<^sup>*\<^sup>* \<sigma> \<tau>"
proof (induction digest as \<sigma> rule: acts.induct)
  case (2 digest a as \<sigma>)
  then obtain \<upsilon> where "act digest a \<sigma> = Some \<upsilon>" "acts digest as \<upsilon> = Some \<tau>" by (auto split: option.splits)
  with 2(1) act_step show ?case by (meson converse_rtranclp_into_rtranclp)
qed simp

definition state_after :: "action list \<Rightarrow> sys" where
  "state_after as = (case acts sample_digest as sys_init of None \<Rightarrow> sys_init | Some \<sigma> \<Rightarrow> \<sigma>)"

lemma state_after_reachable: "reachable sample_digest (state_after as)"
  using acts_reachable [OF reachable_init]
  by (auto simp: state_after_def intro: reachable_init split: option.split)

section \<open>A crash between the tool's commit and the engine's\<close>

definition second :: int where
  "second = 1000000"

definition epoch :: timestamp where
  "epoch = 63900000000000000"

definition sample_settings :: engine_settings where
  "sample_settings = \<lparr>es_max_attempts = 8, es_base_backoff = Finite (1 / 4), es_max_backoff = Finite 10,
     es_lease_ttl = Finite 2, es_crash_at = None\<rparr>"

definition small_workflow :: workflow_definition where
  "small_workflow = \<lparr>wd_name = ''pay'', wd_steps =
     [ChargeStep ''pay'' [] \<lparr>ch_customer_id = ''c1'', ch_amount_cents = 500\<rparr>]\<rparr>"

definition pay_request :: request where
  "pay_request = (CHARGE, ''a1:pay'', sd_request (hd (materialize ''a1'' ''mock'' small_workflow)))"

text \<open>Worker 0 records its intent and asks the tool, which commits; the worker crashes before
  it reads the answer. Its lease expires, worker 1 takes over and repeats the request.\<close>

definition takeover :: "action list" where
  "takeover =
     [DoCreate ''a1'' epoch small_workflow None ''mock'',
      DoClaim 0 sample_settings ''w0'' (epoch + second),
      DoAttempt 0 sample_settings (epoch + second) (epoch + second),
      DoSend 0, DoApply pay_request ''u1'' (epoch + 2 * second),
      DoClaim 1 sample_settings ''w1'' (epoch + 4 * second),
      DoAttempt 1 sample_settings (epoch + 4 * second) (epoch + 4 * second),
      DoSend 1, DoFind pay_request]"

definition first_answer :: tool_result where
  "first_answer = \<lparr>tr_operation = CHARGE, tr_reference_id = ''charge_u1'', tr_deduplicated = False\<rparr>"

text \<open>Both workers hold an answer.\<close>

definition contest :: "action list" where
  "contest = takeover @ [DoRespond 0 (ToolAnswer first_answer), DoRespond 1 (ToolAnswer (deduplicated first_answer))]"

definition commit_time :: commit_clock where
  "commit_time = \<lparr>cc_engine = epoch + 5 * second, cc_now = epoch + 5 * second, cc_lease = epoch + 5 * second\<rparr>"

definition recovered :: "action list" where
  "recovered = takeover @ [DoCrash 0, DoRespond 1 (ToolAnswer (deduplicated first_answer)),
     DoCommit 1 sample_settings commit_time, DoRelease 1 (epoch + 6 * second)]"

definition contested :: sys where
  "contested = state_after contest"

definition finished :: sys where
  "finished = state_after recovered"

definition finished_run :: workflow_run where
  "finished_run = (case view (sys_db finished) ''a1'' of Some run \<Rightarrow> run
     | None \<Rightarrow> created_run ''a1'' epoch ''mock'' small_workflow)"

lemma finished_reachable: "reachable sample_digest finished"
  unfolding finished_def by (rule state_after_reachable)

lemma contested_reachable: "reachable sample_digest contested"
  unfolding contested_def by (rule state_after_reachable)

text \<open>One evaluation of the execution gives every fact the witnesses need.\<close>

lemma finished_evaluated: "case sys_db finished of d \<Rightarrow> ''a1'' \<in> run_ids d \<and> (case view d ''a1'' of
    Some run \<Rightarrow> wr_status run = COMPLETED \<and> map st_status (wr_steps run) = [STEP_COMPLETED] \<and>
      map st_attempts (wr_steps run) = [2] \<and> map st_operation_key (wr_steps run) = [''a1:pay''] \<and>
      map st_operation (wr_steps run) = [CHARGE]
  | None \<Rightarrow> False)"
  by code_simp

lemma finished_view: "view (sys_db finished) ''a1'' = Some finished_run"
  using finished_evaluated by (auto simp: finished_run_def split: option.splits)

lemma finished_facts:
  "''a1'' \<in> run_ids (sys_db finished)" "wr_status finished_run = COMPLETED"
  "map st_status (wr_steps finished_run) = [STEP_COMPLETED]" "map st_attempts (wr_steps finished_run) = [2]"
  "map st_operation_key (wr_steps finished_run) = [''a1:pay'']" "map st_operation (wr_steps finished_run) = [CHARGE]"
  using finished_evaluated by (simp_all add: finished_view)

section \<open>Witnesses\<close>

theorem reachable_projection_matches_witness: "projection_matches_history ''a1'' (sys_db finished) = Inr True"
  by (rule reachable_projection_matches [OF finished_reachable finished_facts(1)])

lemma contested_writers: "case (sys_workers contested 1, sys_workers contested 0) of
    (Responded s l g, Responded s' l' g') \<Rightarrow> st_run_id s = st_run_id s' \<and>
      snd (commit_phase sample_settings commit_time s l g (sys_db contested)) \<noteq> sys_db contested
  | _ \<Rightarrow> False"
  by code_simp

theorem one_writer_per_run_witness: "\<exists>s l g. sys_workers contested 0 = Responded s l g \<and>
    snd (commit_phase sample_settings commit_time s l g (sys_db contested)) = sys_db contested"
proof -
  from contested_writers obtain s l g s' l' g' where "sys_workers contested 1 = Responded s l g"
    "sys_workers contested 0 = Responded s' l' g'" "st_run_id s = st_run_id s'"
    "snd (commit_phase sample_settings commit_time s l g (sys_db contested)) \<noteq> sys_db contested"
    by (auto split: worker_phase.splits)
  with one_writer_per_run [OF contested_reachable, of 1 0 s l g s' l' g' sample_settings commit_time]
  show ?thesis by auto
qed

lemma finished_ledger: "map (\<lambda>e. (se_id e, se_operation_key e)) (lg_effects (sys_ledger finished)) = [(''charge_u1'', ''a1:pay'')]"
  by code_simp

theorem effects_have_intents_witness: "\<exists>ev \<in> set (db_events (sys_db finished)). \<exists>op req worker fence.
    ev_payload ev = StepAttemptStartedPayload op req ''a1:pay'' worker fence"
proof -
  obtain e where "e \<in> set (lg_effects (sys_ledger finished))" "se_operation_key e = ''a1:pay''"
    using finished_ledger by auto
  with effects_have_intents [OF finished_reachable] show ?thesis by metis
qed

lemma pay_requested: "pay_request \<in> sys_requests finished"
  by code_simp

theorem requests_never_conflict_witness:
  "fst (apply_tool sample_digest ''u2'' 0 (fst pay_request) (fst (snd pay_request)) (snd (snd pay_request))
    (sys_ledger finished)) \<noteq> Inl (IdempotencyConflictError ''a1:pay'')"
  using requests_never_conflict [OF finished_reachable, of "fst pay_request" "fst (snd pay_request)"
      "snd (snd pay_request)"] pay_requested by simp

theorem one_effect_per_step_witness: "\<exists>t \<in> set (wr_steps finished_run). \<exists>e res.
    filter (\<lambda>e. se_operation_key e = st_operation_key t) (lg_effects (sys_ledger finished)) = [e] \<and>
    st_output t = Some (result_payload res) \<and> tr_reference_id res = se_id e"
proof -
  obtain t where "t \<in> set (wr_steps finished_run)" "st_status t = STEP_COMPLETED"
    using finished_facts(3) by auto
  with one_effect_per_step [OF finished_reachable finished_view this(1) refl] show ?thesis by blast
qed

theorem completed_run_summary_witness: "summary (Some ''a1'') (sys_ledger finished) =
    \<lparr>lg_charges = 1, lg_provisions = 0, lg_notifications = 0\<rparr>"
proof -
  obtain t where "wr_steps finished_run = [t]" "st_operation t = CHARGE" using finished_facts(6) by auto
  with completed_run_summary [OF finished_reachable finished_view finished_facts(2)] show ?thesis by simp
qed

theorem backoff_exact_witness: "backoff (Finite (1 / 4)) (Finite 10) 3 = Inr (Finite 1)"
  using backoff_exact [of "1 / 4" 10 3] by simp

section \<open>Witnesses: retries, cooldowns and workers\<close>

definition requesting :: sys where
  "requesting = state_after (take 3 takeover)"

definition busy :: gateway_outcome where
  "busy = RetryableToolError ''busy'' (Some (Finite 5)) True"

definition failure_time :: commit_clock where
  "failure_time = \<lparr>cc_engine = epoch + 2 * second, cc_now = epoch + 2 * second, cc_lease = epoch + 2 * second\<rparr>"

lemma requesting_state: "case sys_workers requesting 0 of
    Requesting s l \<Rightarrow> (case get_step_row (sys_db requesting) (st_run_id s) (st_id s) of
        Inr row \<Rightarrow> sr_status row = STEP_INTENT_RECORDED \<and> sr_tool_key row = ''mock'' \<and> st_attempts s = 1 \<and>
          require_lease (sys_db requesting) (st_run_id s) (cc_lease failure_time) (Some (le_owner_id l))
            (Some (le_fence_token l)) = Inr ()
      | Inl _ \<Rightarrow> False)
  | _ \<Rightarrow> False"
  by code_simp

lemma busy_deadline: "rbind (retry_delay sample_settings s (Some (Finite 5))) (deadline (cc_engine failure_time)) =
    Inr (epoch + 7 * second)"
  unfolding retry_delay_def by code_simp

theorem retry_policy_witness: "\<exists>s l d'. sys_workers requesting 0 = Requesting s l \<and>
    commit_phase sample_settings failure_time s l busy (sys_db requesting) = (Releasing l (Inr (did_step s)), d') \<and>
    (\<exists>th. throttle_of d' ''mock'' = Some th \<and> epoch + 7 * second \<le> th_blocked_until th)"
proof -
  from requesting_state obtain s l row where s: "sys_workers requesting 0 = Requesting s l"
    "get_step_row (sys_db requesting) (st_run_id s) (st_id s) = Inr row" "sr_status row = STEP_INTENT_RECORDED"
    "sr_tool_key row = ''mock''" "st_attempts s = 1"
    "require_lease (sys_db requesting) (st_run_id s) (cc_lease failure_time) (Some (le_owner_id l))
      (Some (le_fence_token l)) = Inr ()"
    by (auto split: worker_phase.splits sum.splits)
  obtain ph d' where c: "commit_phase sample_settings failure_time s l busy (sys_db requesting) = (ph, d')"
    by fastforce
  from retry_policy [OF s(2,3,6) c [unfolded busy_def]] s(1,4,5) c show ?thesis
    by (simp add: sample_settings_def busy_deadline [unfolded sample_settings_def])
qed

text \<open>The tool of the sample run is throttled until 320; another run uses another tool.\<close>

definition other_run :: storage_op where
  "other_run = Create ''b2'' 310 small_workflow (Some ''other'') ''mock''"

lemma early_claim: "case claim_runnable_step ''w5'' 50 315 (fold perform [other_run] sample_db) of
    (Inr (Some c), d') \<Rightarrow> (case throttle_of sample_db ''mock'' of Some th \<Rightarrow> 315 < th_blocked_until th | None \<Rightarrow> False)
  | _ \<Rightarrow> False"
  by code_simp

theorem cooldown_gates_claims_witness: "\<exists>c d'. claim_runnable_step ''w5'' 50 315 (fold perform [other_run] sample_db) =
    (Inr (Some c), d') \<and> st_tool_key (cl_step c) \<noteq> ''mock''"
proof -
  from early_claim obtain c d' th where c: "claim_runnable_step ''w5'' 50 315 (fold perform [other_run] sample_db) =
      (Inr (Some c), d')" and th: "throttle_of sample_db ''mock'' = Some th" "315 < th_blocked_until th"
    by (auto split: prod.splits sum.splits option.splits)
  with cooldown_gates_claims [OF th c] show ?thesis by blast
qed

definition tick_at :: "timestamp \<Rightarrow> tick" where
  "tick_at t = (\<lparr>rc_claim = t, rc_attempt = t, rc_attempt_lease = t,
      rc_commit = \<lparr>cc_engine = t, cc_now = t, cc_lease = t\<rparr>, rc_release = t\<rparr>,
     \<lambda>s. ToolAnswer \<lparr>tr_operation = st_operation s, tr_reference_id = ''ref'', tr_deduplicated = False\<rparr>)"

theorem exit_codes_truthful_witness: "get_workflow_run ''zz'' empty_db = Inl (WorkflowRunNotFoundError ''zz'')"
proof -
  have "worker_main sample_settings ''w0'' (UntilTerminal ''zz'' [tick_at epoch]) empty_db = (ExitCode 4, empty_db)"
    by code_simp
  from exit_codes_truthful [OF this] show ?thesis by simp
qed

definition submitted :: db where
  "submitted = snd (create_workflow_run ''a1'' epoch small_workflow None ''mock'' empty_db)"

lemma submitted_facts: "quiet submitted epoch" "open_steps submitted = 1"
    "case get_workflow_run ''a1'' submitted of Inr run \<Rightarrow> wr_status run = RUNNING | Inl _ \<Rightarrow> False"
  by code_simp+

lemma submitted_ok: "db_ok submitted"
proof -
  have "db_ok (perform (Create ''a1'' epoch small_workflow None ''mock'') empty_db)"
    by (rule perform_ok [OF db_ok_empty]) code_simp
  then show ?thesis by (simp add: submitted_def)
qed

lemma tick_deadlines: "deadline (epoch + second) (Finite 2) = Inr (epoch + 3 * second)"
    "deadline (epoch + 2 * second) (Finite 2) = Inr (epoch + 4 * second)"
  by code_simp+

theorem healthy_worker_completes_witness:
  "\<exists>d' run'. run_until_terminal sample_settings ''w0'' ''a1'' [tick_at (epoch + second), tick_at (epoch + 2 * second)]
      submitted = (ExitCode 0, d') \<and> get_workflow_run ''a1'' d' = Inr run' \<and> wr_status run' = COMPLETED"
proof -
  have "0 < second" by (simp add: second_def)
  then have "healthy_ticks sample_settings epoch [tick_at (epoch + second), tick_at (epoch + 2 * second)]"
    by (simp add: healthy_tick_def tick_at_def sample_settings_def tick_deadlines)
  moreover obtain run where "get_workflow_run ''a1'' submitted = Inr run" "wr_status run \<noteq> FAILED"
    using submitted_facts(3) by (auto split: sum.splits)
  ultimately show ?thesis
    using healthy_worker_completes [OF submitted_ok submitted_facts(1), of sample_settings
        "[tick_at (epoch + second), tick_at (epoch + 2 * second)]" "''a1''" run "''w0''"] submitted_facts(2)
    by (simp add: sample_settings_def)
qed

section \<open>Timelines\<close>

lemma sample_attempts: "sum_list (map st_attempts (wr_steps sample_run)) = 3"
  by code_simp

theorem timeline_agrees_witness: "\<exists>t. build_timeline (\<lambda>_. []) sample_log = Inr t \<and>
    ts_status (tl_summary t) = wr_status sample_run \<and> ts_attempts (tl_summary t) = 3"
proof -
  obtain t where t: "build_timeline (\<lambda>_. []) sample_log = Inr t"
    using build_timeline_Inr [OF sample_reduces] by metis
  from timeline_agrees [OF t] t show ?thesis by (simp add: sample_reduces sample_attempts)
qed

theorem milliseconds_accurate_witness: "1000 * milliseconds ((epoch + 2000) - epoch) = 2000"
proof -
  have "datetime_range epoch" "datetime_range (epoch + 2000)" by code_simp+
  from milliseconds_accurate [OF this] show ?thesis by simp
qed

theorem format_duration_exact_witness: "format_duration 1500 = ''1.500s''"
proof -
  have "(1500 :: int) \<le> 2 ^ 50" by simp
  moreover have "show_int (1500 div 1000) @ ''.'' @ three_digits 1500 @ ''s'' = ''1.500s''" by code_simp
  ultimately show ?thesis using format_duration_exact [of 1500] by simp
qed

section \<open>The API\<close>

lemma sample_ids: "''a1'' \<in> run_ids sample_db" "''b2'' \<notin> run_ids sample_db" "uuid_ok ''b2''"
  by code_simp+

theorem api_never_fails_witness:
  "api (\<lambda>_. []) ''b2'' 400 ''mock'' (GetTimeline ''b2'') sample_db = (NotFound, sample_db)"
proof -
  obtain resp d' where r: "api (\<lambda>_. []) ''b2'' 400 ''mock'' (GetTimeline ''b2'') sample_db = (resp, d')" by fastforce
  from api_never_fails [OF sample_db_ok sample_ids(3,2) r] sample_ids(2) r show ?thesis by simp
qed

theorem api_views_agree_witness:
  "\<exists>t. api (\<lambda>_. []) ''b2'' 400 ''mock'' (GetTimeline ''a1'') sample_db = (Ok (TimelineBody t), sample_db) \<and>
    tl_run_id t = ''a1''"
proof -
  from read_known [OF sample_db_ok sample_ids(1)] obtain run where run: "get_workflow_run ''a1'' sample_db = Inr run"
    "list_events ''a1'' sample_db = Inr (run_events sample_db ''a1'')"
    "reduce_workflow_run_history (run_events sample_db ''a1'') = Inr run" .
  obtain t where "build_timeline (\<lambda>_. []) (run_events sample_db ''a1'') = Inr t"
    using timeline_known [OF run(3), of "\<lambda>_. []"] by metis
  with run api_views_agree [OF sample_db_ok, of "\<lambda>_. []" "''b2''" 400 "''mock''" "''a1''" run _ t]
  show ?thesis by (simp add: respond_def run_timeline_def)
qed

section \<open>The abstract machine\<close>

lemma empty_view: "abstract_view ''a1'' empty_db = None"
  by code_simp

theorem system_refines_lifecycle_witness: "run_machine\<^sup>*\<^sup>* None (abstract_view ''a1'' (sys_db finished))"
proof -
  have "acts sample_digest recovered sys_init \<noteq> None" by code_simp
  then have "(sys_step sample_digest)\<^sup>*\<^sup>* sys_init finished"
    by (auto simp: finished_def state_after_def intro: acts_steps)
  from system_refines_lifecycle [OF reachable_init this, of "''a1''"] show ?thesis
    by (simp add: sys_init_def empty_view)
qed

text \<open>Worker 1 has completed the run while worker 0 still holds its answer; then worker 0 commits.\<close>

definition overtaken :: sys where
  "overtaken = state_after (contest @ [DoCommit 1 sample_settings commit_time, DoRelease 1 (epoch + 6 * second)])"

lemma overtaken_state: "case view (sys_db overtaken) ''a1'' of Some run \<Rightarrow> wr_status run = COMPLETED | None \<Rightarrow> False"
    "case sys_workers overtaken 0 of Responded s l g \<Rightarrow> True | _ \<Rightarrow> False"
  by code_simp+

theorem finished_work_is_final_witness:
  "\<exists>s l g run'. sys_workers overtaken 0 = Responded s l g \<and>
    view (snd (commit_phase sample_settings commit_time s l g (sys_db overtaken))) ''a1'' = Some run' \<and>
    wr_status run' = COMPLETED"
proof -
  from overtaken_state(1) obtain run where v: "view (sys_db overtaken) ''a1'' = Some run" "wr_status run = COMPLETED"
    by (auto split: option.splits)
  from overtaken_state(2) obtain s l g where w: "sys_workers overtaken 0 = Responded s l g"
    by (auto split: worker_phase.splits)
  have reach: "reachable sample_digest overtaken" unfolding overtaken_def by (rule state_after_reachable)
  have step: "(sys_step sample_digest)\<^sup>*\<^sup>* overtaken
      (advance 0 (commit_phase sample_settings commit_time s l g (sys_db overtaken)) overtaken)"
    using step_commit [OF w] by (rule r_into_rtranclp)
  from finished_work_is_final [OF reach step v(1)] v(2) w show ?thesis by auto
qed

end
