(* ===== verification/Demonstrations.thy ===== *)
theory Demonstrations
  imports Script_Processes Executions
begin

text \<open>
  Executions of the two scripts' scenarios, and the witnesses of what the scripts check. In
  the demo's, the first worker dies after the tool has committed its charge and a second
  one, after the lease has expired, repeats the request and does all the rest.
\<close>

section \<open>The demo\<close>

definition request_of :: "string \<Rightarrow> workflow_definition \<Rightarrow> nat \<Rightarrow> request" where
  "request_of r wd n =
     (let sd = materialize r ''mock'' wd ! n in (sd_operation sd, sd_operation_key sd, sd_request sd))"

fun answer_to :: "request \<Rightarrow> string \<Rightarrow> bool \<Rightarrow> tool_result" where
  "answer_to (op, key, req) uuid again =
     \<lparr>tr_operation = op, tr_reference_id = step_name_value op @ ''_'' @ uuid, tr_deduplicated = again\<rparr>"

definition ask :: "nat \<Rightarrow> request \<Rightarrow> string \<Rightarrow> timestamp \<Rightarrow> action list" where
  "ask p q uuid t = [DoClaim p sample_settings ''w'' t, DoAttempt p sample_settings t t, DoSend p, DoApply q uuid t]"

definition settle_answer :: "nat \<Rightarrow> tool_result \<Rightarrow> timestamp \<Rightarrow> action list" where
  "settle_answer p res t = [DoRespond p (ToolAnswer res),
     DoCommit p sample_settings \<lparr>cc_engine = t, cc_now = t, cc_lease = t\<rparr>, DoRelease p t]"

definition serve :: "request \<Rightarrow> string \<Rightarrow> timestamp \<Rightarrow> action list" where
  "serve q uuid t = ask 1 q uuid t @ settle_answer 1 (answer_to q uuid False) t"

definition demo_submission :: "action list" where
  "demo_submission = [DoCreate ''a1'' epoch paid_onboarding None ''mock'',
     DoCreate ''b2'' (epoch + 1) trial_activation None ''mock'']"

text \<open>While worker 1's charge is in flight, the provisioning of the trial is throttled.\<close>

definition demo_throttled :: "action list" where
  "demo_throttled = ask 0 (request_of ''a1'' paid_onboarding 0) ''u1'' (epoch + 2) @
     [DoClaim 2 sample_settings ''w2'' (epoch + 3), DoAttempt 2 sample_settings (epoch + 3) (epoch + 3), DoSend 2,
      DoRespond 2 (RetryableToolError ''tool throttled the request'' (Some (Finite 2)) True),
      DoCommit 2 sample_settings \<lparr>cc_engine = epoch + 4, cc_now = epoch + 4, cc_lease = epoch + 4\<rparr>,
      DoRelease 2 (epoch + 4)]"

definition demo_resumed :: "action list" where
  "demo_resumed =
     (let charge = request_of ''a1'' paid_onboarding 0; t = epoch + 3 * second in
      DoCrash 0 # ask 1 charge ''u2'' t @ settle_answer 1 (answer_to charge ''u1'' True) t @
      serve (request_of ''a1'' paid_onboarding 1) ''u3'' (t + 1) @
      serve (request_of ''a1'' paid_onboarding 2) ''u4'' (t + 2) @
      serve (request_of ''b2'' trial_activation 0) ''u5'' (t + 3) @
      serve (request_of ''b2'' trial_activation 1) ''u6'' (t + 4) @
      serve (request_of ''b2'' trial_activation 2) ''u7'' (t + 5))"

lemma acts_append: "acts digest (as @ bs) \<sigma> = (case acts digest as \<sigma> of None \<Rightarrow> None | Some \<tau> \<Rightarrow> acts digest bs \<tau>)"
  by (induction digest as \<sigma> rule: acts.induct) (auto split: option.splits)

definition completed_in :: "sys \<Rightarrow> string \<Rightarrow> bool" where
  "completed_in \<sigma> r \<longleftrightarrow> (case view (sys_db \<sigma>) r of None \<Rightarrow> False | Some run \<Rightarrow> wr_status run = COMPLETED)"

lemma completed_inD: "completed_in \<sigma> r \<Longrightarrow> \<exists>run. view (sys_db \<sigma>) r = Some run \<and> wr_status run = COMPLETED"
  by (auto simp: completed_in_def split: option.splits)

lemma demo_submitted: "case acts sample_digest demo_submission sys_init of None \<Rightarrow> False
   | Some \<sigma> \<Rightarrow> view (sys_db \<sigma>) ''a1'' = Some (created_run ''a1'' epoch ''mock'' paid_onboarding) \<and>
       view (sys_db \<sigma>) ''b2'' = Some (created_run ''b2'' (epoch + 1) ''mock'' trial_activation)"
  by code_simp

lemma demo_retried: "case acts sample_digest (demo_submission @ demo_throttled) sys_init of None \<Rightarrow> False
   | Some \<rho> \<Rightarrow> retry_persisted (run_events (sys_db \<rho>) ''b2'')"
  by code_simp

lemma demo_completed: "case acts sample_digest (demo_submission @ demo_throttled @ demo_resumed) sys_init of None \<Rightarrow> False
   | Some \<tau> \<Rightarrow> completed_in \<tau> ''a1'' \<and> completed_in \<tau> ''b2'' \<and>
       attempt_fences (sys_db \<tau>) ''a1'' = [Some 1, Some 2, Some 3, Some 4] \<and>
       length (step_attempts ''charge'' (run_events (sys_db \<tau>) ''a1'')) = 2 \<and>
       length (step_attempts ''provision-trial'' (run_events (sys_db \<tau>) ''b2'')) = 2 \<and>
       (case filter throttled_event (run_events (sys_db \<tau>) ''b2'') of
          [e] \<Rightarrow> ev_payload e = StepRetryScheduledPayload ''tool throttled the request'' (epoch + 4 + 2 * second) \<and>
            ev_occurred_at e = epoch + 4
        | _ \<Rightarrow> False)"
  by code_simp

text \<open>The states after the submission, the retry and the work.\<close>

lemma demo_states:
  obtains \<sigma> \<rho> \<tau> where "reachable sample_digest \<sigma>" and "(sys_step sample_digest)\<^sup>*\<^sup>* \<sigma> \<rho>" and "(sys_step sample_digest)\<^sup>*\<^sup>* \<sigma> \<tau>"
    and "view (sys_db \<sigma>) ''a1'' = Some (created_run ''a1'' epoch ''mock'' paid_onboarding)"
    and "view (sys_db \<sigma>) ''b2'' = Some (created_run ''b2'' (epoch + 1) ''mock'' trial_activation)"
    and "retry_persisted (run_events (sys_db \<rho>) ''b2'')"
    and "completed_in \<tau> ''a1''" and "completed_in \<tau> ''b2''"
    and "attempt_fences (sys_db \<tau>) ''a1'' = [Some 1, Some 2, Some 3, Some 4]"
    and "length (step_attempts ''charge'' (run_events (sys_db \<tau>) ''a1'')) = 2"
    and "length (step_attempts ''provision-trial'' (run_events (sys_db \<tau>) ''b2'')) = 2"
    and "\<exists>e. filter throttled_event (run_events (sys_db \<tau>) ''b2'') = [e] \<and> ev_occurred_at e = epoch + 4 \<and>
      ev_payload e = StepRetryScheduledPayload ''tool throttled the request'' (epoch + 4 + 2 * second)"
proof -
  from demo_submitted obtain \<sigma> where s: "acts sample_digest demo_submission sys_init = Some \<sigma>"
    "view (sys_db \<sigma>) ''a1'' = Some (created_run ''a1'' epoch ''mock'' paid_onboarding)"
    "view (sys_db \<sigma>) ''b2'' = Some (created_run ''b2'' (epoch + 1) ''mock'' trial_activation)"
    by (cases "acts sample_digest demo_submission sys_init") simp_all
  from demo_retried obtain \<rho> where r: "acts sample_digest demo_throttled \<sigma> = Some \<rho>"
    "retry_persisted (run_events (sys_db \<rho>) ''b2'')"
    by (cases "acts sample_digest demo_throttled \<sigma>") (simp_all add: acts_append s(1))
  from demo_completed obtain \<tau> where t: "acts sample_digest (demo_throttled @ demo_resumed) \<sigma> = Some \<tau>"
    "completed_in \<tau> ''a1''" "completed_in \<tau> ''b2''" "attempt_fences (sys_db \<tau>) ''a1'' = [Some 1, Some 2, Some 3, Some 4]"
    "length (step_attempts ''charge'' (run_events (sys_db \<tau>) ''a1'')) = 2"
    "length (step_attempts ''provision-trial'' (run_events (sys_db \<tau>) ''b2'')) = 2"
    and e: "\<exists>e. filter throttled_event (run_events (sys_db \<tau>) ''b2'') = [e] \<and> ev_occurred_at e = epoch + 4 \<and>
      ev_payload e = StepRetryScheduledPayload ''tool throttled the request'' (epoch + 4 + 2 * second)"
    unfolding acts_append [of _ demo_submission] s(1) option.case
    by (cases "acts sample_digest (demo_throttled @ demo_resumed) \<sigma>") (auto split: list.splits)
  show thesis
    by (rule that [OF acts_reachable [OF reachable_init s(1)] acts_steps [OF r(1)] acts_steps [OF t(1)]
          s(2,3) r(2) t(2-6) e])
qed

theorem attempts_strictly_fenced_witness:
  "\<exists>\<tau> :: sys. attempt_fences (sys_db \<tau>) ''a1'' = [Some 1, Some 2, Some 3, Some 4] \<and>
    increasing (attempt_fences (sys_db \<tau>) ''a1'')"
proof -
  obtain \<sigma> \<tau> where "reachable sample_digest \<sigma>" "(sys_step sample_digest)\<^sup>*\<^sup>* \<sigma> \<tau>"
    and f: "attempt_fences (sys_db \<tau>) ''a1'' = [Some 1, Some 2, Some 3, Some 4]" using demo_states by metis
  then have "reachable sample_digest \<tau>" by (blast intro: steps_reachable)
  from attempts_strictly_fenced [OF this, of "''a1''"] f show ?thesis by blast
qed

text \<open>The demo as it is meant to go: \<open>main\<close> passes.\<close>

definition staged_demo :: "sys \<Rightarrow> sys \<Rightarrow> demo_run" where
  "staged_demo \<rho> \<tau> = \<lparr>dr_before = empty_db, dr_tool_up = Inr (), dr_api_up = Inr (),
     dr_paid_response = Created (RunBody (created_run ''a1'' epoch ''mock'' paid_onboarding)),
     dr_trial_response = Created (RunBody (created_run ''b2'' (epoch + 1) ''mock'' trial_activation)),
     dr_charge_committed = Inr (), dr_retry_seen = Inr (), dr_worker_2 = Some 0, dr_retried = sys_db \<rho>,
     dr_kill_ledger = sys_ledger \<rho>, dr_worker_1 = Some (- 9), dr_killed = sys_db \<rho>,
     dr_all_completed = Inr (), dr_resumed = Some 0, dr_final = sys_db \<tau>, dr_ledger = sys_ledger \<tau>\<rparr>"

lemma two_seconds: "milliseconds ((epoch + 4 + 2 * second) - (epoch + 4)) = 2000"
proof -
  have "datetime_range (epoch + 4)" "datetime_range (epoch + 4 + 2 * second)" by code_simp+
  from milliseconds_accurate [OF this] show ?thesis by (simp add: second_def)
qed

theorem demo_passes_iff_witness:
  "\<exists>\<rho> \<tau>. completed_in \<tau> ''a1'' \<and> completed_in \<tau> ''b2'' \<and> demo_main (\<lambda>_. []) Some (staged_demo \<rho> \<tau>) = Inr ()"
proof -
  obtain \<sigma> \<rho> \<tau> e where s: "reachable sample_digest \<sigma>" "(sys_step sample_digest)\<^sup>*\<^sup>* \<sigma> \<rho>" "(sys_step sample_digest)\<^sup>*\<^sup>* \<sigma> \<tau>"
    "view (sys_db \<sigma>) ''a1'' = Some (created_run ''a1'' epoch ''mock'' paid_onboarding)"
    "view (sys_db \<sigma>) ''b2'' = Some (created_run ''b2'' (epoch + 1) ''mock'' trial_activation)"
    and r: "retry_persisted (run_events (sys_db \<rho>) ''b2'')"
    and t: "completed_in \<tau> ''a1''" "completed_in \<tau> ''b2''"
      "length (step_attempts ''charge'' (run_events (sys_db \<tau>) ''a1'')) = 2"
      "length (step_attempts ''provision-trial'' (run_events (sys_db \<tau>) ''b2'')) = 2"
    and e: "filter throttled_event (run_events (sys_db \<tau>) ''b2'') = [e]" "ev_occurred_at e = epoch + 4"
      "ev_payload e = StepRetryScheduledPayload ''tool throttled the request'' (epoch + 4 + 2 * second)"
    using demo_states by metis
  have "event_wait e = 2000" unfolding event_wait_def e payload.case two_seconds by simp
  moreover have "both_completed (\<lambda>_. []) ''a1'' ''b2'' (sys_db \<tau>) = Inr True"
    using completed_inD [OF t(1)] completed_inD [OF t(2)] by (auto simp: both_completed_Inr)
  moreover have "unfinished_runs empty_db = Inr []" by code_simp
  ultimately have "demo_main (\<lambda>_. []) Some (staged_demo \<rho> \<tau>) = Inr ()"
    using demo_passes_iff [OF s(1,2,2,3) _ _ s(4,5), of "staged_demo \<rho> \<tau>" "\<lambda>_. []" Some] r t(3,4) e(1)
    by (simp add: staged_demo_def)
  with t(1,2) show ?thesis by blast
qed

section \<open>The drain\<close>

definition drain_submission :: "action list" where
  "drain_submission = [DoCreate ''a1'' epoch paid_onboarding None ''mock'']"

definition drain_work :: "action list" where
  "drain_work =
     serve (request_of ''a1'' paid_onboarding 0) ''u1'' (epoch + 1) @
     serve (request_of ''a1'' paid_onboarding 1) ''u2'' (epoch + 2) @
     serve (request_of ''a1'' paid_onboarding 2) ''u3'' (epoch + 3)"

lemma drain_submitted: "case acts sample_digest drain_submission sys_init of
     None \<Rightarrow> False
   | Some \<upsilon> \<Rightarrow> view (sys_db \<upsilon>) ''a1'' = Some (created_run ''a1'' epoch ''mock'' paid_onboarding)"
  by code_simp

lemma drain_completed:
  "case acts sample_digest (drain_submission @ drain_work) sys_init of
     None \<Rightarrow> False
   | Some \<tau> \<Rightarrow> completed_in \<tau> ''a1'' \<and> other_effects ''a1'' (sys_ledger \<tau>) = [] \<and>
       length (step_attempts ''charge'' (run_events (sys_db \<tau>) ''a1'')) = 1"
  by code_simp

theorem drain_verdict_exact_witness:
  "\<exists>\<tau>. completed_in \<tau> ''a1'' \<and>
    drain_verdict (\<lambda>_. []) ''a1'' (summary None empty_ledger) (sys_db \<tau>) (sys_ledger \<tau>) = Inr ()"
proof -
  from drain_submitted obtain \<upsilon> where s: "acts sample_digest drain_submission sys_init = Some \<upsilon>"
    "view (sys_db \<upsilon>) ''a1'' = Some (created_run ''a1'' epoch ''mock'' paid_onboarding)"
    by (cases "acts sample_digest drain_submission sys_init") simp_all
  from drain_completed obtain \<tau> where t: "acts sample_digest drain_work \<upsilon> = Some \<tau>" "completed_in \<tau> ''a1''"
    "other_effects ''a1'' (sys_ledger \<tau>) = []"
    "length (step_attempts ''charge'' (run_events (sys_db \<tau>) ''a1'')) = 1"
    by (cases "acts sample_digest drain_work \<upsilon>") (simp_all add: acts_append s(1))
  from completed_inD [OF t(2)] obtain run where run: "view (sys_db \<tau>) ''a1'' = Some run" "wr_status run = COMPLETED"
    by blast
  have init: "''a1'' \<notin> run_ids (sys_db sys_init)" "other_effects ''a1'' (sys_ledger sys_init) = []"
    "sys_ledger sys_init = empty_ledger"
    by (simp_all add: sys_init_def run_ids_def empty_db_def other_effects_def empty_ledger_def)
  from drain_verdict_exact [OF reachable_init init(1) acts_steps [OF s(1)] s(2) acts_steps [OF t(1)] run, of "\<lambda>_. []"]
  show ?thesis using init t(2-4) by auto
qed

text \<open>The same execution observed by \<open>main\<close>: one worker completes the charge, another one the rest.\<close>

definition drain_first :: "action list" where
  "drain_first = serve (request_of ''a1'' paid_onboarding 0) ''u1'' (epoch + 1)"

definition drained_in :: "sys \<Rightarrow> string \<Rightarrow> bool" where
  "drained_in \<sigma> r \<longleftrightarrow> (case view (sys_db \<sigma>) r of None \<Rightarrow> False
     | Some run \<Rightarrow> wr_status run = RUNNING \<and> (case wr_steps run of [] \<Rightarrow> False | s # ss \<Rightarrow> st_status s = STEP_COMPLETED))"

lemma drain_half: "case acts sample_digest (drain_submission @ drain_first) sys_init of None \<Rightarrow> False
   | Some \<kappa> \<Rightarrow> drained_in \<kappa> ''a1''"
  by code_simp

definition staged_drain :: "db \<Rightarrow> db \<Rightarrow> ledger \<Rightarrow> drain_run" where
  "staged_drain d1 d2 l = \<lparr>gr_before = empty_db, gr_tool_up = Inr (), gr_api_up = Inr (), gr_baseline = empty_ledger,
     gr_response = Created (RunBody (created_run ''a1'' epoch ''mock'' paid_onboarding)),
     gr_charge_committed = Inr (), gr_polled = None, gr_drained = (Some 0, d1), gr_resumed = (Some 0, d2), gr_ledger = l\<rparr>"

lemma nothing_unfinished: "unfinished_runs empty_db = Inr []"
  by code_simp

theorem drain_main_iff_witness:
  "\<exists>\<kappa> :: sys. \<exists>\<tau> :: sys. completed_in \<tau> ''a1'' \<and>
    drain_main (\<lambda>_. []) (staged_drain (sys_db \<kappa>) (sys_db \<tau>) (sys_ledger \<tau>)) = Inr ()"
proof -
  from drain_submitted obtain \<upsilon> where s: "acts sample_digest drain_submission sys_init = Some \<upsilon>"
    "view (sys_db \<upsilon>) ''a1'' = Some (created_run ''a1'' epoch ''mock'' paid_onboarding)"
    by (cases "acts sample_digest drain_submission sys_init") simp_all
  from drain_half obtain \<kappa> where k: "acts sample_digest drain_first \<upsilon> = Some \<kappa>" "drained_in \<kappa> ''a1''"
    by (cases "acts sample_digest drain_first \<upsilon>") (simp_all add: acts_append s(1))
  from drain_completed obtain \<tau> where t: "acts sample_digest drain_work \<upsilon> = Some \<tau>" "completed_in \<tau> ''a1''"
    "other_effects ''a1'' (sys_ledger \<tau>) = []"
    "length (step_attempts ''charge'' (run_events (sys_db \<tau>) ''a1'')) = 1"
    by (cases "acts sample_digest drain_work \<upsilon>") (simp_all add: acts_append s(1))
  from completed_inD [OF t(2)] obtain run where run: "view (sys_db \<tau>) ''a1'' = Some run" "wr_status run = COMPLETED"
    by blast
  have init: "''a1'' \<notin> run_ids (sys_db sys_init)" "other_effects ''a1'' (sys_ledger sys_init) = []"
    "sys_ledger sys_init = empty_ledger"
    by (simp_all add: sys_init_def run_ids_def empty_db_def other_effects_def empty_ledger_def)
  have "\<exists>p s ss. view (sys_db \<kappa>) ''a1'' = Some p \<and> wr_status p = RUNNING \<and> wr_steps p = s # ss \<and> st_status s = STEP_COMPLETED"
    using k(2) by (auto simp: drained_in_def split: option.splits list.splits)
  then have "drain_main (\<lambda>_. []) (staged_drain (sys_db \<kappa>) (sys_db \<tau>) (sys_ledger \<tau>)) = Inr ()"
    using drain_main_iff [OF reachable_init init(1) acts_steps [OF s(1)] s(2) acts_steps [OF k(1)] acts_steps [OF t(1)] run,
        of "staged_drain (sys_db \<kappa>) (sys_db \<tau>) (sys_ledger \<tau>)" "\<lambda>_. []"] init t(3,4) nothing_unfinished
    by (simp add: staged_drain_def)
  with t(2) show ?thesis by blast
qed

text \<open>Two workers of the drain on the submitted run.\<close>

definition drain_submitted_db :: db where
  "drain_submitted_db = snd (create_workflow_run ''a1'' epoch paid_onboarding None ''mock'' empty_db)"

definition round_at :: "int list \<Rightarrow> int \<Rightarrow> poll_round" where
  "round_at signals n = \<lparr>po_signals = signals, po_clock = Finite (of_int n), po_tick = tick_at (epoch + n * second)\<rparr>"

definition drain_rounds :: "poll_round list" where
  "drain_rounds = map (round_at []) [2, 3, 4]"

definition drained_ledger :: ledger where
  "drained_ledger = \<lparr>lg_results = [], lg_effects = map (\<lambda>(op, i). \<lparr>se_id = i, se_operation_key = ''a1:'' @ i,
     se_operation = op, se_request = JObj [], se_created_at = epoch\<rparr>)
     [(CHARGE, ''charge''), (PROVISION, ''provision''), (NOTIFY, ''notify'')]\<rparr>"

lemma drain_db: "quiet drain_submitted_db epoch"
    "view drain_submitted_db ''a1'' = Some (created_run ''a1'' epoch ''mock'' paid_onboarding)"
    "map rr_run_id (db_runs drain_submitted_db) = [''a1'']"
  by code_simp+

lemma drain_db_ok: "db_ok drain_submitted_db"
proof -
  have "db_ok (perform (Create ''a1'' epoch paid_onboarding None ''mock'') empty_db)"
    by (rule perform_ok [OF db_ok_empty]) code_simp
  then show ?thesis by (simp add: drain_submitted_db_def)
qed

lemma drain_deadlines: "deadline (epoch + 1 * second) (Finite 2) = Inr (epoch + 3 * second)"
    "deadline (epoch + 2 * second) (Finite 2) = Inr (epoch + 4 * second)"
    "deadline (epoch + 3 * second) (Finite 2) = Inr (epoch + 5 * second)"
    "deadline (epoch + 4 * second) (Finite 2) = Inr (epoch + 6 * second)"
  by code_simp+

theorem drain_passes_witness:
  "\<exists>d1 d2. poll_forever sample_settings ''w1'' [round_at [] 1, round_at [15] 2] False drain_submitted_db = Some (ExitCode 0, d1) \<and>
    poll_until_terminal sample_settings ''w2'' ''a1'' (Finite 9) drain_rounds False d1 = Some (ExitCode 0, d2) \<and>
    drain_main (\<lambda>_. []) (staged_drain d1 d2 drained_ledger) = Inr ()"
proof -
  have other: "run_status drain_submitted_db q \<noteq> Some RUNNING" if "q \<noteq> ''a1''" for q
  proof -
    have "\<forall>w \<in> set (db_runs drain_submitted_db). rr_run_id w = ''a1''" using drain_db(3) by auto
    then have "run_row_of drain_submitted_db q = None" using that by (auto simp: run_row_of_def find_None_iff)
    then show ?thesis by (simp add: run_status_def)
  qed
  have "0 < second" by (simp add: second_def)
  then have "healthy_ticks sample_settings epoch (map po_tick (round_at [] 1 # drain_rounds))"
    by (simp add: healthy_tick_def tick_at_def sample_settings_def drain_rounds_def round_at_def drain_deadlines [simplified])
  moreover have "es_crash_at sample_settings = None" "length drain_rounds = 3" "po_signals (round_at [] 1) = []"
    "po_signals (round_at [15] 2) \<noteq> []" "list_all (admitted (Some (Finite 9))) drain_rounds"
    by (simp_all add: sample_settings_def drain_rounds_def round_at_def admitted_def)
  ultimately obtain d1 d2 where d: "poll_forever sample_settings ''w1'' [round_at [] 1, round_at [15] 2] False drain_submitted_db =
        Some (ExitCode 0, d1)"
      "poll_until_terminal sample_settings ''w2'' ''a1'' (Finite 9) (drain_rounds @ []) False d1 = Some (ExitCode 0, d2)"
    and main: "\<And>x. gr_response x = Created (RunBody (created_run ''a1'' epoch ''mock'' paid_onboarding)) \<Longrightarrow>
      gr_polled x = None \<Longrightarrow> gr_drained x = (Some (return_code (ExitCode 0)), d1) \<Longrightarrow>
      gr_resumed x = (Some (return_code (ExitCode 0)), d2) \<Longrightarrow>
      drain_main (\<lambda>_. []) x = Inr () \<longleftrightarrow> unfinished_runs (gr_before x) = Inr [] \<and> gr_tool_up x = Inr () \<and>
        gr_api_up x = Inr () \<and> gr_charge_committed x = Inr () \<and>
        ledger_delta (summary None (gr_ledger x)) (summary None (gr_baseline x)) = (1, 1, 1)"
    using drain_passes [OF drain_db_ok drain_db(2) other drain_db(1), of sample_settings "round_at [] 1" drain_rounds
        "round_at [15] 2" "Finite 9" "''w1''" "[]" "''w2''" "[]" "\<lambda>_. []"] by blast
  have "ledger_delta (summary None drained_ledger) (summary None empty_ledger) = (1, 1, 1)" by code_simp
  with main [of "staged_drain d1 d2 drained_ledger"] nothing_unfinished d show ?thesis
    by (intro exI [of _ d1] exI [of _ d2] conjI) (simp_all add: staged_drain_def)
qed

section \<open>A worker process\<close>

text \<open>A process with the default settings, started on the database with one pending run: in its first
  round it claims the run, under a lease of its own, and completes it; then it is signalled.\<close>

lemma default_ttl: "to_double 2 = 2"
proof -
  have "\<lfloor>\<bar>2 :: rat\<bar> * 2 ^ 1074\<rfloor> = \<lfloor>of_int (2 ^ 1075) :: rat\<rfloor>" by simp
  also have "\<dots> = 2 ^ 1075" by (rule floor_of_int)
  finally have "nat \<lfloor>\<bar>2 :: rat\<bar> * 2 ^ 1074\<rfloor> = 1 * 2 ^ 1075" by (simp add: nat_power_eq)
  then have "floorlog 2 (nat \<lfloor>\<bar>2 :: rat\<bar> * 2 ^ 1074\<rfloor>) = floorlog 2 1 + 1075"
    using floorlog_power [of 1 2 1075] by (simp only: mult.commute)
  then have "double_exponent 2 = - 51" by (simp only: double_exponent_def) (simp add: floorlog_def)
  then have u: "power_of_two (double_exponent 2) = 1 / 2 ^ 51" by (simp add: power_of_two_def)
  have "round_half_even (2 / (1 / 2 ^ 51)) = round_half_even (of_int (2 ^ 52))" by simp
  also have "\<dots> = 2 ^ 52" by (rule round_half_even_of_int)
  finally show ?thesis by (simp add: to_double_def u Let_def)
qed

definition shift :: "poll_round list" where
  "shift = [round_at [] 1, round_at [15] 2]"

lemma shift_leaves: "case poll_forever \<lparr>es_max_attempts = 8, es_base_backoff = b, es_max_backoff = m,
      es_lease_ttl = Finite 2, es_crash_at = None\<rparr> ''worker-41-beef'' shift False submitted of
    Some (x, d') \<Rightarrow> x = ExitCode 0 \<and> map le_owner_id (db_leases d') = [''worker-41-beef''] | None \<Rightarrow> False"
  by code_simp


section \<open>The demo's environment\<close>

theorem demo_isolated_witness:
  "from_env (demo_environment ''/state'' ''/signal'' 9000 9001 [''CRASHSAFE_WORKERS'' \<mapsto> ''none'']) =
    Inr (demo_settings ''/state'' 9001)"
  using demo_isolated [of 9001 _ "''/state''" "''/signal''" 9000 "[''CRASHSAFE_WORKERS'' \<mapsto> ''none'']", OF _ _ refl] by simp

text \<open>The charge of worker 1 never commits: the demo has started three processes, and kills the
  one that is left.\<close>

definition stalled_demo :: demo_run where
  "stalled_demo = \<lparr>dr_before = empty_db, dr_tool_up = Inr (), dr_api_up = Inr (),
     dr_paid_response = Created (RunBody (created_run ''a1'' epoch ''mock'' paid_onboarding)),
     dr_trial_response = Created (RunBody (created_run ''b2'' (epoch + 1) ''mock'' trial_activation)),
     dr_charge_committed = Inl TimedOut, dr_retry_seen = Inr (), dr_worker_2 = None, dr_retried = empty_db,
     dr_kill_ledger = empty_ledger, dr_worker_1 = None, dr_killed = empty_db,
     dr_all_completed = Inr (), dr_resumed = None, dr_final = empty_db, dr_ledger = empty_ledger\<rparr>"

lemma stalled_starts: "case start_demo stalled_demo of Inl _ \<Rightarrow> False | Inr ids \<Rightarrow> True"
  by code_simp

lemma stalled_stages: "refuse_unfinished (dr_before stalled_demo) = Inr ()"
    "waited_for (dr_charge_committed stalled_demo) = Inl (WaitFailed TimedOut)"
  by (simp_all add: refuse_unfinished_Inr nothing_unfinished stalled_demo_def waited_for_def)

theorem demo_processes_witness:
  "\<exists>cs sent. run_script (demo_script (\<lambda>_. []) Some (demo_environment ''/state'' ''/signal'' 9000 9001 [''CRASHSAFE_WORKERS'' \<mapsto> ''none''])
      stalled_demo) (\<lambda>h. if h = 2 then None else Some 0) = (Inl (WaitFailed TimedOut), cs, sent) \<and>
    length cs = 3 \<and> set sent = {Kill 2} \<and>
    (\<forall>c \<in> set cs. from_env (ch_environment c) = Inr (demo_settings ''/state'' 9001))"
proof -
  let ?E = "demo_environment ''/state'' ''/signal'' 9000 9001 [''CRASHSAFE_WORKERS'' \<mapsto> ''none'']"
  let ?m = "demo_script (\<lambda>_. []) Some ?E stalled_demo"
  obtain ids where "start_demo stalled_demo = Inr ids" using stalled_starts by (cases "start_demo stalled_demo") simp_all
  then have m: "\<exists>cs. ?m [] = (Inl (WaitFailed TimedOut), cs) \<and> length cs = 3"
    by (simp add: demo_script_def script_simps stalled_stages split: prod.split)
  then obtain cs sent where cs: "length cs = 3" and
    run: "run_script ?m (\<lambda>h. if h = 2 then None else Some 0) = (Inl (WaitFailed TimedOut), cs, sent)"
    by (auto simp: run_script_def)
  note facts = demo_processes [OF _ _ _ _ refl run]
  have "\<forall>c \<in> set cs. from_env (ch_environment c) = Inr (demo_settings ''/state'' 9001)" using facts by simp
  moreover have "set sent = {Kill 2}" using facts cs by auto
  ultimately show ?thesis using run cs by blast
qed

end
