(* ===== verification/Rendering.thy ===== *)
theory Rendering
  imports Timeline Numbers
begin

text \<open>
  The terminal view of a timeline, \<open>format_timeline\<close> of \<open>crashsafe/observability.py\<close>. A text is
  the list of its code points, since the box is drawn outside of ASCII. Python's padding of
  format fields and its \<open>textwrap.wrap\<close> are modelled as they run; \<open>chunks\<close> stands for the
  regular expression by which \<open>textwrap\<close> splits a text into words.
\<close>

section \<open>Code points\<close>

type_synonym unicode = "nat list"

definition plain :: "string \<Rightarrow> unicode" where
  "plain s = map of_char s"

definition ljust :: "nat \<Rightarrow> unicode \<Rightarrow> unicode" where
  "ljust n t = t @ replicate (n - length t) 32"

definition rjust :: "nat \<Rightarrow> unicode \<Rightarrow> unicode" where
  "rjust n t = replicate (n - length t) 32 @ t"

text \<open>The white space of \<open>str.strip\<close>.\<close>

definition space_point :: "nat \<Rightarrow> bool" where
  "space_point c \<longleftrightarrow> 9 \<le> c \<and> c \<le> 13 \<or> 28 \<le> c \<and> c \<le> 32 \<or> c \<in> {133, 160, 5760, 8232, 8233, 8239, 8287, 12288} \<or>
     8192 \<le> c \<and> c \<le> 8202"

definition blank :: "unicode \<Rightarrow> bool" where
  "blank t \<longleftrightarrow> list_all space_point t"

section \<open>Wrapping\<close>

text \<open>\<open>expandtabs()\<close> at the given column, then every ASCII white space becomes a space.\<close>

fun expand_tabs :: "nat \<Rightarrow> unicode \<Rightarrow> unicode" where
  "expand_tabs col [] = []"
| "expand_tabs col (c # cs) =
     (if c = 9 then replicate (8 - col mod 8) 32 @ expand_tabs (col + (8 - col mod 8)) cs
      else c # expand_tabs (if c = 10 \<or> c = 13 then 0 else col + 1) cs)"

definition munge :: "unicode \<Rightarrow> unicode" where
  "munge t = map (\<lambda>c. if 9 \<le> c \<and> c \<le> 13 then 32 else c) (expand_tabs 0 t)"

text \<open>The inner loop: the chunks that still fit on a line, and the rest.\<close>

fun take_chunks :: "nat \<Rightarrow> nat \<Rightarrow> unicode list \<Rightarrow> unicode list \<times> unicode list" where
  "take_chunks width len [] = ([], [])"
| "take_chunks width len (c # cs) =
     (if len + length c \<le> width
      then (case take_chunks width (len + length c) cs of (line, rest) \<Rightarrow> (c # line, rest))
      else ([], c # cs))"

text \<open>\<open>_handle_long_word\<close>: where an overlong chunk is cut, after its last hyphen that fits.\<close>

definition last_hyphen :: "unicode \<Rightarrow> nat option" where
  "last_hyphen t = (case filter (\<lambda>i. t ! i = 45) (rev [0..<length t]) of [] \<Rightarrow> None | i # _ \<Rightarrow> Some i)"

definition cut_at :: "nat \<Rightarrow> unicode \<Rightarrow> nat" where
  "cut_at left chunk =
     (if left < length chunk
      then (case last_hyphen (take left chunk) of
          Some h \<Rightarrow> if 0 < h \<and> list_ex (\<lambda>c. c \<noteq> 45) (take h chunk) then h + 1 else left
        | None \<Rightarrow> left)
      else left)"

definition break_long_word :: "nat \<Rightarrow> unicode list \<Rightarrow> unicode list \<Rightarrow> unicode list \<times> unicode list" where
  "break_long_word width line rest =
     (case rest of
        [] \<Rightarrow> (line, rest)
      | c # cs \<Rightarrow>
          if length c \<le> width then (line, rest)
          else (let left = (if width < 1 then 1 else width - length (concat line)); k = cut_at left c in
                (line @ [take k c], drop k c # cs)))"

definition drop_last_blank :: "unicode list \<Rightarrow> unicode list" where
  "drop_last_blank line = (if line \<noteq> [] \<and> blank (last line) then butlast line else line)"

definition drop_first_blank :: "bool \<Rightarrow> unicode list \<Rightarrow> unicode list" where
  "drop_first_blank first cs = (case cs of [] \<Rightarrow> [] | c # cs' \<Rightarrow> if \<not> first \<and> blank c then cs' else cs)"

definition subsequent_indent :: unicode where
  "subsequent_indent = [32, 32]"

text \<open>One line: what is left over, and the pieces on it.\<close>

definition next_line :: "nat \<Rightarrow> bool \<Rightarrow> unicode list \<Rightarrow> unicode list \<times> unicode list" where
  "next_line width first cs =
     (let w = (if first then width else width - length subsequent_indent) in
      case take_chunks w 0 (drop_first_blank first cs) of (line, rest) \<Rightarrow>
        (case break_long_word w line rest of (line', rest') \<Rightarrow> (drop_last_blank line', rest')))"

text \<open>Every line takes a chunk or cuts one, so the loop ends when there is room for a character.\<close>

lemma take_chunks_split:
  "take_chunks w len cs = (line, rest) \<Longrightarrow> cs = line @ rest \<and> length (concat line) \<le> w - len \<and>
    (rest \<noteq> [] \<longrightarrow> w < len + length (concat line) + length (hd rest))"
proof (induction w len cs arbitrary: line rule: take_chunks.induct)
  case (2 width len c cs)
  then show ?case by (fastforce split: if_splits prod.splits)
qed simp

lemma cut_le: "cut_at left chunk \<le> left"
proof -
  have "h < length t" if "last_hyphen t = Some h" for t h
    using that by (auto simp: last_hyphen_def split: list.splits dest!: arg_cong [of _ _ set])
  then show ?thesis by (fastforce simp: cut_at_def split: option.splits)
qed

lemma cut_pos: "0 < left \<Longrightarrow> 0 < cut_at left chunk"
  by (simp add: cut_at_def split: option.splits)

definition chunk_size :: "unicode list \<Rightarrow> nat" where
  "chunk_size cs = sum_list (map (\<lambda>c. Suc (length c)) cs)"

lemma chunk_size_simps [simp]:
  "chunk_size [] = 0" "chunk_size (c # cs) = Suc (length c) + chunk_size cs"
  "chunk_size (xs @ ys) = chunk_size xs + chunk_size ys"
  by (simp_all add: chunk_size_def)

lemma next_line_smaller:
  assumes "cs \<noteq> []" and "next_line width first cs = (line, rest)"
  shows "chunk_size rest < chunk_size cs"
proof -
  define w where "w = (if first then width else width - length subsequent_indent)"
  let ?cs = "drop_first_blank first cs"
  obtain xs ys where t: "take_chunks w 0 ?cs = (xs, ys)" by fastforce
  note split = take_chunks_split [OF t]
  obtain l where b: "break_long_word w xs ys = (l, rest)"
    using assms(2) t by (auto simp: next_line_def w_def split: prod.splits)
  have le: "chunk_size ?cs \<le> chunk_size cs" "?cs = cs \<or> chunk_size ?cs < chunk_size cs"
    by (auto simp: drop_first_blank_def split: list.splits)
  show ?thesis
  proof (cases ys)
    case Nil
    then show ?thesis using b assms(1) by (cases cs) (auto simp: break_long_word_def)
  next
    case (Cons c zs)
    then have cs: "chunk_size ?cs = chunk_size xs + Suc (length c) + chunk_size zs" using split by simp
    show ?thesis
    proof (cases "length c \<le> w")
      case True
      then have "xs \<noteq> []" using split Cons by auto
      then have "0 < chunk_size xs" by (cases xs) simp_all
      moreover have "rest = c # zs" using True b Cons by (simp add: break_long_word_def)
      ultimately show ?thesis using cs le by auto
    next
      case False
      define k where "k = cut_at (if w < 1 then 1 else w - length (concat xs)) c"
      have rest: "rest = drop k c # zs" using False b Cons by (simp add: break_long_word_def k_def Let_def)
      show ?thesis
      proof (cases xs)
        case Nil
        then have "0 < k" by (auto simp: k_def intro: cut_pos)
        with False cs rest le Nil show ?thesis by simp
      qed (use cs rest le in simp)
    qed
  qed
qed

function wrap_chunks :: "nat \<Rightarrow> bool \<Rightarrow> unicode list \<Rightarrow> unicode list" where
  "wrap_chunks width first cs =
     (if cs = [] then []
      else (case next_line width first cs of (line, rest) \<Rightarrow>
        if line = [] then wrap_chunks width first rest
        else ((if first then [] else subsequent_indent) @ concat line) # wrap_chunks width False rest))"
  by auto
termination
  by (relation "measure (\<lambda>(width, first, cs). chunk_size cs)") (auto intro: next_line_smaller [OF _ sym])

declare wrap_chunks.simps [simp del]

definition wrap :: "(unicode \<Rightarrow> unicode list) \<Rightarrow> nat \<Rightarrow> unicode \<Rightarrow> unicode list" where
  "wrap chunks width t = wrap_chunks width True (chunks (munge t))"

section \<open>The box\<close>

definition box_title :: "unicode \<Rightarrow> nat \<Rightarrow> unicode" where
  "box_title title width =
     (let label = [9472, 32] @ title @ [32] in
      [9581] @ label @ replicate (width - length label - 2) 9472 @ [9582])"

definition box_separator :: "nat \<Rightarrow> unicode" where
  "box_separator width = [9500] @ replicate (width - 2) 9472 @ [9508]"

definition box_line :: "nat \<Rightarrow> unicode \<Rightarrow> unicode" where
  "box_line content_width part = [9474, 32] @ ljust content_width part @ [32, 9474]"

definition append_box_line :: "(unicode \<Rightarrow> unicode list) \<Rightarrow> unicode \<Rightarrow> nat \<Rightarrow> unicode list" where
  "append_box_line chunks content width =
     (let content_width = width - 4;
          wrapped = (if length content \<le> content_width then [content] else wrap chunks content_width content)
      in map (box_line content_width) (if wrapped = [] then [[]] else wrapped))"

fun event_symbol :: "event_type \<Rightarrow> nat" where
  "event_symbol WORKFLOW_RUN_CREATED = 9671"
| "event_symbol STEP_ATTEMPT_STARTED = 9679"
| "event_symbol STEP_RETRY_SCHEDULED = 8635"
| "event_symbol STEP_COMPLETED_EVENT = 10003"
| "event_symbol STEP_FAILED_EVENT = 10005"
| "event_symbol WORKFLOW_RUN_COMPLETED = 9670"
| "event_symbol WORKFLOW_RUN_FAILED = 10005"

fun upper_status :: "workflow_run_status \<Rightarrow> string" where
  "upper_status RUNNING = ''RUNNING''"
| "upper_status COMPLETED = ''COMPLETED''"
| "upper_status FAILED = ''FAILED''"

text \<open>The contents of the lines; an absent number prints as \<open>None\<close> or as a dash.\<close>

definition status_content :: "timeline_summary \<Rightarrow> unicode" where
  "status_content s =
     plain ''STATUS   '' @ [if ts_status s = COMPLETED then 10003 else 9679] @ plain '' '' @
     ljust 9 (plain (upper_status (ts_status s))) @ plain '' DURATION  '' @
     ljust 8 (plain (format_duration (ts_duration_ms s))) @ plain '' ATTEMPTS  '' @
     ljust 3 (plain (show_nat (ts_attempts s))) @ plain ''  RETRIES  '' @
     ljust 3 (plain (show_nat (ts_retries s))) @ plain ''  PLANNED WAIT  '' @
     plain (format_duration (ts_planned_wait_ms s))"

definition owner_content :: "timeline_entry \<Rightarrow> unicode" where
  "owner_content e = (case te_worker_id e of
     None \<Rightarrow> [8212]
   | Some worker \<Rightarrow> plain worker @ [32, 183, 32] @ plain ''f'' @ plain (case te_fence_token e of
       None \<Rightarrow> ''None'' | Some f \<Rightarrow> show_int f))"

definition attempt_content :: "timeline_entry \<Rightarrow> unicode" where
  "attempt_content e = (case te_attempt e of None \<Rightarrow> [8212] | Some n \<Rightarrow> plain ''#'' @ plain (show_int n))"

definition entry_content :: "timeline_entry \<Rightarrow> unicode" where
  "entry_content e =
     plain ''+'' @ ljust 9 (plain (format_duration (te_elapsed_ms e))) @ plain '' '' @
     rjust 2 (plain (show_int (te_sequence e))) @ plain ''  '' @
     [event_symbol (te_event_type e)] @ plain '' '' @ ljust 19 (plain (event_label (te_event_type e))) @ plain '' '' @
     ljust 19 (plain (case te_step_id e of None \<Rightarrow> ''run'' | Some i \<Rightarrow> if i = [] then ''run'' else i)) @ plain '' '' @
     ljust 5 (attempt_content e) @ plain '' '' @ owner_content e"

definition detail_contents :: "timeline_entry \<Rightarrow> unicode list" where
  "detail_contents e = map (\<lambda>(n, detail).
     plain ''             '' @ [if n = 0 then 8627 else 32] @ plain '' '' @ plain detail)
     (enumerate 0 (timeline_details (te_detail e) (te_wait_ms e)))"

definition heading :: unicode where
  "heading = plain ''TIME       #   EVENT                 STEP                TRY   WORKER '' @ [183] @ plain '' FENCE''"

definition timeline_lines :: "(unicode \<Rightarrow> unicode list) \<Rightarrow> nat \<Rightarrow> timeline \<Rightarrow> unicode list" where
  "timeline_lines chunks width t =
     [box_title (plain ''WORKFLOW RUN'') width] @
     append_box_line chunks (plain ''ID       '' @ plain (tl_run_id t)) width @
     append_box_line chunks (status_content (tl_summary t)) width @
     [box_separator width] @
     append_box_line chunks heading width @
     [box_separator width] @
     concat (map (\<lambda>e. append_box_line chunks (entry_content e) width @
       concat (map (\<lambda>c. append_box_line chunks c width) (detail_contents e))) (tl_entries t)) @
     [[9584] @ replicate (width - 2) 9472 @ [9583]]"

text \<open>\<open>columns\<close> is the width of the terminal.\<close>

definition format_width :: "int \<Rightarrow> int option \<Rightarrow> nat" where
  "format_width columns width = nat (max 72 (case width of Some w \<Rightarrow> w | None \<Rightarrow> columns - 1))"

fun join_lines :: "unicode list \<Rightarrow> unicode" where
  "join_lines [] = []"
| "join_lines [l] = l"
| "join_lines (l # ls) = l @ 10 # join_lines ls"

text \<open>\<open>str.splitlines\<close>: how the printed text falls into lines.\<close>

definition line_break :: "nat \<Rightarrow> bool" where
  "line_break c \<longleftrightarrow> c \<in> {10, 11, 12, 13, 28, 29, 30, 133, 8232, 8233}"

function splitlines :: "unicode \<Rightarrow> unicode list" where
  "splitlines t =
     (if t = [] then []
      else takeWhile (\<lambda>c. \<not> line_break c) t #
        (case dropWhile (\<lambda>c. \<not> line_break c) t of
           [] \<Rightarrow> []
         | c # cs \<Rightarrow> splitlines (if c = 13 \<and> take 1 cs = [10] then tl cs else cs)))"
  by auto
termination
proof (relation "measure length")
  fix t c cs assume "dropWhile (\<lambda>c. \<not> line_break c) t = c # cs"
  from arg_cong [OF this, of length] have "length cs < length t"
    using length_dropWhile_le [of "\<lambda>c. \<not> line_break c" t] by simp
  then show "(if c = 13 \<and> take 1 cs = [10] then tl cs else cs, t) \<in> measure length"
    by (simp add: less_imp_diff_less)
qed simp

declare splitlines.simps [simp del]

definition format_timeline :: "(unicode \<Rightarrow> unicode list) \<Rightarrow> int \<Rightarrow> timeline \<Rightarrow> int option \<Rightarrow> unicode" where
  "format_timeline chunks columns t width = join_lines (timeline_lines chunks (format_width columns width) t)"

section \<open>Alignment\<close>

lemma concat_drop_last_blank: "length (concat (drop_last_blank line)) \<le> length (concat line)"
proof (cases line rule: rev_cases)
  case (snoc xs x)
  then show ?thesis by (simp add: drop_last_blank_def)
qed (simp add: drop_last_blank_def)

lemma next_line_fits:
  assumes "next_line width first cs = (line, rest)" and "2 < width"
  shows "length (concat line) \<le> (if first then width else width - 2)"
proof -
  define w where "w = (if first then width else width - length subsequent_indent)"
  obtain xs ys where t: "take_chunks w 0 (drop_first_blank first cs) = (xs, ys)" by fastforce
  obtain l where b: "break_long_word w xs ys = (l, rest)" "line = drop_last_blank l"
    using assms(1) t by (auto simp: next_line_def w_def split: prod.splits)
  have w: "1 \<le> w" using assms(2) by (cases first) (simp_all add: w_def subsequent_indent_def)
  have "length (concat xs) \<le> w" using take_chunks_split [OF t] by simp
  moreover have "length (take (cut_at left c) c) \<le> left" for left c
    using cut_le [of left c] by simp
  ultimately have "length (concat l) \<le> w"
    using b(1) w by (auto simp: break_long_word_def Let_def not_less split: list.splits if_splits)
      (metis add_le_cancel_left le_add_diff_inverse length_take)
  with concat_drop_last_blank [of l] b(2) show ?thesis by (simp add: w_def subsequent_indent_def split: if_splits)
qed

lemma wrap_chunks_fits:
  "2 < width \<Longrightarrow> t \<in> set (wrap_chunks width first cs) \<Longrightarrow> length t \<le> width"
proof (induction width first cs rule: wrap_chunks.induct)
  case (1 width first cs)
  show ?case
  proof (cases "cs = []")
    case True
    with 1(4) show ?thesis by (simp add: wrap_chunks.simps)
  next
    case False
    obtain line rest where n: "next_line width first cs = (line, rest)" by fastforce
    show ?thesis
      using 1(1) [OF False n [symmetric]] 1(2) [OF False n [symmetric]] 1(3,4) False n next_line_fits [OF n 1(3)]
      by (auto simp: wrap_chunks.simps [of width first cs] subsequent_indent_def split: if_splits)
  qed
qed

lemma box_line_length: "length part \<le> width - 4 \<Longrightarrow> 4 \<le> width \<Longrightarrow> length (box_line (width - 4) part) = width"
  by (simp add: box_line_def ljust_def)

lemma append_box_line_aligned:
  assumes "72 \<le> width" and "l \<in> set (append_box_line chunks content width)"
  shows "length l = width"
proof -
  have "length part \<le> width - 4" if "part \<in> set (wrap chunks (width - 4) content)" for part
    using that assms(1) wrap_chunks_fits [of "width - 4" part True] by (simp add: wrap_def)
  with assms show ?thesis
    by (auto simp: append_box_line_def Let_def intro!: box_line_length split: if_splits)
qed

lemma append_box_line_nonempty: "1 \<le> length (append_box_line chunks content width)"
  by (simp add: append_box_line_def Let_def Suc_le_eq)

lemma timeline_lines_length: "6 + length (tl_entries t) < length (timeline_lines chunks width t)"
proof -
  have "length es \<le> length (concat (map (\<lambda>e. append_box_line chunks (entry_content e) width @
      concat (map (\<lambda>c. append_box_line chunks c width) (detail_contents e))) es))" for es
  proof (induction es)
    case (Cons e es)
    moreover note append_box_line_nonempty [of chunks "entry_content e" width]
    ultimately show ?case unfolding list.map concat.simps length_append list.size by linarith
  qed simp
  from this [of "tl_entries t"] show ?thesis
    using append_box_line_nonempty [of chunks "plain ''ID       '' @ plain (tl_run_id t)" width]
      append_box_line_nonempty [of chunks "status_content (tl_summary t)" width]
      append_box_line_nonempty [of chunks heading width]
    unfolding timeline_lines_def length_append list.size by linarith
qed

section \<open>Lines of the printed text\<close>

definition unbroken :: "unicode \<Rightarrow> bool" where
  "unbroken t \<longleftrightarrow> (\<forall>c \<in> set t. \<not> line_break c)"

lemma unbroken_simps [simp]:
  "unbroken []" "unbroken (c # t) \<longleftrightarrow> \<not> line_break c \<and> unbroken t" "unbroken (t @ u) \<longleftrightarrow> unbroken t \<and> unbroken u"
  "unbroken (replicate n c) \<longleftrightarrow> n = 0 \<or> \<not> line_break c"
  by (auto simp: unbroken_def)

lemma unbroken_mono: "set t \<subseteq> set u \<union> {32} \<Longrightarrow> unbroken u \<Longrightarrow> unbroken t"
  by (auto simp: unbroken_def line_break_def)

lemma splitlines_append:
  assumes "unbroken l"
  shows "splitlines (l @ 10 # t) = l # splitlines t" and "l \<noteq> [] \<Longrightarrow> splitlines l = [l]"
proof -
  have nl: "line_break 10" by (simp add: line_break_def)
  have "takeWhile (\<lambda>c. \<not> line_break c) (l @ 10 # t) = l"
    "dropWhile (\<lambda>c. \<not> line_break c) (l @ 10 # t) = 10 # t"
    using assms nl by (simp_all add: unbroken_def takeWhile_append2 dropWhile_append2)
  then show "splitlines (l @ 10 # t) = l # splitlines t" by (simp add: splitlines.simps [of "l @ 10 # t"])
  have "takeWhile (\<lambda>c. \<not> line_break c) l = l" and none: "dropWhile (\<lambda>c. \<not> line_break c) l = []"
    using assms by (simp_all add: unbroken_def takeWhile_eq_all_conv dropWhile_eq_Nil_conv)
  then show "l \<noteq> [] \<Longrightarrow> splitlines l = [l]" unfolding splitlines.simps [of l] none by simp
qed

text \<open>A line that is broken begins with a part shorter than itself.\<close>

lemma broken_first:
  assumes "\<not> unbroken l"
  obtains first rest where "splitlines (l @ t) = first # rest" and "length first < length l"
proof -
  from assms obtain xs c ys where l: "l = xs @ c # ys" "line_break c" "\<forall>x \<in> set xs. \<not> line_break x"
    using split_list_first_prop [of l line_break] by (auto simp: unbroken_def)
  then have "takeWhile (\<lambda>c. \<not> line_break c) (l @ t) = xs" "l @ t \<noteq> []" by (simp_all add: takeWhile_append2)
  then obtain rest where "splitlines (l @ t) = xs # rest" by (subst (asm) splitlines.simps) simp
  then show thesis by (rule that) (simp add: l(1))
qed

lemma join_aligned_iff:
  assumes "0 < w" and "list_all (\<lambda>l. length l = w) ls"
  shows "list_all (\<lambda>l. length l = w) (splitlines (join_lines ls)) \<longleftrightarrow> list_all unbroken ls"
    and "list_all unbroken ls \<Longrightarrow> splitlines (join_lines ls) = ls"
proof -
  have "(list_all (\<lambda>l. length l = w) (splitlines (join_lines ls)) \<longleftrightarrow> list_all unbroken ls) \<and>
      (list_all unbroken ls \<longrightarrow> splitlines (join_lines ls) = ls)"
    using assms(2)
  proof (induction ls rule: join_lines.induct)
    case 1
    then show ?case by (simp add: splitlines.simps)
  next
    case (2 l)
    then show ?case
      using splitlines_append(2) [of l] broken_first [of l "[]"] assms(1) by (cases "unbroken l") fastforce+
  next
    case (3 l m ms)
    then show ?case
      using splitlines_append(1) [of l] broken_first [of l "10 # join_lines (m # ms)"]
      by (cases "unbroken l") fastforce+
  qed
  then show "list_all (\<lambda>l. length l = w) (splitlines (join_lines ls)) \<longleftrightarrow> list_all unbroken ls"
    and "list_all unbroken ls \<Longrightarrow> splitlines (join_lines ls) = ls" by simp_all
qed

text \<open>Wrapping adds nothing but spaces.\<close>

lemma set_munge: "set (munge t) \<subseteq> set t \<union> {32}"
proof -
  have "set (expand_tabs col t) \<subseteq> set t \<union> {32}" for col
    by (induction col t rule: expand_tabs.induct) auto
  then show ?thesis by (fastforce simp: munge_def)
qed

lemma next_line_set:
  assumes "next_line width first cs = (line, rest)"
  shows "set (concat line) \<union> set (concat rest) \<subseteq> set (concat cs)"
proof -
  define w where "w = (if first then width else width - length subsequent_indent)"
  obtain xs ys where t: "take_chunks w 0 (drop_first_blank first cs) = (xs, ys)" by fastforce
  obtain l where b: "break_long_word w xs ys = (l, rest)" "line = drop_last_blank l"
    using assms t by (auto simp: next_line_def w_def split: prod.splits)
  have "set (concat (drop_last_blank l)) \<subseteq> set (concat l)"
    by (cases l rule: rev_cases) (auto simp: drop_last_blank_def)
  moreover have "set (concat l) \<union> set (concat rest) \<subseteq> set (concat xs) \<union> set (concat ys)"
    using b(1) by (auto simp: break_long_word_def Let_def split: list.splits if_splits dest: in_set_takeD in_set_dropD)
  moreover have "set (concat xs) \<union> set (concat ys) = set (concat (drop_first_blank first cs))"
    using take_chunks_split [OF t] by simp
  moreover have "set (concat (drop_first_blank first cs)) \<subseteq> set (concat cs)"
    by (cases cs) (simp_all add: drop_first_blank_def)
  ultimately show ?thesis unfolding b(2) by blast
qed

lemma wrap_chunks_set: "part \<in> set (wrap_chunks width first cs) \<Longrightarrow> set part \<subseteq> set (concat cs) \<union> {32}"
proof (induction width first cs rule: wrap_chunks.induct)
  case (1 width first cs)
  show ?case
  proof (cases "cs = []")
    case True
    with 1(3) show ?thesis by (simp add: wrap_chunks.simps)
  next
    case False
    obtain line rest where n: "next_line width first cs = (line, rest)" by fastforce
    note s = next_line_set [OF n]
    show ?thesis
      using 1(1) [OF False n [symmetric]] 1(2) [OF False n [symmetric]] 1(3) False n s
      by (auto simp: wrap_chunks.simps [of width first cs] subsequent_indent_def split: if_splits; blast)
  qed
qed

lemma append_box_line_unbroken:
  assumes cut: "\<And>t. set (concat (chunks t)) \<subseteq> set t" and "unbroken content"
    and "l \<in> set (append_box_line chunks content width)"
  shows "unbroken l"
proof -
  have part: "unbroken part" if "part \<in> set (wrap chunks (width - 4) content)" for part
    using unbroken_mono [OF _ assms(2)] wrap_chunks_set that cut [of "munge content"] set_munge [of content]
    unfolding wrap_def by blast
  have box: "unbroken (box_line n part) \<longleftrightarrow> unbroken part" for n part
    by (simp add: box_line_def ljust_def line_break_def)
  show ?thesis using assms(2,3) part by (auto simp: append_box_line_def Let_def box split: if_splits)
qed

text \<open>What fits is drawn as it is.\<close>

lemma short_content_drawn:
  "length content \<le> width - 4 \<Longrightarrow> append_box_line chunks content width = [box_line (width - 4) content]"
  by (simp add: append_box_line_def)

section \<open>Texts without line breaks\<close>

lemma unbroken_plain: "unbroken (plain s) \<longleftrightarrow> (\<forall>c \<in> set s. \<not> line_break (of_char c))"
  by (simp add: unbroken_def plain_def)

lemma unbroken_show [simp]: "unbroken (plain (show_nat n))" "unbroken (plain (show_int i))"
proof -
  have "\<not> line_break (of_char c)" if "is_digit c" for c
    using that by (auto simp: is_digit_def line_break_def Let_def)
  with show_nat_digits show nat: "unbroken (plain (show_nat n))" for n unfolding unbroken_plain by blast
  then show "unbroken (plain (show_int i))"
    using nat [of "nat i"] nat [of "nat (- i)"] by (simp add: show_int_def plain_def line_break_def)
qed

lemma plain_append [simp]: "plain (s @ t) = plain s @ plain t" "plain (c # s) = of_char c # plain s" "plain [] = []"
  by (simp_all add: plain_def)

lemma unbroken_duration [simp]: "unbroken (plain (format_duration ms))"
  by (simp add: format_duration_def fixed3_def Let_def line_break_def)

lemma unbroken_just [simp]: "unbroken (ljust n t) \<longleftrightarrow> unbroken t" "unbroken (rjust n t) \<longleftrightarrow> unbroken t"
  by (auto simp: ljust_def rjust_def line_break_def)

text \<open>The texts of a timeline that do not come from the code itself.\<close>

definition unbroken_timeline :: "timeline \<Rightarrow> bool" where
  "unbroken_timeline t \<longleftrightarrow> unbroken (plain (tl_run_id t)) \<and> (\<forall>e \<in> set (tl_entries t).
     (\<forall>text. te_step_id e = Some text \<or> te_worker_id e = Some text \<or> te_detail e = Some text \<longrightarrow> unbroken (plain text)))"

lemma split_once_set: "split_once sep s = Some (a, b) \<Longrightarrow> set a \<union> set b \<subseteq> set s"
  by (induction sep s arbitrary: a rule: split_once.induct)
    (auto split: if_splits dest: in_set_dropD)

lemma details_unbroken:
  assumes "\<forall>text. te_detail e = Some text \<longrightarrow> unbroken (plain text)" and "c \<in> set (detail_contents e)"
  shows "unbroken c"
proof -
  have "unbroken (plain d)" if "d \<in> set (timeline_details (te_detail e) (te_wait_ms e))" for d
    using that assms(1) split_once_set
    by (auto simp: timeline_details_def Let_def line_break_def split: option.splits if_splits list.splits; fastforce simp: unbroken_plain)
  with assms(2) show ?thesis
    by (auto simp: detail_contents_def in_set_enumerate_eq line_break_def)
qed

lemma contents_unbroken:
  "unbroken (status_content s)" "unbroken heading"
  "(\<And>text. te_step_id e = Some text \<or> te_worker_id e = Some text \<Longrightarrow> unbroken (plain text)) \<Longrightarrow> unbroken (entry_content e)"
proof -
  show "unbroken (status_content s)" by (cases "ts_status s") (simp_all add: status_content_def line_break_def)
  show "unbroken heading" by (simp add: heading_def line_break_def)
  assume texts: "\<And>text. te_step_id e = Some text \<or> te_worker_id e = Some text \<Longrightarrow> unbroken (plain text)"
  have "unbroken (plain (event_label (te_event_type e)))" "\<not> line_break (event_symbol (te_event_type e))"
    by (cases "te_event_type e"; simp add: line_break_def)+
  moreover have "unbroken (owner_content e)" "unbroken (attempt_content e)"
    using texts by (auto simp: owner_content_def attempt_content_def line_break_def split: option.splits)
  ultimately show "unbroken (entry_content e)"
    using texts by (auto simp: entry_content_def line_break_def split: option.splits)
qed

section \<open>Alignment of the printed text\<close>

lemma timeline_lines_aligned:
  assumes "72 \<le> width"
  shows "list_all (\<lambda>l. length l = width) (timeline_lines chunks width t)"
proof -
  have "length (box_title (plain ''WORKFLOW RUN'') width) = width" "length (box_separator width) = width"
    using assms by (simp_all add: box_title_def box_separator_def plain_def)
  with assms append_box_line_aligned [OF assms] show ?thesis by (auto simp: timeline_lines_def list_all_iff)
qed

lemma timeline_lines_unbroken:
  assumes cut: "\<And>t. set (concat (chunks t)) \<subseteq> set t" and texts: "unbroken_timeline t"
  shows "list_all unbroken (timeline_lines chunks width t)"
proof -
  have box: "list_all unbroken (append_box_line chunks content width)" if "unbroken content" for content
    using append_box_line_unbroken [OF cut that] by (simp add: list_all_iff)
  have id: "unbroken (plain ''ID       '' @ plain (tl_run_id t))"
    using texts by (simp add: unbroken_timeline_def line_break_def)
  have "list_all unbroken (append_box_line chunks (entry_content e) width @
      concat (map (\<lambda>c. append_box_line chunks c width) (detail_contents e)))" if e: "e \<in> set (tl_entries t)" for e
  proof -
    have "unbroken (entry_content e)"
      by (rule contents_unbroken(3)) (use texts e in \<open>auto simp: unbroken_timeline_def\<close>)
    moreover have "unbroken c" if "c \<in> set (detail_contents e)" for c
      by (rule details_unbroken [OF _ that]) (use texts e in \<open>simp add: unbroken_timeline_def\<close>)
    ultimately show ?thesis using box by (auto simp: list_all_iff)
  qed
  then have entries: "list_all unbroken (concat (map (\<lambda>e. append_box_line chunks (entry_content e) width @
      concat (map (\<lambda>c. append_box_line chunks c width) (detail_contents e))) (tl_entries t)))"
    by (simp add: list_all_iff)
  have frame: "unbroken (box_title (plain ''WORKFLOW RUN'') width)" "unbroken (box_separator width)"
    "unbroken ([9584] @ replicate (width - 2) 9472 @ [9583])"
    by (simp_all add: box_title_def box_separator_def line_break_def Let_def)
  show ?thesis
    unfolding timeline_lines_def
    by (simp only: list_all_append list.pred_inject frame box [OF id] box [OF contents_unbroken(1)]
        box [OF contents_unbroken(2)] entries simp_thms)
qed

text \<open>C31: when the printed timeline is a box. However the terminal is sized, the lines of the
  printed text have all the same number of characters, at least 72, exactly if nothing that
  is drawn contains a line break. So they have if the identifiers, worker names and details
  of the timeline contain none, however long they are and however \<open>textwrap\<close> splits them
  (its chunks are pieces of the text), and there is then at least one line for every entry.
  They have not if a detail that fits on a line contains a line break, since only what is
  too long is wrapped, and only wrapping replaces it: an error message with the two lines
  of a response tears the box.\<close>

theorem format_timeline_aligned:
  assumes "\<And>t. set (concat (chunks t)) \<subseteq> set t"
    and "w = format_width columns width" and "ls = splitlines (format_timeline chunks columns t width)"
  shows "72 \<le> w \<and>
    (list_all (\<lambda>l. length l = w) ls \<longleftrightarrow> list_all unbroken (timeline_lines chunks w t)) \<and>
    (unbroken_timeline t \<longrightarrow> list_all (\<lambda>l. length l = w) ls \<and> 6 + length (tl_entries t) < length ls) \<and>
    ((\<exists>e \<in> set (tl_entries t). \<exists>c \<in> set (detail_contents e). length c \<le> w - 4 \<and> \<not> unbroken c) \<longrightarrow>
       \<not> list_all (\<lambda>l. length l = w) ls)"
proof -
  let ?lines = "timeline_lines chunks w t"
  have w: "72 \<le> w" by (simp add: assms(2) format_width_def)
  have ls: "ls = splitlines (join_lines ?lines)" by (simp add: assms(2,3) format_timeline_def)
  have pos: "0 < w" using w by simp
  note aligned = join_aligned_iff [OF pos timeline_lines_aligned [OF w], of chunks t, folded ls]
  have torn: "\<not> list_all unbroken ?lines"
    if e: "e \<in> set (tl_entries t)" and c: "c \<in> set (detail_contents e)" "length c \<le> w - 4" "\<not> unbroken c" for e c
  proof -
    have "box_line (w - 4) c \<in> set (append_box_line chunks c w)" using short_content_drawn [OF c(2)] by simp
    then have "box_line (w - 4) c \<in> set ?lines" using e c(1) unfolding timeline_lines_def by auto
    moreover have "\<not> unbroken (box_line (w - 4) c)" using c(3) by (simp add: box_line_def)
    ultimately show ?thesis by (auto simp: list_all_iff)
  qed
  have whole: "list_all (\<lambda>l. length l = w) ls \<and> 6 + length (tl_entries t) < length ls" if "unbroken_timeline t"
  proof -
    note lines = timeline_lines_unbroken [OF assms(1) that, of w]
    from lines aligned(1) have "list_all (\<lambda>l. length l = w) ls" by blast
    moreover from aligned(2) [OF lines] have "ls = ?lines" .
    ultimately show ?thesis using timeline_lines_length [of t chunks w] by simp
  qed
  from w aligned(1) whole torn show ?thesis by blast
qed

text \<open>A response of two short lines, as an error of the tool has it, and one without the break.\<close>

definition torn_timeline :: "string \<Rightarrow> timeline" where
  "torn_timeline detail = \<lparr>tl_run_id = ''a1'',
     tl_entries = [\<lparr>te_sequence = 3, te_elapsed_ms = 20, te_occurred_at = 0, te_event_type = STEP_FAILED_EVENT,
       te_step_id = Some ''pay'', te_operation = None, te_attempt = Some 1, te_worker_id = None,
       te_fence_token = None, te_wait_ms = None, te_detail = Some detail\<rparr>],
     tl_summary = \<lparr>ts_status = FAILED, ts_duration_ms = 20, ts_attempts = 1, ts_retries = 0,
       ts_planned_wait_ms = 0, ts_step_duration_ms = Map.empty\<rparr>\<rparr>"

theorem format_timeline_aligned_witness:
  "list_all (\<lambda>l. length l = 72) (splitlines (format_timeline (\<lambda>t. [t]) 80 (torn_timeline ''HTTP 400: a'') (Some 60))) \<and>
   \<not> list_all (\<lambda>l. length l = 72)
      (splitlines (format_timeline (\<lambda>t. [t]) 80 (torn_timeline (''HTTP 400: a'' @ CHR 0x0A # ''b'')) (Some 60)))"
proof
  have w: "format_width 80 (Some 60) = 72" by (simp add: format_width_def)
  have aligned:
    "unbroken_timeline t \<Longrightarrow> list_all (\<lambda>l. length l = 72) (splitlines (format_timeline (\<lambda>t. [t]) 80 t (Some 60)))"
    "\<exists>e \<in> set (tl_entries t). \<exists>c \<in> set (detail_contents e). length c \<le> 72 - 4 \<and> \<not> unbroken c \<Longrightarrow>
      \<not> list_all (\<lambda>l. length l = 72) (splitlines (format_timeline (\<lambda>t. [t]) 80 t (Some 60)))" for t
    using format_timeline_aligned [of "\<lambda>t. [t]", OF _ w [symmetric] refl, of t] by auto
  have "unbroken_timeline (torn_timeline ''HTTP 400: a'')"
    by (auto simp: unbroken_timeline_def torn_timeline_def line_break_def)
  then show "list_all (\<lambda>l. length l = 72)
      (splitlines (format_timeline (\<lambda>t. [t]) 80 (torn_timeline ''HTTP 400: a'') (Some 60)))" by (rule aligned(1))
  let ?t = "torn_timeline (''HTTP 400: a'' @ CHR 0x0A # ''b'')"
  have "\<exists>e \<in> set (tl_entries ?t). \<exists>c \<in> set (detail_contents e). length c \<le> 72 - 4 \<and> \<not> unbroken c"
    by (simp add: torn_timeline_def detail_contents_def timeline_details_def line_break_def)
  then show "\<not> list_all (\<lambda>l. length l = 72) (splitlines (format_timeline (\<lambda>t. [t]) 80 ?t (Some 60)))"
    by (rule aligned(2))
qed

section \<open>Wrapping keeps the text\<close>

definition ink :: "unicode \<Rightarrow> unicode" where
  "ink t = filter (\<lambda>c. \<not> space_point c) t"

lemma ink_simps [simp]: "ink [] = []" "ink (xs @ ys) = ink xs @ ink ys" "ink (replicate n 32) = []"
  by (simp_all add: ink_def space_point_def)

lemma ink_Cons: "ink (c # cs) = (if space_point c then [] else [c]) @ ink cs"
  by (simp add: ink_def)

lemma ink_cut: "ink (take k t) @ ink (drop k t) @ u = ink t @ u"
  by (simp flip: append_assoc ink_simps(2))

lemma ink_blank: "blank t \<Longrightarrow> ink t = []"
  by (simp add: blank_def ink_def list_all_iff filter_empty_conv)

lemma ink_munge: "ink (munge t) = ink t"
proof -
  have "ink (expand_tabs col t) = ink t" for col
    by (induction col t rule: expand_tabs.induct) (simp_all add: ink_Cons space_point_def [of 9])
  moreover have "ink (map (\<lambda>c. if 9 \<le> c \<and> c \<le> 13 then 32 else c) t) = ink t" for t
    by (induction t) (auto simp: ink_Cons space_point_def)
  ultimately show ?thesis by (simp add: munge_def)
qed

lemma next_line_ink:
  assumes "next_line width first cs = (line, rest)"
  shows "ink (concat line) @ ink (concat rest) = ink (concat cs)"
proof -
  define w where "w = (if first then width else width - length subsequent_indent)"
  obtain xs ys where t: "take_chunks w 0 (drop_first_blank first cs) = (xs, ys)" by fastforce
  obtain l where b: "break_long_word w xs ys = (l, rest)" "line = drop_last_blank l"
    using assms(1) t by (auto simp: next_line_def w_def split: prod.splits)
  have "ink (concat (drop_first_blank first cs)) = ink (concat cs)"
    by (auto simp: drop_first_blank_def ink_blank split: list.splits)
  moreover have "ink (concat xs) @ ink (concat ys) = ink (concat (drop_first_blank first cs))"
    using take_chunks_split [OF t] by simp
  moreover have "ink (concat l) @ ink (concat rest) = ink (concat xs) @ ink (concat ys)"
    using b(1) by (auto simp: break_long_word_def Let_def ink_cut split: list.splits if_splits)
  moreover have "ink (concat (drop_last_blank l)) = ink (concat l)"
    by (cases l rule: rev_cases) (simp_all add: drop_last_blank_def ink_blank)
  ultimately show ?thesis by (simp add: b(2))
qed

lemma wrap_chunks_ink: "ink (concat (wrap_chunks width first cs)) = ink (concat cs)"
proof (induction width first cs rule: wrap_chunks.induct)
  case (1 width first cs)
  show ?case
  proof (cases "cs = []")
    case False
    obtain line rest where n: "next_line width first cs = (line, rest)" by fastforce
    have "ink subsequent_indent = []" by (simp add: subsequent_indent_def ink_def space_point_def)
    with 1(1) [OF False n [symmetric]] 1(2) [OF False n [symmetric]] next_line_ink [OF n] False n show ?thesis
      by (cases "line = []") (simp_all add: wrap_chunks.simps [of width first cs])
  qed (simp add: wrap_chunks.simps)
qed

text \<open>Wrapping a line of the timeline loses nothing but white space: if the chunks of a text
  join to it, the parts that \<open>textwrap\<close> makes of it read, without white space, as the text
  does, and none is wider than the box.\<close>

theorem wrapping_keeps_text:
  assumes "concat (chunks (munge content)) = munge content" and "2 < width"
  shows "ink (concat (wrap chunks width content)) = ink content \<and>
    list_all (\<lambda>part. length part \<le> width) (wrap chunks width content)"
  using assms wrap_chunks_ink [of width True "chunks (munge content)"] wrap_chunks_fits [OF assms(2)]
  by (simp add: wrap_def ink_munge list_all_iff)

theorem wrapping_keeps_text_witness:
  "ink (concat (wrap (\<lambda>t. [t]) 8 (plain ''key  1234-5678-90''))) = plain ''key1234-5678-90''"
proof -
  have "ink (plain ''key  1234-5678-90'') = plain ''key1234-5678-90''"
    by (simp add: ink_def plain_def space_point_def)
  with wrapping_keeps_text [of "\<lambda>t. [t]" "plain ''key  1234-5678-90''" 8] show ?thesis by simp
qed

end
