(* ===== verification/Races.thy ===== *)
theory Races
  imports Scenarios
begin

text \<open>
  \<open>rebuild_projection\<close> of \<open>crashsafe/storage.py\<close> beside other processes. It reads the events of
  the run twice on connections of their own, and only then opens the transaction that
  replaces the rows; what other processes commit between these points is a function on the
  database for each of them. Without them it is the rebuild of \<open>Storage\<close>.
\<close>

section \<open>The rebuild and what comes between its reads and its write\<close>

definition rebuild_created :: "string \<Rightarrow> db \<Rightarrow> storage_error + payload" where
  "rebuild_created r d =
     rbind (list_events r d) (\<lambda>es. case es of
         [] \<Rightarrow> Inl (WorkflowRunNotFoundError r)
       | e # _ \<Rightarrow> (case parse_payload WORKFLOW_RUN_CREATED (ev_payload e) of
           None \<Rightarrow> Inl (PayloadTypeError WORKFLOW_RUN_CREATED) | Some p \<Rightarrow> Inr p))"

definition interleaved_rebuild :: "string \<Rightarrow> (db \<Rightarrow> db) \<Rightarrow> (db \<Rightarrow> db) \<Rightarrow> (db \<Rightarrow> db) \<Rightarrow> db
    \<Rightarrow> (storage_error + workflow_run) \<times> db" where
  "interleaved_rebuild r others1 others2 others3 d =
     (case rbind (list_events r d) reduce_history of
        Inl e \<Rightarrow> (Inl e, d)
      | Inr rebuilt \<Rightarrow>
          (let d1 = others1 d in
           case rebuild_created r d1 of
             Inl e \<Rightarrow> (Inl e, d1)
           | Inr created \<Rightarrow>
               (case transaction (rebuild_write_body r rebuilt created) (others2 d1) of
                  (Inl e, d2) \<Rightarrow> (Inl e, d2)
                | (Inr _, d2) \<Rightarrow> (let d3 = others3 d2 in (get_workflow_run r d3, d3)))))"

lemma list_events_nonempty: "list_events r d \<noteq> Inr []"
  by (simp add: list_events_def split: list.split)

lemma interleaved_alone: "interleaved_rebuild r id id id d = rebuild_projection r d"
  by (cases "list_events r d")
    (auto simp: interleaved_rebuild_def rebuild_projection_def rebuild_read_def rebuild_created_def
      rebuild_write_def list_events_nonempty Let_def split: sum.splits list.splits option.splits prod.splits)

section \<open>What the rebuild leaves\<close>

lemma protocol_append: "protocol (xs @ ys) d \<longleftrightarrow> protocol xs d \<and> protocol ys (fold perform xs d)"
  by (induction xs arbitrary: d) auto

lemma known_run_stays:
  assumes "db_ok d" and "view d r = Some run" and "protocol xs d"
  obtains run' where "view (fold perform xs d) r = Some run'"
proof -
  have "log_grows d (fold perform xs d)" for d
  proof (induction xs arbitrary: d)
    case (Cons x xs)
    from Cons [of "perform x d"] perform_log [of d x] show ?case by (auto simp: log_grows_def)
  qed simp
  with view_extends [OF assms(1) protocol_ok [OF assms(1,3)] _ assms(2)] that show thesis by blast
qed

lemma rebuild_created_ok:
  assumes "db_ok d" and "view d r = Some run"
  obtains p where "rebuild_created r d = Inr p"
proof -
  obtain p where p: "rebuild_read r d = Inr (run, p)" by (rule rebuild_read_ok [OF assms refl])
  then obtain es where es: "list_events r d = Inr es" by (auto simp: rebuild_read_def rbind_Inr_iff)
  with p have "rebuild_created r d = Inr p"
    by (cases es) (auto simp: rebuild_read_def rebuild_created_def rbind_Inr_iff split: option.splits)
  then show thesis by (rule that)
qed

text \<open>C15: a rebuild beside other processes. Whatever protocol operations are committed between
  the first read of the rebuild and its transaction, it succeeds and leaves the log, the
  other runs and their rows as those operations made them; but the run it returns and writes
  is the one it read at the start. So the projection agrees with the history afterwards if and only if the
  run had not changed in between: every retry, completion or failure committed meanwhile
  disappears from the rows while its events stay, and the run's lease is deleted with it.\<close>

theorem rebuild_race:
  assumes "db_ok d" and "get_workflow_run r d = Inr run" and "protocol (xs @ ys) d"
    and "d' = fold perform (xs @ ys) d"
  shows "\<exists>e. interleaved_rebuild r (fold perform xs) (fold perform ys) id d = (Inr run, e) \<and>
    get_workflow_run r e = Inr run \<and> db_events e = db_events d' \<and> lease_of e r = None \<and>
    (\<forall>q. q \<noteq> r \<longrightarrow> get_workflow_run q e = get_workflow_run q d') \<and>
    projection_matches_history r e = Inr (get_workflow_run r d' = Inr run)"
proof -
  have v: "view d r = Some run" using assms(2) by (simp add: get_workflow_run_view)
  have xs: "protocol xs d" and ys: "protocol ys (fold perform xs d)" using assms(3) by (simp_all add: protocol_append)
  have ok1: "db_ok (fold perform xs d)" and ok': "db_ok d'" using protocol_ok assms(1,3,4) xs by blast+
  obtain run1 where v1: "view (fold perform xs d) r = Some run1" by (rule known_run_stays [OF assms(1) v xs])
  obtain run' where v': "view d' r = Some run'" unfolding assms(4) by (rule known_run_stays [OF assms(1) v assms(3)])
  obtain p where p: "rebuild_created r (fold perform xs d) = Inr p" by (rule rebuild_created_ok [OF ok1 v1])
  have wf: "wf_run run" and r: "wr_run_id run = r" using db_ok_view(2) [OF assms(1) v] view_run_id [OF v] .
  obtain w where w: "rr_run_id w = r"
    "rebuild_write r run p d' = (Inr run, with_projection w run (delete_projection r d'))"
    "view (with_projection w run (delete_projection r d')) r = Some run"
    by (rule rebuild_write_any [OF ok' view_in_run_ids [OF v'] wf r refl])
  define e where "e = with_projection w run (delete_projection r d')"
  have "rbind (list_events r d) reduce_history = Inr run"
    using db_ok_view(1) [OF assms(1) v] by (simp add: list_events_consistent reduce_history_def)
  then have "interleaved_rebuild r (fold perform xs) (fold perform ys) id d = (Inr run, e)"
    using p w(2) assms(4)
    by (auto simp: interleaved_rebuild_def rebuild_write_def e_def Let_def split: prod.splits sum.splits)
  moreover have "get_workflow_run q e = get_workflow_run q d'" if "q \<noteq> r" for q
    using written_others [OF wf, of w q d'] that w(1) r by (simp add: get_of_view e_def)
  moreover have "projection_matches_history r e = Inr (get_workflow_run r d' = Inr run)"
  proof -
    have "run_events e r = run_events d' r" by (simp add: e_def run_events_def)
    then have red: "reduce_workflow_run_history (run_events e r) = Inr run'" using db_ok_view(1) [OF ok' v'] by simp
    then show ?thesis
      using w(3) [folded e_def] v'
      by (auto simp: projection_matches_history_def list_events_consistent [OF red] reduce_history_def get_of_view)
  qed
  moreover have "lease_of e r = None" by (auto simp: e_def lease_of_def find_None_iff)
  ultimately show ?thesis using w(3) by (intro exI [of _ e]) (simp add: e_def get_of_view)
qed

section \<open>A completed step is attempted again\<close>

text \<open>The sample run before its first claim; while it is rebuilt, a worker completes its first step.\<close>

definition fresh_sample_db :: db where
  "fresh_sample_db = perform (Create ''a1'' 100 sample_workflow None ''mock'') empty_db"

definition meanwhile_ops :: "storage_op list" where
  "meanwhile_ops =
     [Claim ''w1'' 50 200, Attempt 201 202 ''a1'' ''pay'' (Some ''w1'') (Some 1),
      Complete 203 204 ''a1'' ''pay'' sample_result (Some ''w1'') (Some 1), Release 205 ''a1'' ''w1'' 1]"

definition fresh_sample_run :: workflow_run where
  "fresh_sample_run = created_run ''a1'' 100 ''mock'' sample_workflow"

lemma fresh_sample_facts: "get_workflow_run ''a1'' fresh_sample_db = Inr fresh_sample_run"
    "protocol ([] @ meanwhile_ops) fresh_sample_db"
    "get_workflow_run ''a1'' (fold perform ([] @ meanwhile_ops) fresh_sample_db) \<noteq> Inr fresh_sample_run"
  by code_simp+

lemma fresh_sample_ok: "db_ok fresh_sample_db"
  unfolding fresh_sample_db_def by (rule perform_ok [OF db_ok_empty]) code_simp

theorem rebuild_race_witness:
  "\<exists>e. interleaved_rebuild ''a1'' id (fold perform meanwhile_ops) id fresh_sample_db = (Inr fresh_sample_run, e) \<and>
    get_workflow_run ''a1'' e = Inr fresh_sample_run \<and> projection_matches_history ''a1'' e = Inr False"
proof -
  have "fold perform [] = id" by (simp add: fun_eq_iff)
  with rebuild_race [OF fresh_sample_ok fresh_sample_facts(1,2) refl] fresh_sample_facts(3) show ?thesis by auto
qed

text \<open>The next worker claims the completed step under the first token, attempts it a second time
  as its first attempt, and from then on the reducer refuses the log: neither the timeline
  nor another rebuild can read it.\<close>

definition raced_db :: db where
  "raced_db = snd (interleaved_rebuild ''a1'' id (fold perform meanwhile_ops) id fresh_sample_db)"

lemma rebuild_race_breaks_log:
  "case claim_runnable_step ''w2'' 50 300 raced_db of
     (Inr (Some c), d1) \<Rightarrow> st_id (cl_step c) = ''pay'' \<and> le_fence_token (cl_lease c) = 1 \<and>
       (case record_attempt 301 302 ''a1'' ''pay'' (Some ''w2'') (Some 1) d1 of
          (Inr s, d2) \<Rightarrow> st_attempts s = 1 \<and> length (run_events d2 ''a1'') = 4 \<and>
            (case rebuild_projection ''a1'' d2 of (Inl (HistoryIntegrity e), d3) \<Rightarrow> d3 = d2 | _ \<Rightarrow> False)
        | _ \<Rightarrow> False)
   | _ \<Rightarrow> False"
  by code_simp

end
