(* ===== verification/Supervision.thy ===== *)
theory Supervision
  imports Supervisor
begin

text \<open>
  The supervisor process of \<open>crashsafe/supervisor.py\<close> from \<open>main\<close> to its end: what it reports at
  the start, the signals that ask it to stop, the monitor under them, and the shutdown in
  the \<open>finally\<close>. It is shown to lose track of no process it has spawned. Spawning succeeds
  here; \<open>pid_of\<close> gives the process id of a handle.
\<close>

section \<open>The report\<close>

fun join_texts :: "string \<Rightarrow> string list \<Rightarrow> string" where
  "join_texts sep [] = []"
| "join_texts sep [x] = x"
| "join_texts sep (x # y # xs) = x @ sep @ join_texts sep (y # xs)"

definition startup_report :: "(nat \<Rightarrow> nat) \<Rightarrow> supervisor \<Rightarrow> string list" where
  "startup_report pid_of v =
     [''Crashsafe is running:'',
      ''  API/docs: http://127.0.0.1:8000/docs'',
      ''  mock ledger: http://127.0.0.1:8001/ledger'',
      ''  workers: '' @ join_texts '', ''
        (map (\<lambda>(name, p). name @ ''='' @ show_nat (pid_of (pr_handle p)))
          (filter (\<lambda>(name, p). take 7 name = ''worker-'') (sv_processes v))),
      ''Press Ctrl-C to stop. A SIGKILLed worker slot is restarted.'']"

section \<open>The process\<close>

definition supervisor_request_stop :: "int \<Rightarrow> supervisor \<Rightarrow> supervisor" where
  "supervisor_request_stop signum v = v\<lparr>sv_stopping := True\<rparr>"

text \<open>How the monitor comes out: the rounds end before it does, \<open>int()\<close> raises, or it returns.\<close>

datatype 'a outcome = Ongoing | Raises | Ends 'a

text \<open>A round: the signals handled since the previous check, and what \<open>poll\<close> returns in it.\<close>

fun watch :: "(int list \<times> (nat \<Rightarrow> int option)) list \<Rightarrow> supervisor \<Rightarrow> supervisor outcome" where
  "watch [] v = Ongoing"
| "watch ((signals, poll) # rounds) v =
     (let v = fold supervisor_request_stop signals v in
      if sv_stopping v then Ends v
      else (case check_slots poll (sv_processes v) v of None \<Rightarrow> Raises | Some v' \<Rightarrow> watch rounds v'))"

definition supervisor_main :: "environment \<Rightarrow> (int list \<times> (nat \<Rightarrow> int option)) list \<Rightarrow> (nat \<Rightarrow> int option) \<Rightarrow> (nat \<Rightarrow> bool)
    \<Rightarrow> config_error + (supervisor \<times> signal list) outcome" where
  "supervisor_main env rounds poll in_time =
     rbind (from_env env) (\<lambda>s. Inr
       (case watch rounds (start (supervisor_init s)) of
          Ongoing \<Rightarrow> Ongoing
        | Raises \<Rightarrow> Raises
        | Ends v \<Rightarrow> Ends (v, stop poll in_time v)))"

lemma fold_supervisor_stop [simp]:
  "fold supervisor_request_stop signals v = (if signals = [] then v else v\<lparr>sv_stopping := True\<rparr>)"
  by (induction signals arbitrary: v) (simp_all add: supervisor_request_stop_def)

section \<open>No process is lost\<close>

definition handles :: "supervisor \<Rightarrow> nat set" where
  "handles v = pr_handle ` snd ` set (sv_processes v)"

text \<open>Every process ever spawned is in a slot or was seen to have exited.\<close>

definition accounted :: "(nat \<Rightarrow> bool) \<Rightarrow> supervisor \<Rightarrow> bool" where
  "accounted seen v \<longleftrightarrow> (\<forall>h < sv_spawned v. h \<in> handles v \<or> seen h)"

lemma fold_spawned: "sv_spawned (fold start_worker is v) = sv_spawned v + length is"
  by (induction "is" arbitrary: v) (simp_all add: start_worker_def spawn_def)

lemma start_accounted:
  assumes "0 \<le> se_worker_count s"
  shows "accounted (\<lambda>h. False) (start (supervisor_init s))"
proof -
  let ?v = "start (supervisor_init s)"
  have ok: "slots_ok (se_worker_count s) ?v" by (rule start_slots_ok [OF assms])
  have "map fst (sv_processes ?v) = slot_names (se_worker_count s)" using ok by (simp add: slots_ok_def)
  from arg_cong [OF this, of length] have len: "length (sv_processes ?v) = sv_spawned ?v"
    by (simp add: slot_names_def start_def fold_spawned) (simp add: spawn_def supervisor_init_def)
  have fresh: "fresh_ok ?v" by (rule start_fresh)
  then have "distinct (map (pr_handle \<circ> snd) (sv_processes ?v))" by (simp add: fresh_ok_def)
  from distinct_card [OF this] len have "card (handles ?v) = card {..< sv_spawned ?v}"
    by (simp add: handles_def image_comp)
  moreover have "handles ?v \<subseteq> {..< sv_spawned ?v}" using fresh by (auto simp: fresh_ok_def handles_def)
  ultimately have "handles ?v = {..< sv_spawned ?v}" by (intro card_subset_eq) simp_all
  then show ?thesis by (simp add: accounted_def)
qed

lemma check_slot_accounted:
  assumes procs: "sv_processes v = xs @ x # ys" and "fst x \<notin> fst ` set xs" and "valid_slot x"
    and acc: "accounted seen v" and v': "check_slot poll x v = Some v'"
  shows "accounted (\<lambda>h. seen h \<or> poll h \<noteq> None) v'"
proof (cases "exited poll x \<and> is_worker x")
  case True
  then obtain i where i: "1 \<le> i" "length (show_int i) \<le> 4300" "fst x = worker_name i"
    using assms(3) by (auto simp: valid_slot_def)
  obtain w where x: "x = (worker_name i, w)" using i(3) by (cases x) simp
  have "v' = start_worker i v"
    using v' True worker_index [OF i(1,2)] by (auto simp: check_slot_def x exited_def is_worker_def)
  then have "handles v' = insert (sv_spawned v) (pr_handle ` snd ` (set xs \<union> set ys))" "sv_spawned v' = sv_spawned v + 1"
    using assms(1,2) by (auto simp: start_worker_def spawn_def x set_slot_at handles_def)
  moreover have "handles v = insert (pr_handle w) (pr_handle ` snd ` (set xs \<union> set ys))"
    by (auto simp: handles_def procs x)
  moreover have "poll (pr_handle w) \<noteq> None" using True by (simp add: exited_def x)
  ultimately show ?thesis using acc by (auto simp: accounted_def less_Suc_eq)
next
  case False
  then have "v' = v \<or> v' = v\<lparr>sv_stopping := True\<rparr>"
    using v' by (cases x) (auto simp: check_slot_def exited_def is_worker_def split: option.splits if_splits)
  with acc show ?thesis by (auto simp: accounted_def handles_def)
qed

lemma accounted_mono: "accounted seen v \<Longrightarrow> (\<And>h. seen h \<Longrightarrow> seen' h) \<Longrightarrow> accounted seen' v"
  by (auto simp: accounted_def)

lemma check_slots_accounted:
  assumes "sv_processes v = xs @ slots" and "distinct (map fst (xs @ slots))" and "\<forall>x \<in> set slots. valid_slot x"
    and "accounted seen v" and "check_slots poll slots v = Some v'"
  shows "accounted (\<lambda>h. seen h \<or> poll h \<noteq> None) v'"
  using assms
proof (induction slots arbitrary: v xs seen)
  case Nil
  then show ?case by (auto intro: accounted_mono)
next
  case (Cons x slots)
  then obtain v1 where v1: "check_slot poll x v = Some v1" "check_slots poll slots v1 = Some v'"
    by (auto split: option.splits)
  have "fst x \<notin> fst ` set xs" using Cons.prems(2) by auto
  from check_slot_result [OF Cons.prems(1) this, of poll] Cons.prems(3) v1(1) obtain x' where
    x': "sv_processes v1 = (xs @ [x']) @ slots" "slot_after poll (sv_spawned v) x x'" by auto
  have "distinct (map fst ((xs @ [x']) @ slots))" using Cons.prems(2) x'(2) by (simp add: slot_after_def)
  moreover have "accounted (\<lambda>h. seen h \<or> poll h \<noteq> None) v1"
    using check_slot_accounted [OF Cons.prems(1) _ _ Cons.prems(4) v1(1)] Cons.prems(2,3) by simp
  moreover have "\<forall>x \<in> set slots. valid_slot x" using Cons.prems(3) by simp
  ultimately have "accounted (\<lambda>h. (seen h \<or> poll h \<noteq> None) \<or> poll h \<noteq> None) v'"
    using Cons.IH [OF x'(1) _ _ _ v1(2)] by blast
  then show ?case by (rule accounted_mono) blast
qed

lemma watch_accounted:
  assumes "slots_ok n v" and small: "\<forall>i. 1 \<le> i \<and> i \<le> n \<longrightarrow> length (show_int i) \<le> 4300"
    and "\<exists>(signals, poll) \<in> set rounds. signals \<noteq> []" and "accounted seen v"
  shows "\<exists>v'. watch rounds v = Ends v' \<and> slots_ok n v' \<and> sv_stopping v' \<and>
    accounted (\<lambda>h. seen h \<or> (\<exists>(signals, poll) \<in> set rounds. poll h \<noteq> None)) v'"
  using assms(1,3,4)
proof (induction rounds arbitrary: v seen)
  case (Cons round rounds)
  obtain signals poll where round: "round = (signals, poll)" by fastforce
  show ?case
  proof (cases "signals = [] \<and> \<not> sv_stopping v")
    case False
    let ?v = "if signals = [] then v else v\<lparr>sv_stopping := True\<rparr>"
    have "slots_ok n ?v" "accounted (\<lambda>h. seen h \<or> (\<exists>(signals, poll) \<in> set (round # rounds). poll h \<noteq> None)) ?v"
      using Cons.prems(1,3) by (auto simp: slots_ok_def fresh_ok_def accounted_def handles_def)
    moreover have "watch (round # rounds) v = Ends ?v" "sv_stopping ?v" using False by (auto simp: round)
    ultimately show ?thesis by blast
  next
    case True
    from check_slots_ok [OF Cons.prems(1) small, of poll] obtain v1 where
      v1: "check_slots poll (sv_processes v) v = Some v1" "slots_ok n v1" by blast
    have names: "map fst (sv_processes v) = slot_names n" using Cons.prems(1) by (simp add: slots_ok_def)
    then have "distinct (map fst ([] @ sv_processes v))" using distinct_slot_names by simp
    moreover have "\<forall>x \<in> set (sv_processes v). valid_slot x"
      using names small by (metis list.set_map image_eqI slot_names_valid)
    ultimately have "accounted (\<lambda>h. seen h \<or> poll h \<noteq> None) v1"
      using check_slots_accounted [of v "[]" "sv_processes v" seen poll v1] Cons.prems(3) v1(1) by simp
    moreover have "\<exists>(signals, poll) \<in> set rounds. signals \<noteq> []" using Cons.prems(2) True by (simp add: round)
    ultimately obtain v' where v': "watch rounds v1 = Ends v'" "slots_ok n v'" "sv_stopping v'"
      "accounted (\<lambda>h. (seen h \<or> poll h \<noteq> None) \<or> (\<exists>(signals, poll) \<in> set rounds. poll h \<noteq> None)) v'"
      using Cons.IH [OF v1(2)] by blast
    have "accounted (\<lambda>h. seen h \<or> (\<exists>(signals, poll) \<in> set (round # rounds). poll h \<noteq> None)) v'"
      using v'(4) by (rule accounted_mono) (auto simp: round)
    moreover have "watch (round # rounds) v = Ends v'" using True v1(1) v'(1) by (simp add: round)
    ultimately show ?thesis using v'(2,3) by blast
  qed
qed simp

text \<open>C37: the supervisor loses no process. With settings that pass the validation it ends once a
  signal arrives, whatever its processes do before; and then every process it has ever spawned
  (replaced workers included) was seen to have exited, or is terminated, and killed if it
  does not exit before the deadline. It signals no process twice in the same way and none but its own.\<close>

theorem supervisor_loses_nothing:
  assumes "from_env env = Inr s" and "\<exists>(signals, polled) \<in> set rounds. signals \<noteq> []"
  shows "\<exists>v sent. supervisor_main env rounds poll in_time = Inr (Ends (v, sent)) \<and> distinct sent \<and>
    (\<forall>h. Terminate h \<in> set sent \<or> Kill h \<in> set sent \<longrightarrow> h < sv_spawned v) \<and>
    (\<forall>h < sv_spawned v. (\<exists>(signals, polled) \<in> set rounds. polled h \<noteq> None) \<or>
       (poll h \<noteq> None \<or> Terminate h \<in> set sent) \<and> (in_time h \<or> Kill h \<in> set sent))"
proof -
  note w = settings_workers [OF assms(1)]
  have "slots_ok (se_worker_count s) (start (supervisor_init s))" "accounted (\<lambda>h. False) (start (supervisor_init s))"
    using w(1) by (simp_all add: start_slots_ok start_accounted)
  from watch_accounted [OF this(1) w(2) assms(2) this(2)] obtain v where
    v: "watch rounds (start (supervisor_init s)) = Ends v" "slots_ok (se_worker_count s) v"
      "accounted (\<lambda>h. \<exists>(signals, polled) \<in> set rounds. polled h \<noteq> None) v" by auto
  have fresh: "fresh_ok v" using v(2) by (simp add: slots_ok_def)
  have "distinct (stop poll in_time v)"
    using fresh by (auto simp: stop_def Let_def fresh_ok_def distinct_map inj_on_def comp_def)
  moreover have "\<forall>h. Terminate h \<in> set (stop poll in_time v) \<or> Kill h \<in> set (stop poll in_time v) \<longrightarrow> h < sv_spawned v"
    using fresh by (auto simp: stop_def Let_def fresh_ok_def)
  moreover have "(poll h \<noteq> None \<or> Terminate h \<in> set (stop poll in_time v)) \<and>
      (in_time h \<or> Kill h \<in> set (stop poll in_time v))" if "h \<in> handles v" for h
    using that by (auto simp: stop_def Let_def handles_def)
  moreover have "supervisor_main env rounds poll in_time = Inr (Ends (v, stop poll in_time v))"
    using assms(1) v(1) by (simp add: supervisor_main_def)
  ultimately show ?thesis using v(3) unfolding accounted_def by blast
qed

text \<open>A worker is killed and replaced, then the supervisor is interrupted and the tool hangs.\<close>

theorem supervisor_loses_nothing_witness:
  "\<exists>v sent. supervisor_main Map.empty
      [([], \<lambda>h. if h = 2 then Some (- 9) else None), ([2], \<lambda>h. None)] (\<lambda>h. None) (\<lambda>h. h \<noteq> 0) = Inr (Ends (v, sent)) \<and>
    (0 < sv_spawned v \<longrightarrow> Terminate 0 \<in> set sent \<and> Kill 0 \<in> set sent)"
proof -
  have "\<exists>(signals, polled) \<in> set [([], \<lambda>h. if h = 2 then Some (- 9) else None), ([2 :: int], \<lambda>h :: nat. None :: int option)].
      signals \<noteq> []" by simp
  from supervisor_loses_nothing [OF from_no_env this, of "\<lambda>h. None" "\<lambda>h. h \<noteq> 0"] show ?thesis by fastforce
qed

end
