(* ===== verification/Spec2Isabelle.thy ===== *)
theory Spec2Isabelle
  imports Demonstrations Rendering Races Supervision
begin

text \<open>
  Crashsafe, a durable workflow engine on SQLite, and what makes it correct.

  The program. A run is submitted as a graph of steps through an HTTP API and stored
  together with its first event. Worker processes claim steps under fenced leases of their
  run, record the intent to call an external tool, call it outside of any transaction, and
  commit the outcome if their lease is still the current one. Every transition appends
  events to an append-only log and updates a projection (runs, steps, dependencies) that the
  scheduler reads, in one transaction; the projection can be rebuilt from the log. The tool
  keeps a ledger of its own and answers a repeated idempotency key with the result it
  committed first. So a process may die anywhere, an answer may be lost and a lease may be
  taken over, and still every step has its effect once.

  Theories and sources (paths under \<open>src/crashsafe\<close> unless another is given):
  \<^item> Prelude: results (\<open>rbind\<close>, \<open>guard\<close>), updates of lists by a condition, their facts, and the
    collections of the storage's definitions that proofs unfold (\<open>op_defs\<close>, \<open>body_defs\<close>).
  \<^item> Timestamps, Doubles, Durations, Milliseconds, Numbers: \<open>to_db\<close> and the order of the stored
    texts; the rounding to doubles; \<open>timedelta\<close>, deadlines and the backoff on floats; the
    milliseconds of a duration; \<open>int()\<close> and \<open>float()\<close> of texts.
  \<^item> Models, Graph: \<open>models.py\<close>, the contracts, their field constraints and \<open>validate_graph\<close>,
    with its equivalence to the existence of no cycle and no unknown or repeated name.
  \<^item> History, History_Facts: \<open>history.py\<close>, the strict reducer and its invariant \<open>wf_run\<close>.
  \<^item> Storage, with Projection, Transitions, Creation, Scheduling, Operations: \<open>storage.py\<close>, one
    definition per operation on the record \<open>db\<close> of its tables; each keeps \<open>db_ok\<close> (every
    projection is its reduced log, keys are unique, leases belong to runs); \<open>Operations\<close>
    collects the calls a client makes as \<open>storage_op\<close> and \<open>perform\<close>.
  \<^item> Schema: \<open>_initialize\<close> with the creation, migration and repair of the schema, on a catalog
    of tables with their columns and references, statement by statement.
  \<^item> Lifecycle: the abstract state machine of a run, refined by the system; Recovery, Fencing:
    submission, repair and takeover over sequences of operations; Races: a rebuild with other
    processes between its reads and its write; Interfaces: the locales of
    an idempotent service, of guarded tokens, of a simulation and of a polling loop,
    interpreted on the model in Mock_Tool, Fencing, Lifecycle and Scripts.
  \<^item> Mock_Tool, Tool_Service: \<open>mock_tool.py\<close>, the ledger with \<open>apply\<close>, \<open>find\<close> and \<open>summary\<close>; its
    settings, routes, failures and files, and the request \<open>HttpToolGateway\<close> posts to it.
  \<^item> Engine, Commits: \<open>engine.py\<close>; \<open>run_once\<close> is cut where the database is free: claim, attempt,
    the call, commit, release, so that other processes can act between the phases.
  \<^item> System, Guarantees, Attempts: the composition of any number of workers, the database, the
    tool, the messages and the crashes as the step relation \<open>sys_step\<close>, its invariant by rule
    induction (\<open>reachable_ok\<close>) and what follows in every reachable state.
  \<^item> Outcomes, Worker, Progress, Heartbeat: \<open>worker.py\<close>, its loops and exit codes; what one
    attempt leaves; that a healthy worker finishes; \<open>LeaseHeartbeat\<close> and \<open>build_worker\<close>.
    Worker_Process: the process around them, with signals, flag, deadline and pid file, and what
    it leaves at each end.
  \<^item> Config, Api, Services, Timeline, Rendering: \<open>config.py\<close>, \<open>api.py\<close>, the entry points of the two
    services, and \<open>observability.py\<close> in two parts, the timeline and its drawing.
  \<^item> Supervisor, Supervision: \<open>supervisor.py\<close>, its slots and restarts; its \<open>main\<close> with the report,
    the signals and the shutdown.
  \<^item> Scripts, Staging, Script_Processes: \<open>scripts/demo.py\<close> and \<open>scripts/graceful_drain.py\<close>: the
    environments, the waits, the stages and the final checks, the processes they start and kill.
  \<^item> Scenarios, Executions, Demonstrations: concrete runs, evaluated, at which the properties
    are applied.

  Correspondence. A table is a list of records in the order of insertion, a row value the
  parsed value of its column, a transaction a function that returns the new tables or an
  error with the old ones (\<open>transaction\<close>). An exception is a value of \<open>storage_error\<close>,
  \<open>engine_error\<close> and so on; every raise of the source is a branch. Integers are unbounded as
  in Python, instants are microseconds, floats are rationals with NaN and the infinities,
  rounded to doubles where Python rounds (theory Doubles): \<open>timedelta\<close> multiplies the fraction
  of a second in floating point. A clock reading, a random number, a fresh UUID is an
  argument of the operation that draws it: clocks may disagree and go backwards.

  Parameters. \<open>digest\<close> (SHA-256 of a canonical text; nothing is assumed, not even that it is
  injective), \<open>parse\<close> (the request models applied to a JSON object), \<open>canonical\<close> (a UUID's
  text), \<open>repr\<close> and \<open>float_str\<close> (Python's texts of objects and floats), \<open>chunks\<close> (how \<open>textwrap\<close>
  splits a text; that the chunks join to it, or are pieces of it, is a hypothesis where it is
  needed), \<open>path_of\<close> (the path an HTTP client asks for, given a URL) and \<open>interim\<close> (what other
  processes commit between two transactions).

  Bounds. The loops of the workers, of the heartbeat, of the supervisor and of the scripts
  are driven by what happens around them, a list of ticks, rounds or readings; a loop that
  the list ends is the loop that a signal or a deadline ends. That they get somewhere is
  proved where it is claimed: a healthy worker needs at most one tick per open step and one
  more (\<open>healthy_worker_completes\<close>), the drained run three (\<open>drain_passes\<close>). All other recursion
  terminates; there is no fuel.

  Not modelled. Logging, threads and locks (a heartbeat is a step of the system), \<open>argparse\<close>
  (\<open>main\<close> of the worker is given the namespace or the exit code), the HTTP framework and the
  network (an answer is received, late, lost or an error), connection pragmas and the texts
  of the columns, and the debugging pause inside \<open>_append_event\<close>, which only delays. The
  operating system is what the programs observe of it: starting a process and writing a
  file succeed, \<open>poll\<close> and \<open>wait\<close> return what they are given, and a stage of a script is given
  the answers and exit codes it sees; the ports the system offers are a list of readings,
  and what is printed between the stages is left out. The system of \<open>sys_step\<close> has no rebuild, which is an operator's
  tool: a rebuild deletes the lease of its run and restarts its tokens (\<open>rebuild_repairs\<close>), and
  beside a worker it takes back what was committed since it read (\<open>rebuild_race\<close>), so the
  statements about the system are about executions without it.
\<close>

end
